(* ===== verification/Go_Prelude.thy ===== *)
theory Go_Prelude
  imports Main "HOL-Library.Word" "HOL-Library.Multiset"
begin

text \<open>
  What the components of agilePool share: the part of Go's standard library and of Go's
  integer types that the sources use (\<^verbatim>\<open>time.Time\<close>, \<^verbatim>\<open>time.Duration\<close>,
  \<^verbatim>\<open>int64\<close>), and the generic facts on lists and options that carry the component
  proofs.

  Conventions of the whole development. An operation that can panic (nil dereference,
  index out of range) or not return is a function into \<open>'a option\<close>; \<open>None\<close> is the
  panic or the divergence, and every contract states that the result is \<open>Some\<close>.
  A nil pointer is \<open>None\<close> of an option-typed slot.
\<close>

section \<open>Collections of rewrite rules\<close>

named_theorems go_time \<open>the operations of package time\<close>
named_theorems idle_defs \<open>operations of the idle containers\<close>
named_theorems buf_defs \<open>operations of the chunked task buffer\<close>
named_theorems pool_defs \<open>operations of the pool\<close>

section \<open>Integers\<close>

abbreviation MaxInt64 :: int where
  "MaxInt64 \<equiv> 2 ^ 63 - 1"

abbreviation MinInt64 :: int where
  "MinInt64 \<equiv> - (2 ^ 63)"

definition int64_range :: "int \<Rightarrow> bool" where
  "int64_range x \<longleftrightarrow> MinInt64 \<le> x \<and> x \<le> MaxInt64"

definition wrap64 :: "int \<Rightarrow> int" where
  "wrap64 x = (x + 2 ^ 63) mod 2 ^ 64 - 2 ^ 63"

lemma wrap64_id [simp]: "int64_range x \<Longrightarrow> wrap64 x = x"
  by (simp add: wrap64_def int64_range_def)

lemma int64_range_wrap64 [simp]: "int64_range (wrap64 x)"
  by (simp add: wrap64_def int64_range_def)

lemma sint_wrap64: "sint (w :: 64 word) = wrap64 (uint w)"
  by (simp add: sint_uint signed_take_bit_eq_take_bit_shift take_bit_eq_mod wrap64_def)

lemma wrap64_high: "2 ^ 63 \<le> x \<Longrightarrow> x < 2 ^ 64 \<Longrightarrow> wrap64 x = x - 2 ^ 64"
proof -
  assume x: "2 ^ 63 \<le> x" "x < 2 ^ 64"
  have "(x + 2 ^ 63) mod 2 ^ 64 = (x - 2 ^ 63 + 1 * 2 ^ 64) mod 2 ^ 64" by (simp add: add.commute)
  also have "\<dots> = (x - 2 ^ 63) mod 2 ^ 64" by (rule mod_mult_self1)
  also have "\<dots> = x - 2 ^ 63" using x by (intro mod_pos_pos_trivial) simp_all
  finally show ?thesis by (simp add: wrap64_def)
qed

section \<open>Package time\<close>

text \<open>
  An instant is its distance in nanoseconds from \<^verbatim>\<open>time.Time{}\<close>, the zero instant.
  A \<^verbatim>\<open>time.Duration\<close> is an \<^verbatim>\<open>int64\<close> count of nanoseconds; its negation wraps
  at the least value, and the difference of two instants saturates.
\<close>

type_synonym time = int
type_synonym duration = int

definition After :: "time \<Rightarrow> time \<Rightarrow> bool" where
  [go_time]: "After t u \<longleftrightarrow> u < t"

definition Before :: "time \<Rightarrow> time \<Rightarrow> bool" where
  [go_time]: "Before t u \<longleftrightarrow> t < u"

definition time_Add :: "time \<Rightarrow> duration \<Rightarrow> time" where
  [go_time]: "time_Add t d = t + d"

definition time_Sub :: "time \<Rightarrow> time \<Rightarrow> duration" where
  "time_Sub t u = max MinInt64 (min MaxInt64 (t - u))"

definition IsZero :: "time \<Rightarrow> bool" where
  "IsZero t \<longleftrightarrow> t = 0"

definition neg_duration :: "duration \<Rightarrow> duration" where
  "neg_duration d = (if d = MinInt64 then MinInt64 else - d)"

abbreviation Millisecond :: duration where
  "Millisecond \<equiv> 1000000"

abbreviation Second :: duration where
  "Second \<equiv> 1000000000"

lemma neg_duration_minus [go_time]: "MinInt64 < d \<Longrightarrow> neg_duration d = - d"
  by (simp add: neg_duration_def)

lemma int64_range_time_Sub: "int64_range (time_Sub t u)"
  by (simp add: int64_range_def time_Sub_def)

section \<open>Package sync: object pools\<close>

text \<open>
  \<^verbatim>\<open>sync.Pool\<close>: \<^verbatim>\<open>Get\<close> removes and returns an arbitrary pooled object, or
  calls \<^verbatim>\<open>New\<close>; which of them is not specified, so the choice is an argument
  (\<open>Some i\<close> asks for the \<open>i\<close>-th object, \<open>None\<close> for a new one).
\<close>

definition sync_Pool_Get :: "nat option \<Rightarrow> 'a \<Rightarrow> 'a list \<Rightarrow> 'a \<times> 'a list" where
  "sync_Pool_Get pick new items =
     (case pick of
        None \<Rightarrow> (new, items)
      | Some i \<Rightarrow> if i < length items then (items ! i, take i items @ drop (Suc i) items) else (new, items))"

definition sync_Pool_Put :: "'a \<Rightarrow> 'a list \<Rightarrow> 'a list" where
  "sync_Pool_Put x items = x # items"

lemma sync_Pool_Get_cases:
  assumes "sync_Pool_Get pick new items = (x, items')"
  obtains "x = new" "items' = items"
  | i where "i < length items" "x = items ! i" "items' = take i items @ drop (Suc i) items"
proof (cases pick)
  case None
  with assms that(1) show ?thesis by (simp add: sync_Pool_Get_def)
next
  case (Some i)
  show ?thesis
  proof (cases "i < length items")
    case True
    show ?thesis
      by (rule that(2) [OF True]) (use assms Some True in \<open>simp_all add: sync_Pool_Get_def\<close>)
  next
    case False
    show ?thesis
      by (rule that(1)) (use assms Some False in \<open>simp_all add: sync_Pool_Get_def\<close>)
  qed
qed

lemma set_take_drop_Suc: "set (take i xs @ drop (Suc i) xs) \<subseteq> set xs"
  using set_take_subset set_drop_subset by fastforce

lemma sync_Pool_Get_mset:
  assumes "sync_Pool_Get pick new items = (x, items')"
  shows "items' = items \<and> x = new \<or> mset items = add_mset x (mset items')"
  using assms
proof (cases rule: sync_Pool_Get_cases)
  case (2 i)
  then have "mset items = mset (take i items @ items ! i # drop (Suc i) items)"
    by (intro arg_cong [where f = mset] id_take_nth_drop)
  with 2 show ?thesis by simp
qed simp

section \<open>Arithmetic\<close>

lemma mod_add_left_inj:
  assumes "(h + k) mod n = (h + j) mod n" and "k < n" and "j < (n::nat)"
  shows "k = j"
proof -
  from assms(1) obtain p q where "h + k + n * p = h + j + n * q"
    unfolding nat_mod_eq_iff by blast
  then have "(k + n * p) mod n = (j + n * q) mod n" by simp
  with assms(2,3) show ?thesis by simp
qed

section \<open>Lists and options\<close>

lemma take_Suc_update:
  "k < length xs \<Longrightarrow> take (Suc k) (xs[k := x]) = take k xs @ [x]"
  by (simp add: take_Suc_conv_app_nth)

lemma mset_filter_not: "mset (filter P xs) + mset (filter (\<lambda>x. \<not> P x) xs) = mset xs"
  by (simp add: mset_filter)

lemma length_filter_not:
  "length (filter (\<lambda>x. \<not> P x) xs) = length xs - length (filter P xs)"
  using sum_length_filter_compl [of P xs] by simp

lemma int_length_filter_not:
  "int (length xs) - int (length (filter P xs)) = int (length (filter (\<lambda>x. \<not> P x) xs))"
  using sum_length_filter_compl [of P xs] by simp

text \<open>The last \<open>n\<close> elements of a list, as a sliding window keeps them.\<close>

definition last_n :: "nat \<Rightarrow> 'a list \<Rightarrow> 'a list" where
  "last_n n xs = drop (length xs - n) xs"

lemma last_n_short: "length xs \<le> n \<Longrightarrow> last_n n xs = xs"
  by (simp add: last_n_def)

lemma length_last_n [simp]: "length (last_n n xs) = min n (length xs)"
  by (simp add: last_n_def)

lemma last_n_map: "last_n n (map f xs) = map f (last_n n xs)"
  by (simp add: last_n_def drop_map)

lemma last_n_snoc: "0 < n \<Longrightarrow> last_n n (last_n n xs @ [x]) = last_n n (xs @ [x])"
  by (cases "n \<le> length xs") (auto simp: last_n_def Suc_diff_le)

lemma last_n_append:
  assumes "0 < n"
  shows "last_n n (last_n n xs @ ys) = last_n n (xs @ ys)"
proof (induction ys rule: rev_induct)
  case (snoc y ys)
  then show ?case using last_n_snoc [OF assms] by (metis append.assoc)
qed (simp add: last_n_def)

lemma set_last_n: "set (last_n n xs) \<subseteq> set xs"
  by (simp add: last_n_def set_drop_subset)

lemma map_the_Some [simp]: "map (the \<circ> Some) xs = xs"
  by (induction xs) simp_all

lemma map_Some_eq_iff [simp]: "map Some xs = map Some ys \<longleftrightarrow> xs = ys"
  by (metis inj_map_eq_map inj_Some)

end
