(* ===== verification/Go_Float.thy ===== *)
theory Go_Float
  imports Complex_Main "HOL-Library.Log_Nat" Go_Prelude
begin

text \<open>
  Go's \<^verbatim>\<open>float64\<close>: IEEE 754 binary64 with round-to-nearest-even, as rational numbers
  with infinities and NaN (the two zeros are not told apart). The scaler, the histograms
  and the default backoff schedule compute with it. \<^verbatim>\<open>int64(x)\<close> truncates; Go leaves
  the result of a conversion out of range to the implementation, so it is an argument
  \<open>oor\<close> of \<open>f_int64\<close>.
\<close>

section \<open>Rounding\<close>

datatype float64 = Fin rat | Inf bool | NaN

definition fl_exp :: "rat \<Rightarrow> int" where
  "fl_exp x =
     (let (p, q) = quotient_of x; e = int (floorlog 2 (nat \<bar>p\<bar>)) - int (floorlog 2 (nat q))
      in if 2 powi e \<le> \<bar>x\<bar> then e else e - 1)"

definition round_even :: "rat \<Rightarrow> int" where
  "round_even x =
     (let f = \<lfloor>x\<rfloor>; d = x - of_int f
      in if d < 1 / 2 then f else if 1 / 2 < d then f + 1 else if even f then f else f + 1)"

definition fl :: "rat \<Rightarrow> float64" where
  "fl x =
     (if x = 0 then Fin 0
      else let u = 2 powi (max (fl_exp x - 52) (- 1074)); y = of_int (round_even (x / u)) * u
           in if 2 ^ 1024 \<le> y then Inf True else if y \<le> - (2 ^ 1024) then Inf False else Fin y)"

section \<open>Operations\<close>

fun f_add :: "float64 \<Rightarrow> float64 \<Rightarrow> float64" where
  "f_add (Fin a) (Fin b) = fl (a + b)"
| "f_add NaN _ = NaN"
| "f_add _ NaN = NaN"
| "f_add (Inf s) (Inf t) = (if s = t then Inf s else NaN)"
| "f_add (Inf s) _ = Inf s"
| "f_add _ (Inf t) = Inf t"

fun f_neg :: "float64 \<Rightarrow> float64" where
  "f_neg (Fin a) = Fin (- a)"
| "f_neg (Inf s) = Inf (\<not> s)"
| "f_neg NaN = NaN"

definition f_sub :: "float64 \<Rightarrow> float64 \<Rightarrow> float64" where
  "f_sub a b = f_add a (f_neg b)"

fun f_mul :: "float64 \<Rightarrow> float64 \<Rightarrow> float64" where
  "f_mul (Fin a) (Fin b) = fl (a * b)"
| "f_mul NaN _ = NaN"
| "f_mul _ NaN = NaN"
| "f_mul (Inf s) (Inf t) = Inf (s = t)"
| "f_mul (Inf s) (Fin b) = (if b = 0 then NaN else Inf (s = (0 < b)))"
| "f_mul (Fin a) (Inf t) = (if a = 0 then NaN else Inf (t = (0 < a)))"

fun f_div :: "float64 \<Rightarrow> float64 \<Rightarrow> float64" where
  "f_div (Fin a) (Fin b) =
     (if b = 0 then (if a = 0 then NaN else Inf (0 < a)) else fl (a / b))"
| "f_div NaN _ = NaN"
| "f_div _ NaN = NaN"
| "f_div (Inf s) (Inf t) = NaN"
| "f_div (Inf s) (Fin b) = Inf (s = (0 \<le> b))"
| "f_div (Fin a) (Inf t) = Fin 0"

fun f_less :: "float64 \<Rightarrow> float64 \<Rightarrow> bool" where
  "f_less (Fin a) (Fin b) \<longleftrightarrow> a < b"
| "f_less NaN _ \<longleftrightarrow> False"
| "f_less _ NaN \<longleftrightarrow> False"
| "f_less (Inf s) (Inf t) \<longleftrightarrow> \<not> s \<and> t"
| "f_less (Inf s) (Fin b) \<longleftrightarrow> \<not> s"
| "f_less (Fin a) (Inf t) \<longleftrightarrow> t"

fun f_eq :: "float64 \<Rightarrow> float64 \<Rightarrow> bool" where
  "f_eq NaN _ \<longleftrightarrow> False"
| "f_eq _ NaN \<longleftrightarrow> False"
| "f_eq a b \<longleftrightarrow> a = b"

definition f_le :: "float64 \<Rightarrow> float64 \<Rightarrow> bool" where
  "f_le a b \<longleftrightarrow> f_less a b \<or> f_eq a b"

definition f_min :: "float64 \<Rightarrow> float64 \<Rightarrow> float64" where
  "f_min a b = (if a = NaN \<or> b = NaN then NaN else if f_less b a then b else a)"

definition f_of_int :: "int \<Rightarrow> float64" where
  "f_of_int n = fl (of_int n)"

definition f_int64 :: "(float64 \<Rightarrow> int) \<Rightarrow> float64 \<Rightarrow> int" where
  "f_int64 oor f =
     (case f of
        Fin q \<Rightarrow> let t = (if 0 \<le> q then \<lfloor>q\<rfloor> else \<lceil>q\<rceil>) in if int64_range t then t else oor f
      | _ \<Rightarrow> oor f)"

text \<open>\<^verbatim>\<open>math.Pow(2, n)\<close> for a natural number: exact, and infinite from 1024 on.\<close>

definition f_pow2 :: "nat \<Rightarrow> float64" where
  "f_pow2 n = (if n < 1024 then Fin (2 ^ n) else Inf True)"

section \<open>Exactness\<close>

lemma floorlog_rat:
  assumes "0 < n"
  shows "2 powi (int (floorlog 2 n) - 1) \<le> (of_nat n :: rat)" and "(of_nat n :: rat) < 2 powi (int (floorlog 2 n))"
proof -
  have b: "2 ^ (floorlog 2 n - 1) \<le> n" "n < 2 ^ floorlog 2 n"
    using floorlog_bounds [of n 2] assms by auto
  have "0 < floorlog 2 n" using assms by (simp add: floorlog_def)
  then have "int (floorlog 2 n) - 1 = int (floorlog 2 n - 1)" by simp
  moreover have "(2::rat) ^ (floorlog 2 n - 1) \<le> of_nat n"
    using b(1) by (metis of_nat_le_iff of_nat_numeral of_nat_power)
  ultimately show "2 powi (int (floorlog 2 n) - 1) \<le> (of_nat n :: rat)"
    by (simp only: power_int_of_nat)
  show "(of_nat n :: rat) < 2 powi (int (floorlog 2 n))"
    unfolding power_int_of_nat using b(2) by (metis of_nat_less_iff of_nat_numeral of_nat_power)
qed

lemma fl_exp_bounds:
  assumes "x \<noteq> 0"
  shows "2 powi (fl_exp x) \<le> \<bar>x\<bar> \<and> \<bar>x\<bar> < 2 powi (fl_exp x + 1)"
proof -
  obtain p q where pq: "quotient_of x = (p, q)" by (metis surj_pair)
  then have q: "0 < q" and x: "x = of_int p / of_int q"
    using quotient_of_denom_pos quotient_of_div by blast+
  with assms have p: "p \<noteq> 0" by auto
  define a b e where "a = floorlog 2 (nat \<bar>p\<bar>)" and "b = floorlog 2 (nat q)" and "e = int a - int b"
  let ?P = "of_nat (nat \<bar>p\<bar>) :: rat" and ?Q = "of_nat (nat q) :: rat"
  have abs: "\<bar>x\<bar> = ?P / ?Q" using q by (simp add: x)
  have bp: "2 powi (int a - 1) \<le> ?P" "?P < 2 powi (int a)" and bq: "2 powi (int b - 1) \<le> ?Q" "?Q < 2 powi (int b)"
    unfolding a_def b_def using floorlog_rat [of "nat \<bar>p\<bar>"] floorlog_rat [of "nat q"] p q by auto
  have Q: "0 < ?Q" using q by simp
  have "2 powi (int a - 1) / 2 powi (int b) < \<bar>x\<bar>"
    unfolding abs using bp(1) bq(2) Q by (intro frac_less2) (simp_all add: less_le_trans)
  moreover have "e - 1 = (int a - 1) - int b" by (simp add: e_def)
  ultimately have lo: "2 powi (e - 1) < \<bar>x\<bar>"
    using power_int_diff [of "2::rat" "int a - 1" "int b"] by (metis zero_neq_numeral)
  have "\<bar>x\<bar> < 2 powi (int a) / 2 powi (int b - 1)"
    unfolding abs using bp(2) bq(1) by (intro frac_less) simp_all
  moreover have "e + 1 = int a - (int b - 1)" by (simp add: e_def)
  ultimately have hi: "\<bar>x\<bar> < 2 powi (e + 1)"
    using power_int_diff [of "2::rat" "int a" "int b - 1"] by (metis zero_neq_numeral)
  have "fl_exp x = (if 2 powi e \<le> \<bar>x\<bar> then e else e - 1)"
    by (simp add: fl_exp_def pq e_def a_def b_def)
  with lo hi show ?thesis by auto
qed

lemma round_even_int: "round_even (of_int n) = n"
  by (simp add: round_even_def)

abbreviation ulp_exp :: "rat \<Rightarrow> int" where
  "ulp_exp x \<equiv> max (fl_exp x - 52) (- 1074)"

definition fl_round :: "rat \<Rightarrow> rat" where
  "fl_round x = of_int (round_even (x / 2 powi (ulp_exp x))) * 2 powi (ulp_exp x)"

text \<open>A number \<open>m \<cdot> 2^e\<close> with a 53-bit significand in the exponent range is kept.\<close>

lemma fl_round_exact:
  assumes "\<bar>m\<bar> < 2 ^ 53" and "- 1074 \<le> e" and "m \<noteq> 0"
  shows "fl_round (of_int m * 2 powi e) = of_int m * 2 powi e"
proof -
  let ?x = "of_int m * 2 powi e :: rat"
  let ?k = "max (fl_exp ?x - 52) (- 1074)"
  have x0: "?x \<noteq> 0" using assms(3) by simp
  have "\<bar>of_int m\<bar> < (2 ^ 53 :: rat)" using assms(1) by (metis of_int_abs of_int_less_iff of_int_numeral of_int_power)
  then have "\<bar>?x\<bar> < 2 ^ 53 * 2 powi e" by (simp add: abs_mult)
  also have "\<dots> = 2 powi (53 + e)" by (simp add: power_int_add)
  finally have "2 powi (fl_exp ?x) < (2 powi (53 + e) :: rat)"
    using fl_exp_bounds [OF x0] by linarith
  then have "fl_exp ?x < 53 + e"
    using power_int_increasing [of "53 + e" "fl_exp ?x" "2 :: rat"] by (cases "fl_exp ?x < 53 + e") auto
  then have k: "?k \<le> e" using assms(2) by simp
  have "?x / 2 powi ?k = of_int m * 2 powi (e - ?k)" by (simp add: power_int_diff)
  also have "\<dots> = of_int (m * 2 ^ nat (e - ?k))"
    using k by (simp add: power_int_def)
  finally have q: "?x / 2 powi ?k = of_int (m * 2 ^ nat (e - ?k))" .
  have "of_int (round_even (?x / 2 powi ?k)) = ?x / 2 powi ?k"
    unfolding q round_even_int ..
  then show ?thesis
    unfolding fl_round_def by (metis nonzero_eq_divide_eq power_int_not_zero zero_neq_numeral)
qed

lemma fl_exact:
  assumes "\<bar>m\<bar> < 2 ^ 53" and "- 1074 \<le> e" and "\<bar>of_int m * 2 powi e\<bar> < (2 ^ 1024 :: rat)"
  shows "fl (of_int m * 2 powi e) = Fin (of_int m * 2 powi e)"
proof (cases "m = 0")
  case False
  then show ?thesis
    using fl_round_exact [OF assms(1,2) False] assms(3)
    unfolding fl_def Let_def fl_round_def by (auto simp: abs_less_iff)
qed (simp add: fl_def)

lemma f_of_int_exact: "\<bar>n\<bar> < 2 ^ 53 \<Longrightarrow> f_of_int n = Fin (of_int n)"
proof -
  assume n: "\<bar>n\<bar> < 2 ^ 53"
  then have "\<bar>of_int n\<bar> < (2 ^ 53 :: rat)" by (metis of_int_abs of_int_less_iff of_int_numeral of_int_power)
  also have "\<dots> < 2 ^ 1024" by (rule power_strict_increasing) simp_all
  finally show ?thesis using fl_exact [OF n, of 0] by (simp add: f_of_int_def)
qed

section \<open>Order\<close>

lemma powi2_pos [simp]: "0 < (2 powi k :: rat)"
  by (simp add: zero_less_power_int)

lemma powi2_le: "a \<le> b \<Longrightarrow> (2 powi a :: rat) \<le> 2 powi b"
  by (simp add: power_int_increasing)

lemma powi2_less_iff: "(2 powi a :: rat) < 2 powi b \<longleftrightarrow> a < b"
  using powi2_le [of b a] power_int_strict_increasing [of a b "2 :: rat"] by (cases "a < b") auto

lemma powi2_split: "b \<le> a \<Longrightarrow> (2 powi a :: rat) = of_int (2 ^ nat (a - b)) * 2 powi b"
proof -
  assume "b \<le> a"
  then have "(2 powi a :: rat) = 2 powi (int (nat (a - b)) + b)" by simp
  also have "\<dots> = 2 powi (int (nat (a - b))) * 2 powi b" by (rule power_int_add) simp
  finally show ?thesis by (simp only: power_int_of_nat of_int_power of_int_numeral)
qed

text \<open>
  The representable numbers are the fixed points of rounding. Rounding never crosses a
  representable number, which gives the bounds the scaler's comments state.
\<close>

definition is_float :: "rat \<Rightarrow> bool" where
  "is_float q \<longleftrightarrow> fl q = Fin q"

lemma fl_exp_unique:
  assumes "2 powi e \<le> \<bar>x\<bar>" and "\<bar>x\<bar> < 2 powi (e + 1)"
  shows "fl_exp x = e"
proof -
  have "x \<noteq> 0" using assms(1) powi2_pos [of e] by (auto simp: not_le [symmetric])
  from fl_exp_bounds [OF this] assms
  have "2 powi (fl_exp x) < (2 powi (e + 1) :: rat)" "2 powi e < (2 powi (fl_exp x + 1) :: rat)" by linarith+
  then have "fl_exp x < e + 1" "e < fl_exp x + 1"
    unfolding powi2_less_iff by simp_all
  then show ?thesis by linarith
qed

lemma round_even_le: "x \<le> of_int n \<Longrightarrow> round_even x \<le> n"
proof -
  assume x: "x \<le> of_int n"
  then have "\<lfloor>x\<rfloor> \<le> n" by (metis floor_mono floor_of_int)
  moreover have "x = of_int n" if "\<lfloor>x\<rfloor> = n" using that x by linarith
  ultimately show ?thesis by (cases "\<lfloor>x\<rfloor> = n") (auto simp: round_even_def Let_def)
qed

lemma round_even_ge: "of_int n \<le> x \<Longrightarrow> n \<le> round_even x"
proof -
  assume "of_int n \<le> x"
  then have "n \<le> \<lfloor>x\<rfloor>" by (simp add: le_floor_iff)
  then show ?thesis by (auto simp: round_even_def Let_def)
qed

lemma round_even_error: "\<bar>of_int (round_even x) - x\<bar> \<le> 1 / 2"
proof -
  have "of_int \<lfloor>x\<rfloor> \<le> x" "x < of_int \<lfloor>x\<rfloor> + 1" by linarith+
  then show ?thesis by (auto simp: round_even_def Let_def)
qed

lemma is_float_decomp:
  assumes "is_float q" and "q \<noteq> 0"
  shows "q = of_int (round_even (q / 2 powi (ulp_exp q))) * 2 powi (ulp_exp q)" and "\<bar>q\<bar> < 2 ^ 1024"
  using assms by (auto simp: is_float_def fl_def Let_def split: if_splits)

text \<open>A representable number at or above the binade of \<open>x\<close> is a multiple of the unit of \<open>x\<close>.\<close>

lemma multiple_of_unit:
  assumes "is_float y" and "0 < x" and "2 powi (fl_exp x) \<le> y"
  shows "\<exists>n. y = of_int n * 2 powi (ulp_exp x)"
proof -
  have y: "0 < y" using assms(3) powi2_pos less_le_trans by blast
  have "2 powi (fl_exp x) < (2 powi (fl_exp y + 1) :: rat)"
    using fl_exp_bounds [of y] y assms(3) by simp
  then have le: "ulp_exp x \<le> ulp_exp y" unfolding powi2_less_iff by linarith
  let ?d = "nat (ulp_exp y - ulp_exp x)" and ?m = "round_even (y / 2 powi (ulp_exp y))"
  have "(2 powi (ulp_exp y) :: rat) = of_int (2 ^ ?d) * 2 powi (ulp_exp x)" by (rule powi2_split [OF le])
  moreover have "y = of_int ?m * 2 powi (ulp_exp y)" by (rule is_float_decomp(1)) (use assms(1) y in auto)
  ultimately have "y = of_int ?m * (of_int (2 ^ ?d) * 2 powi (ulp_exp x))" by (simp only:)
  also have "\<dots> = of_int (?m * 2 ^ ?d) * 2 powi (ulp_exp x)" by (simp only: mult.assoc of_int_mult)
  finally have "y = of_int (?m * 2 ^ ?d) * 2 powi (ulp_exp x)" .
  then show ?thesis by blast
qed

lemma power_1024: "(2 ^ 1024 :: rat) = 2 powi 1024"
  by (metis of_nat_numeral power_int_of_nat)

lemma fl_round: "0 < x \<Longrightarrow> fl x = (if 2 ^ 1024 \<le> fl_round x then Inf True else Fin (fl_round x))"
proof -
  assume x: "0 < x"
  have "0 \<le> round_even (x / 2 powi (ulp_exp x))" using x by (intro round_even_ge) simp
  then have "0 \<le> fl_round x" unfolding fl_round_def by simp
  moreover have "\<not> r \<le> - (2 ^ 1024)" if "0 \<le> r" for r :: rat
  proof -
    have "- (2 ^ 1024) < (0 :: rat)" by (simp only: neg_less_0_iff_less zero_less_power zero_less_numeral)
    then show ?thesis using that by (metis less_le_trans not_le)
  qed
  ultimately show ?thesis using x by (simp add: fl_def Let_def fl_round_def)
qed

lemma fl_round_le:
  assumes "0 < x" and "x \<le> y" and "is_float y"
  shows "fl_round x \<le> y"
proof -
  have "2 powi (fl_exp x) \<le> y" using fl_exp_bounds [of x] assms by auto
  then obtain n where n: "y = of_int n * 2 powi (ulp_exp x)" using multiple_of_unit assms by blast
  then have "x / 2 powi (ulp_exp x) \<le> of_int n" using assms(2) by (simp add: pos_divide_le_eq)
  then have "round_even (x / 2 powi (ulp_exp x)) \<le> n" by (rule round_even_le)
  then show ?thesis unfolding fl_round_def n by (intro mult_right_mono) simp_all
qed

lemma fl_round_ge:
  assumes "0 < x" and "y \<le> x" and "is_float y"
  shows "y \<le> fl_round x"
proof -
  have "\<exists>n z. z = of_int n * 2 powi (ulp_exp x) \<and> y \<le> z \<and> z \<le> x"
  proof (cases "2 powi (fl_exp x) \<le> y")
    case True
    then show ?thesis using multiple_of_unit [OF assms(3,1)] assms(2) by blast
  next
    case False
    show ?thesis
    proof (cases "ulp_exp x \<le> fl_exp x")
      case True
      from powi2_split [OF True] show ?thesis using False fl_exp_bounds [of x] assms(1) by (metis abs_of_pos less_imp_le not_le less_irrefl)
    next
      case e: False
      have "y \<le> 0"
      proof (rule ccontr)
        assume "\<not> y \<le> 0"
        then have y: "0 < y" by simp
        let ?m = "round_even (y / 2 powi (ulp_exp y))"
        have d: "y = of_int ?m * 2 powi (ulp_exp y)" using is_float_decomp(1) [OF assms(3)] y by simp
        then have "0 < ?m" using y by (metis of_int_0_less_iff powi2_pos zero_less_mult_pos2)
        then have "1 \<le> (of_int ?m :: rat)" by linarith
        then have "1 * 2 powi (ulp_exp y) \<le> (of_int ?m :: rat) * 2 powi (ulp_exp y)"
          by (intro mult_right_mono) simp_all
        then have "2 powi (ulp_exp y) \<le> y" using d by simp
        moreover have "(2 powi (fl_exp x) :: rat) \<le> 2 powi (ulp_exp y)" using e by (intro powi2_le) linarith
        ultimately show False using False by simp
      qed
      then show ?thesis using assms(1) by (intro exI [of _ 0]) auto
    qed
  qed
  then obtain n z where n: "z = of_int n * 2 powi (ulp_exp x)" "y \<le> z" "z \<le> x" by blast
  then have "of_int n \<le> x / 2 powi (ulp_exp x)" by (simp add: pos_le_divide_eq)
  then have "n \<le> round_even (x / 2 powi (ulp_exp x))" by (rule round_even_ge)
  then have "z \<le> fl_round x" unfolding fl_round_def n(1) by (intro mult_right_mono) simp_all
  then show ?thesis using n(2) by simp
qed

lemma fl_0 [simp]: "fl 0 = Fin 0"
  by (simp add: fl_def)

lemma is_float_0 [simp]: "is_float 0"
  by (simp add: is_float_def)

lemma is_float_bound: "is_float y \<Longrightarrow> y < 2 ^ 1024"
  using is_float_decomp(2) [of y] by (cases "y = 0") (auto simp: abs_less_iff)

lemma fl_between:
  assumes "0 \<le> x" and "x \<le> y" and "is_float y" and "z \<le> x" and "is_float z"
  shows "\<exists>r. fl x = Fin r \<and> z \<le> r \<and> r \<le> y"
proof (cases "x = 0")
  case False
  then have x: "0 < x" using assms(1) by simp
  have "fl_round x \<le> y" "z \<le> fl_round x" using fl_round_le fl_round_ge x assms by auto
  then show ?thesis using fl_round [OF x] is_float_bound [OF assms(3)] by auto
qed (use assms in auto)

lemma is_float_exact:
  "\<bar>m\<bar> < 2 ^ 53 \<Longrightarrow> - 1074 \<le> e \<Longrightarrow> \<bar>of_int m * 2 powi e\<bar> < (2 ^ 1024 :: rat) \<Longrightarrow> is_float (of_int m * 2 powi e)"
  by (simp add: is_float_def fl_exact)

lemma is_float_of_int: "\<bar>n\<bar> < 2 ^ 53 \<Longrightarrow> is_float (of_int n)"
  using f_of_int_exact by (simp add: is_float_def f_of_int_def)

lemma is_float_1 [simp]: "is_float 1"
  using is_float_of_int [of 1] by simp

end
