(* ===== verification/Idle_Spec.thy ===== *)
theory Idle_Spec
  imports Go_Prelude
begin

text \<open>
  The contract of \<^verbatim>\<open>idle.IdleContainer\<close> (\<^verbatim>\<open>internal/idle/idle.go\<close>) as
  locales: what \<^verbatim>\<open>Add\<close>, \<^verbatim>\<open>Pop\<close>, \<^verbatim>\<open>RemoveExpired\<close> and \<^verbatim>\<open>Len\<close>
  promise to the pool. \<open>idle_container\<close> is the interface every implementation has,
  over the multiset of its elements; \<open>fifo_container\<close> adds the insertion order that
  the slice, the linked list and the ring queue keep; \<open>oldest_container\<close> adds that
  the heap and the treap pop an element with the least timestamp.
\<close>

section \<open>The container selector\<close>

datatype IdleContainerType = LinkedListType | MinHeapType | SliceType | RingQueueType | TreapType

section \<open>Expiry\<close>

text \<open>
  The interface's comment: an element is expired when \<^verbatim>\<open>DatedTime + expiry <= now\<close>.
\<close>

definition expired :: "('a \<Rightarrow> time) \<Rightarrow> time \<Rightarrow> duration \<Rightarrow> 'a \<Rightarrow> bool" where
  "expired DatedTime now expiry w \<longleftrightarrow> DatedTime w + expiry \<le> now"

lemma expired_After [go_time]:
  "\<not> After (time_Add (DatedTime w) expiry) now \<longleftrightarrow> expired DatedTime now expiry w"
  by (auto simp: go_time expired_def)

lemma After_cutoff:
  "MinInt64 < expiry \<Longrightarrow>
   After (DatedTime w) (time_Add now (neg_duration expiry)) \<longleftrightarrow> \<not> expired DatedTime now expiry w"
  by (auto simp: go_time expired_def)

section \<open>Histories of calls\<close>

text \<open>
  A client's calls on one container, and what each call returns. \<open>idle_run\<close> runs a
  history; \<open>None\<close> is a panic or a call that does not return.
\<close>

datatype 'a idle_op = DoAdd 'a | DoPop | DoRemoveExpired time duration | DoLen

datatype 'a idle_out = OutUnit | OutElem "'a option" | OutCount int

fun idle_call ::
  "('a \<Rightarrow> 'c \<Rightarrow> 'c option) \<Rightarrow> ('c \<Rightarrow> ('a option \<times> 'c) option) \<Rightarrow>
   (time \<Rightarrow> duration \<Rightarrow> 'c \<Rightarrow> (int \<times> 'c) option) \<Rightarrow> ('c \<Rightarrow> int) \<Rightarrow>
   'c \<Rightarrow> 'a idle_op \<Rightarrow> ('a idle_out \<times> 'c) option"
where
  "idle_call add pop rem len c (DoAdd w) = map_option (\<lambda>c'. (OutUnit, c')) (add w c)"
| "idle_call add pop rem len c DoPop = map_option (\<lambda>(r, c'). (OutElem r, c')) (pop c)"
| "idle_call add pop rem len c (DoRemoveExpired now e) =
     map_option (\<lambda>(n, c'). (OutCount n, c')) (rem now e c)"
| "idle_call add pop rem len c DoLen = Some (OutCount (len c), c)"

fun idle_run ::
  "('a \<Rightarrow> 'c \<Rightarrow> 'c option) \<Rightarrow> ('c \<Rightarrow> ('a option \<times> 'c) option) \<Rightarrow>
   (time \<Rightarrow> duration \<Rightarrow> 'c \<Rightarrow> (int \<times> 'c) option) \<Rightarrow> ('c \<Rightarrow> int) \<Rightarrow>
   'c \<Rightarrow> 'a idle_op list \<Rightarrow> ('a idle_out list \<times> 'c) option"
where
  "idle_run add pop rem len c [] = Some ([], c)"
| "idle_run add pop rem len c (x # xs) =
     (case idle_call add pop rem len c x of
        None \<Rightarrow> None
      | Some (r, c') \<Rightarrow>
          (case idle_run add pop rem len c' xs of
             None \<Rightarrow> None
           | Some (rs, c'') \<Rightarrow> Some (r # rs, c'')))"

text \<open>\<open>n\<close> consecutive calls of \<^verbatim>\<open>Pop\<close>; the elements returned, in order.\<close>

fun pop_all :: "('c \<Rightarrow> ('a option \<times> 'c) option) \<Rightarrow> nat \<Rightarrow> 'c \<Rightarrow> ('a list \<times> 'c) option" where
  "pop_all pop 0 c = Some ([], c)"
| "pop_all pop (Suc n) c =
     (case pop c of
        None \<Rightarrow> None
      | Some (None, c') \<Rightarrow> pop_all pop n c'
      | Some (Some w, c') \<Rightarrow>
          (case pop_all pop n c' of None \<Rightarrow> None | Some (ws, c'') \<Rightarrow> Some (w # ws, c'')))"

text \<open>The expiry arguments of a history are \<^verbatim>\<open>int64\<close> values above the least one.\<close>

fun op_ok :: "'a idle_op \<Rightarrow> bool" where
  "op_ok (DoRemoveExpired now e) \<longleftrightarrow> MinInt64 < e"
| "op_ok _ \<longleftrightarrow> True"

text \<open>The abstract queue the FIFO containers implement: a plain list.\<close>

definition fifo_add :: "'a \<Rightarrow> 'a list \<Rightarrow> 'a list option" where
  "fifo_add w xs = Some (xs @ [w])"

definition fifo_pop :: "'a list \<Rightarrow> ('a option \<times> 'a list) option" where
  "fifo_pop xs = (case xs of [] \<Rightarrow> Some (None, []) | x # xs' \<Rightarrow> Some (Some x, xs'))"

definition fifo_remove ::
  "('a \<Rightarrow> time) \<Rightarrow> time \<Rightarrow> duration \<Rightarrow> 'a list \<Rightarrow> (int \<times> 'a list) option" where
  "fifo_remove dt now e xs =
     Some (int (length (filter (expired dt now e) xs)), filter (\<lambda>w. \<not> expired dt now e w) xs)"

definition fifo_len :: "'a list \<Rightarrow> int" where
  "fifo_len xs = int (length xs)"

lemmas fifo_defs = fifo_add_def fifo_pop_def fifo_remove_def fifo_len_def

section \<open>The interface\<close>

locale idle_container =
  fixes empty :: "'c"
    and add :: "'a \<Rightarrow> 'c \<Rightarrow> 'c option"
    and pop :: "'c \<Rightarrow> ('a option \<times> 'c) option"
    and rem :: "time \<Rightarrow> duration \<Rightarrow> 'c \<Rightarrow> (int \<times> 'c) option"
    and len :: "'c \<Rightarrow> int"
    and dated :: "'a \<Rightarrow> time"
    and invar :: "'c \<Rightarrow> bool"
    and elems :: "'c \<Rightarrow> 'a multiset"
  assumes empty_ok: "invar empty \<and> elems empty = {#}"
    and add_ok: "invar c \<Longrightarrow> \<exists>c'. add w c = Some c' \<and> invar c' \<and> elems c' = add_mset w (elems c)"
    and pop_none: "invar c \<Longrightarrow> elems c = {#} \<Longrightarrow> pop c = Some (None, c)"
    and pop_some: "invar c \<Longrightarrow> elems c \<noteq> {#} \<Longrightarrow>
      \<exists>w c'. pop c = Some (Some w, c') \<and> invar c' \<and> elems c = add_mset w (elems c')"
    and rem_ok: "invar c \<Longrightarrow> MinInt64 < e \<Longrightarrow>
      \<exists>c'. rem now e c = Some (int (size (filter_mset (expired dated now e) (elems c))), c')
         \<and> invar c' \<and> elems c' = filter_mset (\<lambda>w. \<not> expired dated now e w) (elems c)"
    and len_ok: "invar c \<Longrightarrow> len c = int (size (elems c))"
begin

lemma call_ok:
  assumes "invar c" and "op_ok x"
  shows "\<exists>r c'. idle_call add pop rem len c x = Some (r, c') \<and> invar c'"
proof (cases x)
  case (DoAdd w)
  with add_ok [OF assms(1), of w] show ?thesis by auto
next
  case DoPop
  with pop_none [OF assms(1)] pop_some [OF assms(1)] assms(1) show ?thesis
    by (cases "elems c = {#}") auto
next
  case (DoRemoveExpired now e)
  with rem_ok [OF assms(1), of e now] assms(2) show ?thesis by auto
next
  case DoLen
  with assms(1) show ?thesis by simp
qed

text \<open>No history of calls panics or hangs.\<close>

lemma run_ok:
  assumes "invar c" and "list_all op_ok xs"
  shows "\<exists>rs c'. idle_run add pop rem len c xs = Some (rs, c') \<and> invar c' \<and> length rs = length xs"
  using assms
proof (induction xs arbitrary: c)
  case Nil
  then show ?case by simp
next
  case (Cons x xs)
  from Cons.prems obtain r c1 where
    call: "idle_call add pop rem len c x = Some (r, c1)" and inv: "invar c1"
    using call_ok by fastforce
  from Cons.IH [OF inv] Cons.prems(2) obtain rs c2 where
    "idle_run add pop rem len c1 xs = Some (rs, c2)" "invar c2" "length rs = length xs"
    by auto
  with call show ?case by simp
qed

text \<open>Popping as often as there are elements returns each of them exactly once.\<close>

lemma drain_ok:
  assumes "invar c" and "size (elems c) = n"
  shows "\<exists>ws c'. pop_all pop n c = Some (ws, c') \<and> invar c' \<and> elems c' = {#} \<and> mset ws = elems c"
  using assms
proof (induction n arbitrary: c)
  case 0
  then show ?case by simp
next
  case (Suc n)
  from Suc.prems(2) have "elems c \<noteq> {#}" by auto
  with pop_some Suc.prems(1) obtain w c1 where
    p: "pop c = Some (Some w, c1)" and inv: "invar c1" and el: "elems c = add_mset w (elems c1)"
    by blast
  with Suc.prems(2) have "size (elems c1) = n" by simp
  from Suc.IH [OF inv this] obtain ws c2 where
    "pop_all pop n c1 = Some (ws, c2)" "invar c2" "elems c2 = {#}" "mset ws = elems c1"
    by blast
  with p el show ?case by simp
qed

lemma drain_elems:
  assumes "invar c" and "pop_all pop n c = Some (ws, c')" and "size (elems c) = n"
  shows "mset ws = elems c"
  using drain_ok [OF assms(1,3)] assms(2) by auto

end

text \<open>
  The containers that keep insertion order: the elements are a list, and each operation
  is the operation of the abstract queue on it.
\<close>

locale fifo_container =
  fixes empty :: "'c"
    and add :: "'a \<Rightarrow> 'c \<Rightarrow> 'c option"
    and pop :: "'c \<Rightarrow> ('a option \<times> 'c) option"
    and rem :: "time \<Rightarrow> duration \<Rightarrow> 'c \<Rightarrow> (int \<times> 'c) option"
    and len :: "'c \<Rightarrow> int"
    and dated :: "'a \<Rightarrow> time"
    and invar :: "'c \<Rightarrow> bool"
    and contents :: "'c \<Rightarrow> 'a list"
  assumes fifo_empty: "invar empty \<and> contents empty = []"
    and fifo_add: "invar c \<Longrightarrow> \<exists>c'. add w c = Some c' \<and> invar c' \<and> contents c' = contents c @ [w]"
    and fifo_pop_none: "invar c \<Longrightarrow> contents c = [] \<Longrightarrow> pop c = Some (None, c)"
    and fifo_pop_some: "invar c \<Longrightarrow> contents c = w # ws \<Longrightarrow>
      \<exists>c'. pop c = Some (Some w, c') \<and> invar c' \<and> contents c' = ws"
    and fifo_rem: "invar c \<Longrightarrow> MinInt64 < e \<Longrightarrow>
      \<exists>c'. rem now e c = Some (int (length (filter (expired dated now e) (contents c))), c')
         \<and> invar c' \<and> contents c' = filter (\<lambda>w. \<not> expired dated now e w) (contents c)"
    and fifo_len: "invar c \<Longrightarrow> len c = int (length (contents c))"

sublocale fifo_container \<subseteq> idle_container empty add pop rem len dated invar "\<lambda>c. mset (contents c)"
proof unfold_locales
  fix c :: 'c
  assume "invar c" and "mset (contents c) \<noteq> {#}"
  then show "\<exists>w c'. pop c = Some (Some w, c') \<and> invar c' \<and>
      mset (contents c) = add_mset w (mset (contents c'))"
    by (cases "contents c") (use fifo_pop_some in fastforce)+
qed (use fifo_empty fifo_add fifo_pop_none fifo_rem fifo_len in
      \<open>fastforce simp flip: mset_filter size_mset\<close>)+

context fifo_container
begin

lemma call_refines:
  assumes "invar c" and "op_ok x"
  shows "\<exists>r c'. idle_call add pop rem len c x = Some (r, c') \<and> invar c'
    \<and> idle_call fifo_add fifo_pop (fifo_remove dated) fifo_len (contents c) x = Some (r, contents c')"
proof (cases x)
  case (DoAdd w)
  with fifo_add [OF assms(1), of w] show ?thesis by (auto simp: fifo_defs)
next
  case DoPop
  with fifo_pop_none [OF assms(1)] fifo_pop_some [OF assms(1)] assms(1) show ?thesis
    by (cases "contents c") (fastforce simp: fifo_defs)+
next
  case (DoRemoveExpired now e)
  with fifo_rem [OF assms(1), of e now] assms(2) show ?thesis by (auto simp: fifo_defs)
next
  case DoLen
  with assms(1) fifo_len show ?thesis by (simp add: fifo_defs)
qed

text \<open>Every history returns what the abstract queue returns.\<close>

lemma run_refines:
  assumes "invar c" and "list_all op_ok xs"
  shows "\<exists>rs c'. idle_run add pop rem len c xs = Some (rs, c') \<and> invar c'
    \<and> idle_run fifo_add fifo_pop (fifo_remove dated) fifo_len (contents c) xs = Some (rs, contents c')"
  using assms
proof (induction xs arbitrary: c)
  case Nil
  then show ?case by simp
next
  case (Cons x xs)
  from Cons.prems obtain r c1 where
    call: "idle_call add pop rem len c x = Some (r, c1)" and inv: "invar c1" and
    spec: "idle_call fifo_add fifo_pop (fifo_remove dated) fifo_len (contents c) x = Some (r, contents c1)"
    using call_refines by fastforce
  from Cons.IH [OF inv] Cons.prems(2) call spec show ?case by fastforce
qed

end

text \<open>The containers ordered by timestamp: \<^verbatim>\<open>Pop\<close> returns an element that is oldest.\<close>

locale oldest_container = idle_container +
  assumes pop_oldest: "invar c \<Longrightarrow> pop c = Some (Some w, c') \<Longrightarrow> v \<in># elems c \<Longrightarrow> dated w \<le> dated v"
begin

text \<open>Popping everything returns the elements from the oldest to the youngest.\<close>

lemma drain_sorted:
  assumes "invar c" and "pop_all pop n c = Some (ws, c')" and "size (elems c) = n"
  shows "sorted (map dated ws)"
  using assms
proof (induction n arbitrary: c ws)
  case 0
  then show ?case by simp
next
  case (Suc n)
  from Suc.prems(3) have "elems c \<noteq> {#}" by auto
  with pop_some Suc.prems(1) obtain w c1 where
    p: "pop c = Some (Some w, c1)" and inv: "invar c1" and el: "elems c = add_mset w (elems c1)"
    by blast
  from p Suc.prems(2) obtain vs where vs: "pop_all pop n c1 = Some (vs, c')" and ws: "ws = w # vs"
    by (auto split: option.splits)
  from el Suc.prems(3) have sz: "size (elems c1) = n" by simp
  from drain_elems [OF inv vs sz] have "set vs = set_mset (elems c1)" by (metis set_mset_mset)
  with pop_oldest [OF Suc.prems(1) p] el have "\<forall>v \<in> set vs. dated w \<le> dated v" by auto
  with Suc.IH [OF inv vs sz] ws show ?case by simp
qed

end

end
