(* ===== verification/Config.thy ===== *)
theory Config
  imports Go_Float Idle_Spec
begin

text \<open>
  \<^verbatim>\<open>config.go\<close> and the default constants of \<^verbatim>\<open>pool.go\<close>: the configuration
  record, its options and \<^verbatim>\<open>NewConfig\<close>. A \<^verbatim>\<open>ConfigOption\<close> is a function on
  configurations. The type \<open>'h\<close> stands for panic handlers. Each field of a
  configuration is the last acceptable argument given for it, or its default; so the periods
  of the tickers, the queue size, the capacity and the window are positive and the decay
  factor lies in the unit interval. The options leave the shard count unrestricted and the
  queue size unbounded; what \<^verbatim>\<open>NewPool\<close> makes of them is the subject of \<open>Shards\<close> and \<open>Pool\<close>.
\<close>

section \<open>Constants\<close>

datatype WorkMode = BLOCK | NONBLOCK

datatype LockType = MutexLock | SpinLock

definition defaultCleanPeriod :: duration where
  "defaultCleanPeriod = 500 * Millisecond"

definition defaultTaskQueueSize :: int where
  "defaultTaskQueueSize = 10000"

definition defaultMaxWorkerNumCapacity :: int where
  "defaultMaxWorkerNumCapacity = MaxInt64"

definition defaultWorkMode :: WorkMode where
  "defaultWorkMode = BLOCK"

definition defaultIdleContainerType :: IdleContainerType where
  "defaultIdleContainerType = LinkedListType"

definition defaultStatsSamplePeriod :: duration where
  "defaultStatsSamplePeriod = 100 * Millisecond"

definition defaultStatsWindowSize :: int where
  "defaultStatsWindowSize = 10"

definition defaultScalerPeriod :: duration where
  "defaultScalerPeriod = 10 * Millisecond"

definition defaultBacklogDecayFactor :: float64 where
  "defaultBacklogDecayFactor = fl (3 / 10)"

definition defaultZeroConsumeScaleInterval :: duration where
  "defaultZeroConsumeScaleInterval = 100 * Millisecond"

definition defaultMaxZeroConsumeScaleStep :: int where
  "defaultMaxZeroConsumeScaleStep = 64"

lemmas config_consts = defaultCleanPeriod_def defaultTaskQueueSize_def defaultMaxWorkerNumCapacity_def
  defaultWorkMode_def defaultIdleContainerType_def defaultStatsSamplePeriod_def defaultStatsWindowSize_def
  defaultScalerPeriod_def defaultZeroConsumeScaleInterval_def defaultMaxZeroConsumeScaleStep_def

section \<open>The configuration and its options\<close>

record 'h Config =
  cleanPeriod :: duration
  taskQueueSize :: int
  taskQueueShards :: int
  workerNumCapacity :: int
  workMode :: WorkMode
  idleContainerType :: IdleContainerType
  lockType :: LockType
  statsSamplePeriod :: duration
  statsWindowSize :: int
  scalerPeriod :: duration
  backlogDecayFactor :: float64
  zeroConsumeScaleInterval :: duration
  maxZeroConsumeScaleStep :: int
  panicHandler :: "'h option"

type_synonym 'h ConfigOption = "'h Config \<Rightarrow> 'h Config"

definition NewConfig :: "'h ConfigOption list \<Rightarrow> 'h Config" where
  "NewConfig opts =
     fold (\<lambda>opt c. opt c) opts
       \<lparr>cleanPeriod = defaultCleanPeriod, taskQueueSize = defaultTaskQueueSize, taskQueueShards = 0,
        workerNumCapacity = defaultMaxWorkerNumCapacity, workMode = defaultWorkMode,
        idleContainerType = defaultIdleContainerType, lockType = MutexLock,
        statsSamplePeriod = defaultStatsSamplePeriod, statsWindowSize = defaultStatsWindowSize,
        scalerPeriod = defaultScalerPeriod, backlogDecayFactor = defaultBacklogDecayFactor,
        zeroConsumeScaleInterval = defaultZeroConsumeScaleInterval,
        maxZeroConsumeScaleStep = defaultMaxZeroConsumeScaleStep, panicHandler = None\<rparr>"

definition WithCleanPeriod :: "duration \<Rightarrow> 'h ConfigOption" where
  "WithCleanPeriod d c = (if 0 < d then c\<lparr>cleanPeriod := d\<rparr> else c)"

definition WithTaskQueueSize :: "int \<Rightarrow> 'h ConfigOption" where
  "WithTaskQueueSize n c = (if 0 < n then c\<lparr>taskQueueSize := n\<rparr> else c)"

definition WithTaskQueueShards :: "int \<Rightarrow> 'h ConfigOption" where
  "WithTaskQueueShards n c = c\<lparr>taskQueueShards := n\<rparr>"

definition WithWorkerNumCapacity :: "int \<Rightarrow> 'h ConfigOption" where
  "WithWorkerNumCapacity n c = (if 0 < n then c\<lparr>workerNumCapacity := n\<rparr> else c)"

definition WithBlockMode :: "WorkMode \<Rightarrow> 'h ConfigOption" where
  "WithBlockMode m c = c\<lparr>workMode := m\<rparr>"

definition WithIdleContainerType :: "IdleContainerType \<Rightarrow> 'h ConfigOption" where
  "WithIdleContainerType t c = c\<lparr>idleContainerType := t\<rparr>"

definition WithStatsSamplePeriod :: "duration \<Rightarrow> 'h ConfigOption" where
  "WithStatsSamplePeriod d c = (if 0 < d then c\<lparr>statsSamplePeriod := d\<rparr> else c)"

definition WithStatsWindowSize :: "int \<Rightarrow> 'h ConfigOption" where
  "WithStatsWindowSize n c = (if 0 < n then c\<lparr>statsWindowSize := n\<rparr> else c)"

definition WithScalerPeriod :: "duration \<Rightarrow> 'h ConfigOption" where
  "WithScalerPeriod d c = (if 0 < d then c\<lparr>scalerPeriod := d\<rparr> else c)"

definition WithLockType :: "LockType \<Rightarrow> 'h ConfigOption" where
  "WithLockType t c = c\<lparr>lockType := t\<rparr>"

definition WithBacklogDecayFactor :: "float64 \<Rightarrow> 'h ConfigOption" where
  "WithBacklogDecayFactor f c =
     (if f_le (Fin 0) f \<and> f_le f (Fin 1) then c\<lparr>backlogDecayFactor := f\<rparr> else c)"

definition WithZeroConsumeScaleInterval :: "duration \<Rightarrow> 'h ConfigOption" where
  "WithZeroConsumeScaleInterval d c = (if 0 < d then c\<lparr>zeroConsumeScaleInterval := d\<rparr> else c)"

definition WithMaxZeroConsumeScaleStep :: "int \<Rightarrow> 'h ConfigOption" where
  "WithMaxZeroConsumeScaleStep n c = (if 0 < n then c\<lparr>maxZeroConsumeScaleStep := n\<rparr> else c)"

definition WithPanicHandler :: "'h option \<Rightarrow> 'h ConfigOption" where
  "WithPanicHandler h c = c\<lparr>panicHandler := h\<rparr>"

lemmas config_options = WithCleanPeriod_def WithTaskQueueSize_def WithTaskQueueShards_def
  WithWorkerNumCapacity_def WithBlockMode_def WithIdleContainerType_def WithStatsSamplePeriod_def
  WithStatsWindowSize_def WithScalerPeriod_def WithLockType_def WithBacklogDecayFactor_def
  WithZeroConsumeScaleInterval_def WithMaxZeroConsumeScaleStep_def WithPanicHandler_def

text \<open>The options a client can build; \<^verbatim>\<open>int64\<close> and \<^verbatim>\<open>int\<close> arguments are in range.\<close>

inductive config_option :: "'h ConfigOption \<Rightarrow> bool" where
  "int64_range d \<Longrightarrow> config_option (WithCleanPeriod d)"
| "int64_range n \<Longrightarrow> config_option (WithTaskQueueSize n)"
| "int64_range n \<Longrightarrow> config_option (WithTaskQueueShards n)"
| "int64_range n \<Longrightarrow> config_option (WithWorkerNumCapacity n)"
| "config_option (WithBlockMode m)"
| "config_option (WithIdleContainerType t)"
| "int64_range d \<Longrightarrow> config_option (WithStatsSamplePeriod d)"
| "int64_range n \<Longrightarrow> config_option (WithStatsWindowSize n)"
| "int64_range d \<Longrightarrow> config_option (WithScalerPeriod d)"
| "config_option (WithLockType l)"
| "config_option (WithBacklogDecayFactor f)"
| "int64_range d \<Longrightarrow> config_option (WithZeroConsumeScaleInterval d)"
| "int64_range n \<Longrightarrow> config_option (WithMaxZeroConsumeScaleStep n)"
| "config_option (WithPanicHandler h)"

section \<open>Validity\<close>

definition pos64 :: "int \<Rightarrow> bool" where
  "pos64 x \<longleftrightarrow> 0 < x \<and> x \<le> MaxInt64"

fun unit_float :: "float64 \<Rightarrow> bool" where
  "unit_float (Fin q) \<longleftrightarrow> 0 \<le> q \<and> q \<le> 1"
| "unit_float _ \<longleftrightarrow> False"

definition config_valid :: "'h Config \<Rightarrow> bool" where
  "config_valid c \<longleftrightarrow>
     pos64 (cleanPeriod c) \<and> pos64 (taskQueueSize c) \<and> int64_range (taskQueueShards c) \<and>
     pos64 (workerNumCapacity c) \<and> pos64 (statsSamplePeriod c) \<and> pos64 (statsWindowSize c) \<and>
     pos64 (scalerPeriod c) \<and> unit_float (backlogDecayFactor c) \<and>
     pos64 (zeroConsumeScaleInterval c) \<and> pos64 (maxZeroConsumeScaleStep c)"

lemma pos64_int64_range: "int64_range x \<Longrightarrow> 0 < x \<Longrightarrow> pos64 x"
  by (simp add: pos64_def int64_range_def)

lemma unit_float_iff: "f_le (Fin 0) f \<and> f_le f (Fin 1) \<longleftrightarrow> unit_float f"
  by (cases f) (auto simp: f_le_def)

lemma config_option_valid:
  assumes "config_option opt" and "config_valid c"
  shows "config_valid (opt c)"
  using assms
  by (cases rule: config_option.cases)
    (simp_all add: config_options config_valid_def pos64_int64_range unit_float_iff)

lemma defaultBacklogDecayFactor_eq:
  "defaultBacklogDecayFactor = Fin (5404319552844595 / 18014398509481984)"
proof -
  have "fl_exp (3 / 10) = - 2" by (rule fl_exp_unique) (simp_all add: power_int_def power_divide)
  moreover have "\<lfloor>27021597764222976 / 5 :: rat\<rfloor> = 5404319552844595" by (simp add: floor_eq_iff)
  ultimately show ?thesis
    by (simp add: defaultBacklogDecayFactor_def fl_def Let_def power_int_def power_divide round_even_def)
qed

lemma defaultBacklogDecayFactor_unit: "unit_float defaultBacklogDecayFactor"
  by (simp add: defaultBacklogDecayFactor_eq)

lemma NewConfig_valid:
  assumes "\<forall>opt\<in>set opts. config_option opt"
  shows "config_valid (NewConfig opts)"
proof -
  have "config_valid (fold (\<lambda>opt c. opt c) opts c)" if "config_valid c" for c :: "'a Config"
    using that assms by (induction opts arbitrary: c) (simp_all add: config_option_valid)
  then show ?thesis
    unfolding NewConfig_def
    by (simp add: config_valid_def config_consts pos64_def int64_range_def defaultBacklogDecayFactor_unit)
qed

text \<open>Options are applied in order.\<close>

lemma NewConfig_snoc: "NewConfig (opts @ [opt]) = opt (NewConfig opts)"
  by (simp add: NewConfig_def)

section \<open>What a sequence of options amounts to\<close>

text \<open>The calls of the option functions as data.\<close>

datatype 'h option_call =
    CleanPeriod duration | TaskQueueSize int | TaskQueueShards int | WorkerNumCapacity int | BlockMode WorkMode
  | ContainerType IdleContainerType | SamplePeriod duration | WindowSize int | ScalerPeriod duration | LockChoice LockType
  | DecayFactor float64 | ZeroConsumeInterval duration | ZeroConsumeStep int | Handler "'h option"

fun With :: "'h option_call \<Rightarrow> 'h ConfigOption" where
  "With (CleanPeriod d) = WithCleanPeriod d"
| "With (TaskQueueSize n) = WithTaskQueueSize n"
| "With (TaskQueueShards n) = WithTaskQueueShards n"
| "With (WorkerNumCapacity n) = WithWorkerNumCapacity n"
| "With (BlockMode m) = WithBlockMode m"
| "With (ContainerType t) = WithIdleContainerType t"
| "With (SamplePeriod d) = WithStatsSamplePeriod d"
| "With (WindowSize n) = WithStatsWindowSize n"
| "With (ScalerPeriod d) = WithScalerPeriod d"
| "With (LockChoice t) = WithLockType t"
| "With (DecayFactor f) = WithBacklogDecayFactor f"
| "With (ZeroConsumeInterval d) = WithZeroConsumeScaleInterval d"
| "With (ZeroConsumeStep n) = WithMaxZeroConsumeScaleStep n"
| "With (Handler h) = WithPanicHandler h"

text \<open>The last of the acceptable arguments, or the default.\<close>

definition last_of :: "'a \<Rightarrow> 'a list \<Rightarrow> 'a" where
  "last_of d xs = (if xs = [] then d else last xs)"

lemma last_of_simps [simp]: "last_of d [] = d" "last_of d (xs @ [x]) = x"
  by (simp_all add: last_of_def)

section \<open>Property\<close>

text \<open>
  C37. Options do what their comments say: whatever options \<^verbatim>\<open>NewConfig\<close> is given, in
  whatever order and how often, each field is the last argument passed to its own option
  among those the comment admits (positive periods, sizes and counts, a decay factor in
  \<open>[0, 1]\<close>), and the documented default if there is none; rejected arguments and other
  options leave it alone.
\<close>

theorem NewConfig_last_valid_argument:
  "let c = NewConfig (map With calls) in
    cleanPeriod c = last_of (500 * Millisecond) [d. CleanPeriod d \<leftarrow> calls, 0 < d] \<and>
    taskQueueSize c = last_of 10000 [n. TaskQueueSize n \<leftarrow> calls, 0 < n] \<and>
    taskQueueShards c = last_of 0 [n. TaskQueueShards n \<leftarrow> calls] \<and>
    workerNumCapacity c = last_of MaxInt64 [n. WorkerNumCapacity n \<leftarrow> calls, 0 < n] \<and>
    workMode c = last_of BLOCK [m. BlockMode m \<leftarrow> calls] \<and>
    idleContainerType c = last_of LinkedListType [t. ContainerType t \<leftarrow> calls] \<and>
    lockType c = last_of MutexLock [t. LockChoice t \<leftarrow> calls] \<and>
    statsSamplePeriod c = last_of (100 * Millisecond) [d. SamplePeriod d \<leftarrow> calls, 0 < d] \<and>
    statsWindowSize c = last_of 10 [n. WindowSize n \<leftarrow> calls, 0 < n] \<and>
    scalerPeriod c = last_of (10 * Millisecond) [d. ScalerPeriod d \<leftarrow> calls, 0 < d] \<and>
    backlogDecayFactor c = last_of (fl (3 / 10)) [f. DecayFactor f \<leftarrow> calls, unit_float f] \<and>
    zeroConsumeScaleInterval c = last_of (100 * Millisecond) [d. ZeroConsumeInterval d \<leftarrow> calls, 0 < d] \<and>
    maxZeroConsumeScaleStep c = last_of 64 [n. ZeroConsumeStep n \<leftarrow> calls, 0 < n] \<and>
    panicHandler c = last_of None [h. Handler h \<leftarrow> calls]"
  unfolding Let_def
proof (induction calls rule: rev_induct)
  case Nil
  then show ?case by (simp add: NewConfig_def config_consts defaultBacklogDecayFactor_def)
next
  case (snoc x calls)
  then show ?case by (cases x) (simp_all add: NewConfig_snoc config_options unit_float_iff)
qed

end
