(* ===== verification/Shards.thy ===== *)
theory Shards
  imports Config
begin

unbundle bit_operations_syntax

text \<open>
  The sharded handoff queue of \<^verbatim>\<open>pool.go\<close>: how many shards there are
  (\<^verbatim>\<open>resolveTaskQueueShards\<close>), how large each is (\<^verbatim>\<open>NewPool\<close>), and how the masked
  round-robin cursor picks one (\<^verbatim>\<open>nextShard\<close>). \<^verbatim>\<open>int\<close> and \<^verbatim>\<open>uint64\<close> are kept at
  their width. A shard is a buffered channel of \<^verbatim>\<open>Task\<close> interface values.
\<close>

section \<open>How many shards\<close>

definition minShardableQueueSize :: int where
  "minShardableQueueSize = 1024"

definition maxAutoShards :: int where
  "maxAutoShards = 32"

text \<open>\<^verbatim>\<open>for shards < want { shards <<= 1 }\<close>; \<open>None\<close> is a loop that does not end.\<close>

partial_function (option) shards_up :: "int \<Rightarrow> int \<Rightarrow> int option" where
  "shards_up shards want =
     (if shards < want then shards_up (wrap64 (2 * shards)) want else Some shards)"

text \<open>\<^verbatim>\<open>for int64(shards) > c.taskQueueSize && shards > 1 { shards >>= 1 }\<close>.\<close>

function shards_down :: "int \<Rightarrow> int \<Rightarrow> int" where
  "shards_down shards qsize =
     (if qsize < shards \<and> 1 < shards then shards_down (shards div 2) qsize else shards)"
  by pat_completeness auto
termination
  by (relation "measure (\<lambda>(shards, qsize). nat shards)") auto

declare shards_down.simps [simp del]

definition shards_want :: "int \<Rightarrow> 'h Config \<Rightarrow> int" where
  "shards_want GOMAXPROCS c =
     (let want = taskQueueShards c;
          want' = (if want \<le> 0 then (if maxAutoShards < GOMAXPROCS then maxAutoShards else GOMAXPROCS) else want)
      in if want' < 1 then 1 else want')"

definition resolveTaskQueueShards :: "int \<Rightarrow> 'h Config \<Rightarrow> int option" where
  "resolveTaskQueueShards GOMAXPROCS c =
     (if taskQueueShards c \<le> 0 \<and> taskQueueSize c < minShardableQueueSize then Some 1
      else map_option (\<lambda>shards. shards_down shards (taskQueueSize c))
             (shards_up 1 (shards_want GOMAXPROCS c)))"

text \<open>\<^verbatim>\<open>/\<close> on \<^verbatim>\<open>int\<close> truncates towards zero.\<close>

definition go_quot :: "int \<Rightarrow> int \<Rightarrow> int" where
  "go_quot a b = sgn a * sgn b * (\<bar>a\<bar> div \<bar>b\<bar>)"

definition perShardCap :: "int \<Rightarrow> int \<Rightarrow> int" where
  "perShardCap qsize shardCount =
     (let q = go_quot (wrap64 (wrap64 (qsize + shardCount) - 1)) shardCount
      in if q < 1 then 1 else q)"

section \<open>Shard counts are powers of two\<close>

lemma wrap64_double: "k < 62 \<Longrightarrow> wrap64 (2 * 2 ^ k) = 2 ^ Suc k"
proof -
  assume "k < 62"
  then have "(2::int) ^ Suc k \<le> 2 ^ 62" by (intro power_increasing) simp_all
  then have "int64_range (2 ^ Suc k)" by (simp add: int64_range_def order_trans [of _ 0])
  then show ?thesis using wrap64_id [of "2 ^ Suc k"] by simp
qed

lemma shards_up_power:
  assumes "k \<le> 62" and "want \<le> 2 ^ 62" and "2 ^ k < 2 * want"
  shows "\<exists>n. k \<le> n \<and> n \<le> 62 \<and> shards_up (2 ^ k) want = Some (2 ^ n) \<and> want \<le> 2 ^ n \<and> 2 ^ n < 2 * want"
  using assms
proof (induction "62 - k" arbitrary: k)
  case 0
  then have "k = 62" by simp
  moreover have "shards_up (2 ^ k) want = Some (2 ^ k)"
    using 0 \<open>k = 62\<close> by (subst shards_up.simps) simp
  ultimately show ?case using 0 by (intro exI [of _ k]) simp
next
  case (Suc d)
  show ?case
  proof (cases "2 ^ k < want")
    case True
    have k: "k < 62" using Suc.hyps(2) by simp
    have "\<exists>n. Suc k \<le> n \<and> n \<le> 62 \<and> shards_up (2 ^ Suc k) want = Some (2 ^ n) \<and> want \<le> 2 ^ n \<and> 2 ^ n < 2 * want"
      using Suc.hyps(1) [of "Suc k"] Suc.hyps(2) Suc.prems(2) True k by simp
    moreover have "shards_up (2 ^ k) want = shards_up (2 ^ Suc k) want"
      using True wrap64_double [OF k] by (subst shards_up.simps) simp
    ultimately show ?thesis using Suc_leD by auto
  next
    case False
    then have "shards_up (2 ^ k) want = Some (2 ^ k)" by (subst shards_up.simps) simp
    with False Suc.prems show ?thesis by (intro exI [of _ k]) simp
  qed
qed

lemma shards_down_power:
  assumes "0 < qsize"
  shows "\<exists>m\<le>n. shards_down (2 ^ n) qsize = 2 ^ m \<and> 2 ^ m \<le> qsize \<and> (m < n \<longrightarrow> qsize < 2 ^ Suc m)"
proof (induction n)
  case 0
  then show ?case using assms by (simp add: shards_down.simps)
next
  case (Suc n)
  show ?case
  proof (cases "qsize < 2 ^ Suc n")
    case True
    have "shards_down (2 ^ Suc n) qsize = shards_down (2 ^ n) qsize"
    proof -
      have "(1::int) < 2 ^ Suc n" by (rule one_less_power) simp_all
      then show ?thesis using True by (subst shards_down.simps) simp
    qed
    moreover obtain m where "m \<le> n" "shards_down (2 ^ n) qsize = 2 ^ m" "2 ^ m \<le> qsize" "m < n \<longrightarrow> qsize < 2 ^ Suc m"
      using Suc.IH by blast
    ultimately show ?thesis using True by (intro exI [of _ m]) (cases "m = n", auto)
  next
    case False
    then show ?thesis by (intro exI [of _ "Suc n"]) (simp add: shards_down.simps [of "2 ^ Suc n", simplified])
  qed
qed

text \<open>The largest power of two that neither exceeds the queue size nor twice the wish.\<close>

lemma resolve_power:
  assumes "0 < taskQueueSize c" and "shards_want procs c \<le> 2 ^ 62"
  shows "\<exists>m\<le>62. resolveTaskQueueShards procs c = Some (2 ^ m) \<and> 2 ^ m \<le> taskQueueSize c"
proof (cases "taskQueueShards c \<le> 0 \<and> taskQueueSize c < minShardableQueueSize")
  case True
  then show ?thesis using assms(1) by (intro exI [of _ 0]) (simp add: resolveTaskQueueShards_def)
next
  case False
  have "1 \<le> shards_want procs c" by (simp add: shards_want_def Let_def)
  then obtain n where n: "n \<le> 62" "shards_up 1 (shards_want procs c) = Some (2 ^ n)"
    using shards_up_power [of 0 "shards_want procs c"] assms(2) by auto
  obtain m where "m \<le> n" "shards_down (2 ^ n) (taskQueueSize c) = 2 ^ m" "2 ^ m \<le> taskQueueSize c"
    using shards_down_power [OF assms(1), of n] by blast
  then show ?thesis using n False unfolding resolveTaskQueueShards_def by (intro exI [of _ m]) auto
qed

text \<open>A wish above \<open>2^62\<close> makes the doubling overflow to zero and the loop endless.\<close>

lemma shards_up_diverges:
  assumes "2 ^ 62 < want"
  shows "shards_up 1 want = None"
proof -
  define bad :: "int \<Rightarrow> bool" where "bad s \<longleftrightarrow> s = 0 \<or> s = MinInt64 \<or> (\<exists>k\<le>62. s = 2 ^ k)" for s
  have lt: "s < w" if "2 ^ 62 < w" "bad s" for s w
  proof -
    have "(2::int) ^ k \<le> 2 ^ 62" if "k \<le> 62" for k :: nat using that by (intro power_increasing) simp_all
    then show ?thesis using that unfolding bad_def by fastforce
  qed
  have bad: "bad (wrap64 (2 * s))" if "bad s" for s
    using that unfolding bad_def
  proof (elim disjE exE conjE)
    fix k :: nat assume k: "k \<le> 62" "s = 2 ^ k"
    show "wrap64 (2 * s) = 0 \<or> wrap64 (2 * s) = MinInt64 \<or> (\<exists>k\<le>62. wrap64 (2 * s) = 2 ^ k)"
    proof (cases "k = 62")
      case True
      then show ?thesis using k by (simp add: wrap64_def)
    next
      case False
      then have "wrap64 (2 * s) = 2 ^ Suc k" "Suc k \<le> 62" using k wrap64_double [of k] by simp_all
      then show ?thesis by blast
    qed
  qed (simp_all add: wrap64_def)
  have "\<not> (2 ^ 62 < w \<and> bad s)" if "shards_up s w = Some r" for s w r
    using that
  proof (rule shards_up.raw_induct [where P = "\<lambda>s w r. \<not> (2 ^ 62 < w \<and> bad s)", rotated])
    fix f :: "int \<Rightarrow> int \<Rightarrow> int option" and s w r
    assume "\<And>s w r. f s w = Some r \<Longrightarrow> \<not> (2 ^ 62 < w \<and> bad s)"
      and "(if s < w then f (wrap64 (2 * s)) w else Some s) = Some r"
    then show "\<not> (2 ^ 62 < w \<and> bad s)" using lt [of w s] bad [of s] by (cases "s < w") auto
  qed
  moreover have "bad 1" unfolding bad_def by (intro disjI2 exI [of _ 0]) simp
  ultimately show ?thesis using assms by (cases "shards_up 1 want") auto
qed

section \<open>How large a shard is\<close>

lemma perShardCap_covers:
  assumes "0 < qsize" and "0 < n" and "qsize + n \<le> MaxInt64"
  shows "qsize \<le> n * perShardCap qsize n" and "n * (perShardCap qsize n - 1) < qsize" and "1 \<le> perShardCap qsize n"
proof -
  have "int64_range (qsize + n)" "int64_range (qsize + n - 1)" using assms by (simp_all add: int64_range_def)
  then have q: "go_quot (wrap64 (wrap64 (qsize + n) - 1)) n = (qsize + n - 1) div n"
    using assms by (simp add: go_quot_def)
  have d: "1 \<le> (qsize + n - 1) div n"
    using zdiv_mono1 [of n "qsize + n - 1" n] assms by simp
  then have p: "perShardCap qsize n = (qsize + n - 1) div n" by (simp add: perShardCap_def q)
  have "n * ((qsize + n - 1) div n) = qsize + n - 1 - (qsize + n - 1) mod n" by (simp add: minus_mod_eq_mult_div)
  moreover have "0 \<le> (qsize + n - 1) mod n" "(qsize + n - 1) mod n < n" using assms(2) by simp_all
  ultimately show "qsize \<le> n * perShardCap qsize n" "n * (perShardCap qsize n - 1) < qsize" "1 \<le> perShardCap qsize n"
    unfolding p using d by (simp_all add: right_diff_distrib)
qed

text \<open>Near the top of the range the sum overflows and every shard gets a single slot.\<close>

lemma perShardCap_overflow:
  assumes "1 < n" and "n \<le> 2 ^ 62" and "qsize \<le> MaxInt64" and "MaxInt64 + 1 < qsize + n"
  shows "perShardCap qsize n = 1"
proof -
  have r: "2 ^ 63 \<le> qsize + n" "qsize + n < 2 ^ 64" using assms by simp_all
  have "wrap64 (qsize + n) = qsize + n - 2 ^ 64" by (rule wrap64_high [OF r])
  moreover have "int64_range (qsize + n - 2 ^ 64 - 1)" using r assms by (simp add: int64_range_def)
  ultimately have "wrap64 (wrap64 (qsize + n) - 1) = qsize + n - 2 ^ 64 - 1" by simp
  moreover have "qsize + n - 2 ^ 64 - 1 < 0" using r by simp
  ultimately have "go_quot (wrap64 (wrap64 (qsize + n) - 1)) n \<le> 0"
    using assms(1) by (simp add: go_quot_def) (simp add: pos_imp_zdiv_nonneg_iff)
  then show ?thesis by (simp add: perShardCap_def)
qed

section \<open>Channels\<close>

text \<open>A buffered channel that is never closed; the \<^verbatim>\<open>select\<close> statements with \<^verbatim>\<open>default\<close>.\<close>

record 'a chan =
  chanCap :: nat
  chanItems :: "'a list"

definition make_chan :: "nat \<Rightarrow> 'a chan" where
  "make_chan n = \<lparr>chanCap = n, chanItems = []\<rparr>"

definition chan_room :: "'a chan \<Rightarrow> bool" where
  "chan_room q \<longleftrightarrow> length (chanItems q) < chanCap q"

definition chan_send :: "'a \<Rightarrow> 'a chan \<Rightarrow> 'a chan" where
  "chan_send t q = q\<lparr>chanItems := chanItems q @ [t]\<rparr>"

definition chan_recv :: "'a chan \<Rightarrow> ('a \<times> 'a chan) option" where
  "chan_recv q = (case chanItems q of [] \<Rightarrow> None | t # ts \<Rightarrow> Some (t, q\<lparr>chanItems := ts\<rparr>))"

definition make_shards :: "int \<Rightarrow> int \<Rightarrow> 'a chan list" where
  "make_shards shardCount cap = replicate (nat shardCount) (make_chan (nat cap))"

definition chan_ok :: "'a chan \<Rightarrow> bool" where
  "chan_ok q \<longleftrightarrow> 0 < chanCap q \<and> length (chanItems q) \<le> chanCap q"

lemma chan_send_ok: "chan_room q \<Longrightarrow> chan_ok (chan_send t q)"
  by (simp add: chan_room_def chan_ok_def chan_send_def)

section \<open>The round-robin cursor\<close>

definition shard_mask :: "int \<Rightarrow> 64 word" where
  "shard_mask shardCount = word_of_int (shardCount - 1)"

definition nextShard :: "64 word \<Rightarrow> 64 word \<Rightarrow> nat \<times> 64 word" where
  "nextShard shardMask sendSeq = (let seq = sendSeq + 1 in (unat (seq AND shardMask), seq))"

lemma shard_mask_power: "shard_mask (2 ^ m) = mask m"
  by (simp add: shard_mask_def mask_eq_exp_minus_1 word_of_int_power_hom)

lemma unat_and_mask: "unat (x AND shard_mask (2 ^ m)) = unat (x :: 64 word) mod 2 ^ m"
  by (simp only: shard_mask_power take_bit_eq_mask [symmetric] unsigned_take_bit_eq take_bit_eq_mod [of _ "unat x"])

lemma nextShard_range: "fst (nextShard (shard_mask (2 ^ m)) s) < 2 ^ m"
  by (simp add: nextShard_def Let_def unat_and_mask)

text \<open>\<open>k\<close> calls in a row: the shards they pick.\<close>

fun shard_picks :: "64 word \<Rightarrow> nat \<Rightarrow> 64 word \<Rightarrow> nat list" where
  "shard_picks msk 0 s = []"
| "shard_picks msk (Suc k) s = (let (i, s') = nextShard msk s in i # shard_picks msk k s')"

text \<open>The cursor may wrap around at \<open>2^64\<close>: the shard count divides it.\<close>

lemma unat_succ_mod: "m \<le> 62 \<Longrightarrow> unat (s + 1 :: 64 word) mod 2 ^ m = Suc (unat s) mod 2 ^ m"
proof -
  assume "m \<le> 62"
  then have d: "(2::nat) ^ m dvd 2 ^ 64" by (intro le_imp_power_dvd) simp
  have "unat (s + 1) = Suc (unat s) mod 2 ^ 64" by (simp add: unat_word_ariths)
  then show ?thesis using mod_mod_cancel [OF d, of "Suc (unat s)"] by simp
qed

lemma shard_picks_eq:
  assumes "m \<le> 62"
  shows "shard_picks (shard_mask (2 ^ m)) k s = map (\<lambda>i. (Suc (unat s) + i) mod 2 ^ m) [0..<k]"
proof (induction k arbitrary: s)
  case (Suc k)
  have "(Suc (unat (s + 1)) + i) mod 2 ^ m = (Suc (unat s) + Suc i) mod 2 ^ m" for i
    using unat_succ_mod [OF assms, of s] by (metis add_Suc add_Suc_right mod_add_left_eq mod_Suc_eq)
  moreover have "fst (nextShard (shard_mask (2 ^ m)) s) = Suc (unat s) mod 2 ^ m"
    by (simp add: nextShard_def Let_def unat_and_mask unat_succ_mod [OF assms])
  moreover have "[0..<Suc k] = 0 # map Suc [0..<k]" by (simp add: map_Suc_upt upt_conv_Cons)
  ultimately show ?case
    using Suc [of "s + 1"] by (simp add: nextShard_def Let_def del: upt_Suc)
qed simp

lemma shard_picks_all:
  assumes "m \<le> 62"
  shows "distinct (shard_picks (shard_mask (2 ^ m)) (2 ^ m) s) \<and> set (shard_picks (shard_mask (2 ^ m)) (2 ^ m) s) = {..<2 ^ m}"
proof -
  let ?f = "\<lambda>i. (Suc (unat s) + i) mod 2 ^ m"
  have inj: "inj_on ?f {0..<2 ^ m}"
    by (rule inj_onI) (erule mod_add_left_inj, simp_all)
  have "?f ` {0..<2 ^ m} \<subseteq> {..<2 ^ m}" by auto
  moreover have "card (?f ` {0..<2 ^ m}) = 2 ^ m" using card_image [OF inj] by simp
  ultimately have "?f ` {0..<2 ^ m} = {..<2 ^ m}" by (intro card_subset_eq) simp_all
  then show ?thesis
    using inj unfolding shard_picks_eq [OF assms] by (simp add: distinct_map del: set_map) (simp add: set_map)
qed

section \<open>Properties\<close>

text \<open>
  C32. The shard count is a power of two that never exceeds the configured queue size, for
  every positive size and every wish up to \<open>2^62\<close>; it is at least half the wish unless the
  size forbids it.
\<close>

theorem resolveTaskQueueShards_power_of_two:
  assumes "0 < taskQueueSize c" and "0 < taskQueueShards c" and "taskQueueShards c \<le> 2 ^ 62"
  shows "\<exists>m. resolveTaskQueueShards procs c = Some (2 ^ m) \<and> 2 ^ m \<le> taskQueueSize c \<and>
           2 ^ m < 2 * taskQueueShards c \<and> (taskQueueShards c \<le> 2 ^ m \<or> taskQueueSize c < 2 ^ Suc m)"
proof -
  let ?w = "taskQueueShards c"
  have w: "shards_want procs c = ?w" using assms(2) by (simp add: shards_want_def Let_def)
  obtain n where n: "shards_up (2 ^ 0) ?w = Some (2 ^ n)" "?w \<le> 2 ^ n" "2 ^ n < 2 * ?w"
    using shards_up_power [of 0 ?w] assms(2,3) by auto
  obtain m where m: "m \<le> n" "shards_down (2 ^ n) (taskQueueSize c) = 2 ^ m" "2 ^ m \<le> taskQueueSize c"
    "m < n \<longrightarrow> taskQueueSize c < 2 ^ Suc m"
    using shards_down_power [OF assms(1), of n] by blast
  have "(2::int) ^ m \<le> 2 ^ n" using m(1) by (intro power_increasing) simp_all
  then have "2 ^ m < 2 * ?w" using n(3) by linarith
  moreover have "?w \<le> 2 ^ m \<or> taskQueueSize c < 2 ^ Suc m" using m(1,4) n(2) by (cases "m = n") auto
  moreover have "resolveTaskQueueShards procs c = Some (2 ^ m)"
    using assms(2) n(1) m(2) by (simp add: resolveTaskQueueShards_def w)
  ultimately show ?thesis using m(3) by blast
qed

theorem resolveTaskQueueShards_power_of_two_witness:
  "\<exists>m. resolveTaskQueueShards 8 (NewConfig [WithTaskQueueShards 5, WithTaskQueueSize 6] :: unit Config) = Some (2 ^ m) \<and>
     2 ^ m \<le> (6::int)"
  using resolveTaskQueueShards_power_of_two
    [of "NewConfig [WithTaskQueueShards 5, WithTaskQueueSize 6] :: unit Config" 8]
  by (auto simp: NewConfig_def WithTaskQueueShards_def WithTaskQueueSize_def)

text \<open>
  C40. A wish above \<open>2^62\<close> shards, which \<^verbatim>\<open>WithTaskQueueShards\<close> accepts, makes
  \<^verbatim>\<open>resolveTaskQueueShards\<close>, and with it \<^verbatim>\<open>NewPool\<close>, loop forever: the doubling overflows
  to zero.
\<close>

theorem resolveTaskQueueShards_diverges:
  assumes "2 ^ 62 < taskQueueShards c"
  shows "resolveTaskQueueShards procs c = None"
proof -
  have "shards_want procs c = taskQueueShards c" using assms by (simp add: shards_want_def Let_def)
  then show ?thesis using assms shards_up_diverges [OF assms] by (simp add: resolveTaskQueueShards_def)
qed

theorem resolveTaskQueueShards_diverges_witness:
  "resolveTaskQueueShards 8 (NewConfig [WithTaskQueueShards MaxInt64] :: unit Config) = None"
  by (rule resolveTaskQueueShards_diverges) (simp add: NewConfig_def WithTaskQueueShards_def)

text \<open>
  The round-robin cursor is fair: as many consecutive calls of \<^verbatim>\<open>nextShard\<close> as there are
  shards pick each shard exactly once, in range, from every value of the cursor and also
  across its wrap-around at \<open>2^64\<close>.
\<close>

theorem nextShard_round_robin:
  assumes "m \<le> 62"
  shows "distinct (shard_picks (shard_mask (2 ^ m)) (2 ^ m) sendSeq) \<and>
         set (shard_picks (shard_mask (2 ^ m)) (2 ^ m) sendSeq) = {..<2 ^ m}"
  by (rule shard_picks_all [OF assms])

theorem nextShard_round_robin_witness:
  "set (shard_picks (shard_mask 4) 4 (- 2)) = {..<4}"
  using nextShard_round_robin [of 2 "- 2"] by simp

text \<open>
  Near the top of the range the sum that sizes a shard overflows: then each shard gets
  one slot, so that the handoff queue holds far fewer tasks than configured, while below
  that the shards together hold at least the configured number and less than one slot per
  shard more.
\<close>

theorem perShardCap_total:
  assumes "0 < qsize" and "qsize \<le> MaxInt64" and "1 < n" and "n \<le> 2 ^ 62"
  shows "(qsize + n \<le> MaxInt64 \<longrightarrow> qsize \<le> n * perShardCap qsize n \<and> n * perShardCap qsize n < qsize + n) \<and>
         (MaxInt64 + 1 < qsize + n \<longrightarrow> n * perShardCap qsize n = n)"
  using perShardCap_covers [of qsize n] perShardCap_overflow [of n qsize] assms
  by (auto simp: right_diff_distrib)

theorem perShardCap_total_witness:
  "32 * perShardCap MaxInt64 32 = 32 \<and> 10000 \<le> 32 * perShardCap 10000 32"
  using perShardCap_total [of MaxInt64 32] perShardCap_total [of 10000 32] by simp

end
