(* ===== verification/Task_Buffer.thy ===== *)
theory Task_Buffer
  imports Go_Prelude
begin

text \<open>
  \<^verbatim>\<open>task_buffer.go\<close>: the overflow buffer of the pool, a linked list of fixed-size
  chunks recycled through a \<^verbatim>\<open>sync.Pool\<close>. Chunks live in an explicit store, so
  that a recycled chunk is the same object as before. A slot holds a \<^verbatim>\<open>Task\<close>
  interface value, \<open>None\<close> being nil; operations return \<open>None\<close> on a nil dereference
  or an index out of range. The buffer lock makes each exported method one step.
\<close>

section \<open>Data and operations\<close>

datatype taskBufferPushResult = taskBufferAccepted | taskBufferClosed | taskBufferFull

definition taskChunkSize :: nat where
  "taskChunkSize = 4096"

definition maxChunkLen :: int where
  "maxChunkLen = 100000"

record 'a taskChunk =
  ctasks :: "nat \<Rightarrow> 'a option"
  cnext :: "nat option"

record 'a chunkedTaskBuffer =
  headChunk :: "nat option"
  tailChunk :: "nat option"
  headIdx :: nat
  tailIdx :: nat
  chunkLen :: int
  overflowClosed :: bool
  chunkPool :: "nat list"
  chunkMem :: "nat \<Rightarrow> 'a taskChunk option"
  chunkFresh :: nat

definition newChunkedTaskBuffer :: "'a chunkedTaskBuffer" where
  [buf_defs]: "newChunkedTaskBuffer =
     \<lparr>headChunk = None, tailChunk = None, headIdx = 0, tailIdx = 0, chunkLen = 0,
      overflowClosed = False, chunkPool = [], chunkMem = (\<lambda>_. None), chunkFresh = 0\<rparr>"

definition buffer_Len :: "'a chunkedTaskBuffer \<Rightarrow> int" where
  [buf_defs]: "buffer_Len b = chunkLen b"

definition buffer_Close :: "'a chunkedTaskBuffer \<Rightarrow> 'a chunkedTaskBuffer" where
  [buf_defs]: "buffer_Close b = b\<lparr>overflowClosed := True\<rparr>"

text \<open>\<^verbatim>\<open>chunkPool.Get()\<close>: a recycled chunk, or the zero chunk that \<^verbatim>\<open>New\<close> allocates.\<close>

definition chunk_Get :: "nat option \<Rightarrow> 'a chunkedTaskBuffer \<Rightarrow> nat \<times> 'a chunkedTaskBuffer" where
  "chunk_Get pick b =
     (let (c, items) = sync_Pool_Get pick (chunkFresh b) (chunkPool b) in
      if c = chunkFresh b then
        (c, b\<lparr>chunkMem := (chunkMem b)(c \<mapsto> \<lparr>ctasks = (\<lambda>_. None), cnext = None\<rparr>),
              chunkFresh := Suc c\<rparr>)
      else (c, b\<lparr>chunkPool := items\<rparr>))"

text \<open>\<^verbatim>\<open>c.next = p\<close> and \<^verbatim>\<open>c.tasks[i] = t\<close>.\<close>

definition set_next :: "nat \<Rightarrow> nat option \<Rightarrow> 'a chunkedTaskBuffer \<Rightarrow> 'a chunkedTaskBuffer option" where
  "set_next c p b =
     (case chunkMem b c of
        None \<Rightarrow> None
      | Some ch \<Rightarrow> Some (b\<lparr>chunkMem := (chunkMem b)(c \<mapsto> ch\<lparr>cnext := p\<rparr>)\<rparr>))"

definition set_slot :: "nat \<Rightarrow> nat \<Rightarrow> 'a option \<Rightarrow> 'a chunkedTaskBuffer \<Rightarrow> 'a chunkedTaskBuffer option" where
  "set_slot c i t b =
     (case chunkMem b c of
        None \<Rightarrow> None
      | Some ch \<Rightarrow>
          if i < taskChunkSize
          then Some (b\<lparr>chunkMem := (chunkMem b)(c \<mapsto> ch\<lparr>ctasks := (ctasks ch)(i := t)\<rparr>)\<rparr>)
          else None)"

definition push_room :: "nat option \<Rightarrow> 'a chunkedTaskBuffer \<Rightarrow> 'a chunkedTaskBuffer option" where
  "push_room pick b =
     (case tailChunk b of
        None \<Rightarrow>
          (let (c, b1) = chunk_Get pick b
           in Some (b1\<lparr>tailChunk := Some c, headChunk := Some c, tailIdx := 0, headIdx := 0\<rparr>))
      | Some t \<Rightarrow>
          if taskChunkSize \<le> tailIdx b then
            (let (c, b1) = chunk_Get pick b
             in map_option (\<lambda>b2. b2\<lparr>tailChunk := Some c, tailIdx := 0\<rparr>) (set_next t (Some c) b1))
          else Some b)"

definition pushTail :: "nat option \<Rightarrow> 'a option \<Rightarrow> 'a chunkedTaskBuffer \<Rightarrow> 'a chunkedTaskBuffer option" where
  "pushTail pick task b =
     (case push_room pick b of
        None \<Rightarrow> None
      | Some b1 \<Rightarrow>
          (case tailChunk b1 of
             None \<Rightarrow> None
           | Some t \<Rightarrow>
               map_option (\<lambda>b2. b2\<lparr>tailIdx := tailIdx b2 + 1, chunkLen := chunkLen b2 + 1\<rparr>)
                 (set_slot t (tailIdx b1) task b1)))"

definition recycle :: "nat \<Rightarrow> 'a chunkedTaskBuffer \<Rightarrow> 'a chunkedTaskBuffer option" where
  "recycle c b =
     map_option (\<lambda>b1. b1\<lparr>chunkPool := sync_Pool_Put c (chunkPool b1)\<rparr>) (set_next c None b)"

text \<open>The first half of \<^verbatim>\<open>peekHead\<close>: step over an exhausted head chunk.\<close>

definition peek_advance :: "nat \<Rightarrow> 'a chunkedTaskBuffer \<Rightarrow> 'a chunkedTaskBuffer option" where
  "peek_advance h b =
     (if taskChunkSize \<le> headIdx b then
        (case chunkMem b h of
           None \<Rightarrow> None
         | Some ch \<Rightarrow>
             map_option
               (\<lambda>b1. let b2 = b1\<lparr>headChunk := cnext ch, headIdx := 0\<rparr>
                      in if cnext ch = None then b2\<lparr>tailChunk := None, tailIdx := 0\<rparr> else b2)
               (recycle h b))
      else Some b)"

definition peekHead :: "'a chunkedTaskBuffer \<Rightarrow> (('a option \<times> bool) \<times> 'a chunkedTaskBuffer) option" where
  "peekHead b =
     (case headChunk b of
        None \<Rightarrow> Some ((None, False), b)
      | Some h \<Rightarrow>
          (case peek_advance h b of
             None \<Rightarrow> None
           | Some b1 \<Rightarrow>
               (case headChunk b1 of
                  None \<Rightarrow> Some ((None, False), b1)
                | Some h1 \<Rightarrow>
                    if headChunk b1 = tailChunk b1 \<and> tailIdx b1 \<le> headIdx b1 then
                      map_option
                        (\<lambda>b2. ((None, False),
                                b2\<lparr>headChunk := None, tailChunk := None, headIdx := 0, tailIdx := 0\<rparr>))
                        (recycle h1 b1)
                    else
                      (case chunkMem b1 h1 of
                         None \<Rightarrow> None
                       | Some ch \<Rightarrow>
                           if headIdx b1 < taskChunkSize then Some ((ctasks ch (headIdx b1), True), b1)
                           else None))))"

definition popHead :: "'a chunkedTaskBuffer \<Rightarrow> (('a option \<times> bool) \<times> 'a chunkedTaskBuffer) option" where
  "popHead b =
     (case peekHead b of
        None \<Rightarrow> None
      | Some ((task, ok), b1) \<Rightarrow>
          if \<not> ok then Some ((None, False), b1)
          else
            (case headChunk b1 of
               None \<Rightarrow> None
             | Some h \<Rightarrow>
                 map_option
                   (\<lambda>b2. ((task, True), b2\<lparr>headIdx := headIdx b2 + 1, chunkLen := chunkLen b2 - 1\<rparr>))
                   (set_slot h (headIdx b1) None b1)))"

text \<open>
  \<^verbatim>\<open>PushAndForward\<close>; the callback \<^verbatim>\<open>tryForward\<close> reads and changes a state of
  its own (the shards and the send cursor in the pool), which is threaded through.
\<close>

definition PushAndForward ::
  "nat option \<Rightarrow> 'a option \<Rightarrow> ('a option \<Rightarrow> 's \<Rightarrow> bool \<times> 's) \<Rightarrow> 'a chunkedTaskBuffer \<times> 's \<Rightarrow>
   (taskBufferPushResult \<times> 'a chunkedTaskBuffer \<times> 's) option" where
  "PushAndForward pick task tryForward bs =
     (let (b, s) = bs in
      if overflowClosed b then Some (taskBufferClosed, b, s)
      else if maxChunkLen \<le> chunkLen b then Some (taskBufferFull, b, s)
      else
        (case pushTail pick task b of
           None \<Rightarrow> None
         | Some b1 \<Rightarrow>
             (case peekHead b1 of
                None \<Rightarrow> None
              | Some ((t, ok), b2) \<Rightarrow>
                  if ok then
                    (let (sent, s') = tryForward t s in
                     if sent then map_option (\<lambda>(_, b3). (taskBufferAccepted, b3, s')) (popHead b2)
                     else Some (taskBufferAccepted, b2, s'))
                  else Some (taskBufferAccepted, b2, s))))"

function batch_loop ::
  "nat \<Rightarrow> 'a option list \<Rightarrow> 'a chunkedTaskBuffer \<Rightarrow> (nat \<times> 'a option list \<times> 'a chunkedTaskBuffer) option" where
  "batch_loop n dst b =
     (if n < length dst then
        (case popHead b of
           None \<Rightarrow> None
         | Some ((t, ok), b') \<Rightarrow>
             if ok then batch_loop (n + 1) (dst[n := t]) b' else Some (n, dst, b'))
      else Some (n, dst, b))"
  by pat_completeness auto
termination
  by (relation "measure (\<lambda>(n, dst, b). length dst - n)") auto

declare batch_loop.simps [simp del]

definition PopBatch ::
  "'a option list \<Rightarrow> 'a chunkedTaskBuffer \<Rightarrow> (nat \<times> 'a option list \<times> 'a chunkedTaskBuffer) option" where
  "PopBatch dst b = batch_loop 0 dst b"

section \<open>Representation of a queue\<close>

text \<open>
  \<open>chain m p cs\<close>: following \<^verbatim>\<open>next\<close> from \<open>p\<close> visits the chunks \<open>cs\<close> and ends in nil.
  The slots of the chunks, read in order, hold the queue from position \<open>headIdx\<close> on and
  nil everywhere else.
\<close>

fun chain :: "(nat \<Rightarrow> 'a taskChunk option) \<Rightarrow> nat option \<Rightarrow> nat list \<Rightarrow> bool" where
  "chain m p [] \<longleftrightarrow> p = None"
| "chain m p (c # cs) \<longleftrightarrow> p = Some c \<and> (\<exists>ch. m c = Some ch \<and> chain m (cnext ch) cs)"

definition slot :: "'a option list \<Rightarrow> nat \<Rightarrow> nat \<Rightarrow> 'a option" where
  "slot xs h p = (if h \<le> p \<and> p - h < length xs then xs ! (p - h) else None)"

definition slots_ok :: "(nat \<Rightarrow> 'a taskChunk option) \<Rightarrow> nat list \<Rightarrow> nat \<Rightarrow> 'a option list \<Rightarrow> bool" where
  "slots_ok m cs h xs \<longleftrightarrow>
     (\<forall>i<length cs. \<forall>ch. m (cs ! i) = Some ch \<longrightarrow>
        (\<forall>j<taskChunkSize. ctasks ch j = slot xs h (i * taskChunkSize + j)))"

definition clean_chunk :: "'a taskChunk \<Rightarrow> bool" where
  "clean_chunk ch \<longleftrightarrow> cnext ch = None \<and> (\<forall>j<taskChunkSize. ctasks ch j = None)"

definition pool_clean :: "'a chunkedTaskBuffer \<Rightarrow> bool" where
  "pool_clean b \<longleftrightarrow> (\<forall>c\<in>set (chunkPool b). \<exists>ch. chunkMem b c = Some ch \<and> clean_chunk ch)"

definition mem_ok :: "'a chunkedTaskBuffer \<Rightarrow> nat list \<Rightarrow> bool" where
  "mem_ok b cs \<longleftrightarrow>
     distinct (cs @ chunkPool b) \<and> (\<forall>c\<in>set (cs @ chunkPool b). c < chunkFresh b) \<and> pool_clean b"

definition buf_core :: "'a chunkedTaskBuffer \<Rightarrow> nat list \<Rightarrow> 'a option list \<Rightarrow> bool" where
  "buf_core b cs xs \<longleftrightarrow>
     mem_ok b cs \<and> chain (chunkMem b) (headChunk b) cs \<and>
     tailChunk b = (if cs = [] then None else Some (last cs)) \<and>
     slots_ok (chunkMem b) cs (headIdx b) xs \<and> chunkLen b = int (length xs) \<and>
     (if cs = [] then xs = [] \<and> headIdx b = 0 \<and> tailIdx b = 0
      else headIdx b \<le> taskChunkSize \<and> tailIdx b \<le> taskChunkSize \<and>
           headIdx b + length xs = (length cs - 1) * taskChunkSize + tailIdx b)"

definition buf_rep :: "'a chunkedTaskBuffer \<Rightarrow> 'a option list \<Rightarrow> bool" where
  "buf_rep b xs \<longleftrightarrow> (\<exists>cs. buf_core b cs xs \<and> (cs \<noteq> [] \<longrightarrow> 0 < tailIdx b))"

lemma buf_rep_len: "buf_rep b xs \<Longrightarrow> chunkLen b = int (length xs)"
  by (auto simp: buf_rep_def buf_core_def)

lemma buf_rep_closed [simp]: "buf_rep (b\<lparr>overflowClosed := v\<rparr>) xs \<longleftrightarrow> buf_rep b xs"
proof -
  have "buf_core (b\<lparr>overflowClosed := v\<rparr>) cs xs \<longleftrightarrow> buf_core b cs xs" for cs
    by (simp add: buf_core_def mem_ok_def pool_clean_def)
  then show ?thesis by (simp add: buf_rep_def)
qed

lemma buf_rep_pool_clean: "buf_rep b xs \<Longrightarrow> pool_clean b"
  by (auto simp: buf_rep_def buf_core_def mem_ok_def)

lemma new_rep: "buf_rep newChunkedTaskBuffer []"
  by (simp add: buf_rep_def buf_core_def mem_ok_def pool_clean_def slots_ok_def newChunkedTaskBuffer_def)

lemma taskChunkSize_pos [simp]: "0 < taskChunkSize"
  by (simp add: taskChunkSize_def)

subsection \<open>Frames\<close>

lemma chain_cong:
  assumes "\<And>a. a \<in> set cs \<Longrightarrow> map_option cnext (m a) = map_option cnext (m' a)"
  shows "chain m p cs \<longleftrightarrow> chain m' p cs"
  using assms
proof (induction cs arbitrary: p)
  case (Cons c cs)
  have "map_option cnext (m c) = map_option cnext (m' c)" by (rule Cons.prems) simp
  moreover have "chain m q cs \<longleftrightarrow> chain m' q cs" for q
    by (rule Cons.IH) (simp add: Cons.prems)
  ultimately show ?case by (cases "m c"; cases "m' c") auto
qed simp

lemma slots_ok_cong:
  "(\<And>a. a \<in> set cs \<Longrightarrow> map_option ctasks (m a) = map_option ctasks (m' a)) \<Longrightarrow>
     slots_ok m cs h xs \<longleftrightarrow> slots_ok m' cs h xs"
  unfolding slots_ok_def by (smt (verit) nth_mem option.map_disc_iff option.map_sel option.sel option.exhaust_sel)

lemma chain_mem: "chain m p cs \<Longrightarrow> c \<in> set cs \<Longrightarrow> \<exists>ch. m c = Some ch"
  by (induction cs arbitrary: p) auto

lemma chain_snoc:
  assumes "chain m p cs" and "cs \<noteq> []" and "m (last cs) = Some ch" and "m c = Some ch'" and "cnext ch' = None"
    and "distinct (cs @ [c])"
  shows "chain (m(last cs \<mapsto> ch\<lparr>cnext := Some c\<rparr>)) p (cs @ [c])"
  using assms
proof (induction cs arbitrary: p)
  case (Cons a cs)
  show ?case
  proof (cases cs)
    case Nil
    with Cons.prems show ?thesis by auto
  next
    case (Cons a' cs')
    with Cons.prems Cons.IH show ?thesis by auto
  qed
qed simp

lemma chunk_Get_ok:
  assumes "mem_ok b cs" and "chunk_Get pick b = (c, b1)"
  shows "mem_ok b1 (cs @ [c]) \<and> (\<exists>ch. chunkMem b1 c = Some ch \<and> clean_chunk ch) \<and>
         (\<forall>a\<in>set cs. chunkMem b1 a = chunkMem b a) \<and>
         headChunk b1 = headChunk b \<and> tailChunk b1 = tailChunk b \<and> headIdx b1 = headIdx b \<and>
         tailIdx b1 = tailIdx b \<and> chunkLen b1 = chunkLen b \<and> overflowClosed b1 = overflowClosed b"
proof -
  obtain x items where g: "sync_Pool_Get pick (chunkFresh b) (chunkPool b) = (x, items)" by fastforce
  have d: "distinct (cs @ chunkPool b)" "\<forall>c\<in>set (cs @ chunkPool b). c < chunkFresh b" "pool_clean b"
    using assms(1) by (simp_all add: mem_ok_def)
  show ?thesis
  proof (cases "x = chunkFresh b")
    case True
    then have "c = chunkFresh b"
      and "b1 = b\<lparr>chunkMem := (chunkMem b)(c \<mapsto> \<lparr>ctasks = (\<lambda>_. None), cnext = None\<rparr>), chunkFresh := Suc c\<rparr>"
      using assms(2) g by (auto simp: chunk_Get_def)
    moreover from this have "chunkFresh b \<notin> set (cs @ chunkPool b)" using d(2) by blast
    ultimately show ?thesis using d by (auto simp: mem_ok_def pool_clean_def clean_chunk_def less_Suc_eq)
  next
    case False
    then have c: "c = x" and b1: "b1 = b\<lparr>chunkPool := items\<rparr>"
      using assms(2) g by (auto simp: chunk_Get_def)
    have m: "mset (chunkPool b) = add_mset x (mset items)"
      using sync_Pool_Get_mset [OF g] False by blast
    then have s: "set (chunkPool b) = insert x (set items)" by (metis set_mset_add_mset_insert set_mset_mset)
    have "mset (cs @ chunkPool b) = mset (cs @ [x] @ items)" using m by simp
    then have "distinct (cs @ [x] @ items)" using d(1) mset_eq_imp_distinct_iff by blast
    then show ?thesis using d s by (auto simp: c b1 mem_ok_def pool_clean_def)
  qed
qed

section \<open>Pushing\<close>

lemma slots_snoc_clean:
  assumes "slots_ok m cs h xs" and "h + length xs \<le> length cs * taskChunkSize" and "m c = Some ch" and "clean_chunk ch"
  shows "slots_ok m (cs @ [c]) h xs"
proof -
  have "slot xs h (length cs * taskChunkSize + j) = None" for j
    using assms(2) by (auto simp: slot_def)
  then show ?thesis using assms by (auto simp: slots_ok_def nth_append clean_chunk_def less_Suc_eq)
qed

lemma push_room_ok:
  assumes "buf_core b cs xs" and "cs \<noteq> [] \<longrightarrow> 0 < tailIdx b"
  shows "\<exists>b1 cs1. push_room pick b = Some b1 \<and> buf_core b1 cs1 xs \<and> cs1 \<noteq> [] \<and> tailIdx b1 < taskChunkSize \<and>
           overflowClosed b1 = overflowClosed b"
proof -
  obtain c b1 where g: "chunk_Get pick b = (c, b1)" by fastforce
  obtain ch where G: "mem_ok b1 (cs @ [c])" "chunkMem b1 c = Some ch" "clean_chunk ch"
      "\<forall>a\<in>set cs. chunkMem b1 a = chunkMem b a"
      "headChunk b1 = headChunk b" "tailChunk b1 = tailChunk b" "headIdx b1 = headIdx b"
      "tailIdx b1 = tailIdx b" "chunkLen b1 = chunkLen b" "overflowClosed b1 = overflowClosed b"
    using chunk_Get_ok [OF _ g, of cs] assms(1) by (auto simp: buf_core_def)
  consider "cs = []" | "cs \<noteq> []" "tailIdx b < taskChunkSize" | "cs \<noteq> []" "tailIdx b = taskChunkSize"
    using assms(1) by (fastforce simp: buf_core_def)
  then show ?thesis
  proof cases
    case 1
    let ?b = "b1\<lparr>tailChunk := Some c, headChunk := Some c, tailIdx := 0, headIdx := 0\<rparr>"
    have "push_room pick b = Some ?b" using 1 assms(1) g by (simp add: push_room_def buf_core_def)
    moreover have "buf_core ?b [c] xs"
      using 1 assms(1) G by (auto simp: buf_core_def mem_ok_def pool_clean_def slots_ok_def slot_def clean_chunk_def)
    ultimately show ?thesis using G(10) by fastforce
  next
    case 2
    then show ?thesis using assms(1) by (auto simp: push_room_def buf_core_def)
  next
    case 3
    have ch0: "chain (chunkMem b1) (headChunk b) cs"
      using assms(1) G(4) chain_cong [of cs "chunkMem b1" "chunkMem b"] by (simp add: buf_core_def)
    then obtain lch where l: "chunkMem b1 (last cs) = Some lch" using 3(1) chain_mem last_in_set by blast
    define b2 where "b2 = b1\<lparr>chunkMem := (chunkMem b1)(last cs \<mapsto> lch\<lparr>cnext := Some c\<rparr>)\<rparr>"
    let ?b = "b2\<lparr>tailChunk := Some c, tailIdx := 0\<rparr>"
    have r: "push_room pick b = Some ?b"
      using 3 assms(1) g G(6) l by (simp add: push_room_def buf_core_def set_next_def b2_def)
    have lp: "last cs \<notin> set (chunkPool b1)" "distinct (cs @ [c])"
      using G(1) last_in_set [OF 3(1)] by (auto simp: mem_ok_def)
    have "mem_ok ?b (cs @ [c])"
      using G(1) lp by (auto simp: mem_ok_def pool_clean_def b2_def)
    moreover have "chain (chunkMem ?b) (headChunk ?b) (cs @ [c])"
      using chain_snoc [OF ch0 3(1) l G(2) _ lp(2)] G(3,5) by (simp add: b2_def clean_chunk_def)
    moreover have "slots_ok (chunkMem ?b) (cs @ [c]) (headIdx ?b) xs"
    proof -
      have sz: "headIdx b1 + length xs \<le> length cs * taskChunkSize"
        using assms(1) 3 G(7) by (cases cs) (auto simp: buf_core_def)
      have "slots_ok (chunkMem b1) cs (headIdx b1) xs"
        using assms(1) G(4,7) slots_ok_cong [of cs "chunkMem b1" "chunkMem b"] by (simp add: buf_core_def)
      then have "slots_ok (chunkMem b1) (cs @ [c]) (headIdx b1) xs"
        using sz G(2,3) by (rule slots_snoc_clean)
      moreover have "map_option ctasks (chunkMem b1 a) = map_option ctasks (chunkMem b2 a)" for a
        by (simp add: b2_def l)
      ultimately show ?thesis
        using slots_ok_cong [of "cs @ [c]" "chunkMem b1" "chunkMem b2"] by (simp add: b2_def)
    qed
    ultimately have "buf_core ?b (cs @ [c]) xs"
      using assms(1) 3 G(7,9) by (cases cs) (auto simp: buf_core_def b2_def)
    then show ?thesis using r G(10) by (auto simp: b2_def)
  qed
qed

lemma slots_update:
  assumes "slots_ok m cs h xs" and "distinct cs" and "i < length cs" and "j < taskChunkSize" and "m (cs ! i) = Some ch"
    and "\<And>p. slot xs' h' p = (if p = i * taskChunkSize + j then t else slot xs h p)"
  shows "slots_ok (m(cs ! i \<mapsto> ch\<lparr>ctasks := (ctasks ch)(j := t)\<rparr>)) cs h' xs'"
  unfolding slots_ok_def
proof (intro allI impI)
  fix i' ch' j'
  assume i': "i' < length cs" and j': "j' < taskChunkSize"
    and m: "(m(cs ! i \<mapsto> ch\<lparr>ctasks := (ctasks ch)(j := t)\<rparr>)) (cs ! i') = Some ch'"
  have eq: "i' * taskChunkSize + j' = i * taskChunkSize + j \<longleftrightarrow> i' = i \<and> j' = j"
    using assms(4) j' by (metis add.commute add_left_cancel div_mult_self3 div_less add_0 mult.commute taskChunkSize_pos less_numeral_extra(3))
  have "cs ! i' = cs ! i \<longleftrightarrow> i' = i" using assms(2,3) i' by (simp add: nth_eq_iff_index_eq)
  then show "ctasks ch' j' = slot xs' h' (i' * taskChunkSize + j')"
    using assms(1,5) i' j' m unfolding assms(6) eq slots_ok_def by (auto split: if_splits)
qed

lemma pushTail_ok:
  assumes "buf_rep b xs"
  shows "\<exists>b'. pushTail pick t b = Some b' \<and> buf_rep b' (xs @ [t]) \<and> overflowClosed b' = overflowClosed b"
proof -
  obtain b1 cs where b1: "push_room pick b = Some b1" "buf_core b1 cs xs" "cs \<noteq> []" "tailIdx b1 < taskChunkSize"
    "overflowClosed b1 = overflowClosed b"
    using assms push_room_ok unfolding buf_rep_def by metis
  let ?i = "length cs - 1"
  have l: "last cs = cs ! ?i" "?i < length cs" using b1(3) by (simp_all add: last_conv_nth)
  have core: "mem_ok b1 cs" "chain (chunkMem b1) (headChunk b1) cs" "tailChunk b1 = Some (last cs)"
    "slots_ok (chunkMem b1) cs (headIdx b1) xs" "chunkLen b1 = int (length xs)"
    "headIdx b1 \<le> taskChunkSize" "headIdx b1 + length xs = ?i * taskChunkSize + tailIdx b1"
    using b1(2,3) by (simp_all add: buf_core_def)
  obtain ch where ch: "chunkMem b1 (cs ! ?i) = Some ch"
    using chain_mem [OF core(2)] l nth_mem by blast
  define m' where "m' = (chunkMem b1)(cs ! ?i \<mapsto> ch\<lparr>ctasks := (ctasks ch)(tailIdx b1 := t)\<rparr>)"
  define b' where "b' = b1\<lparr>chunkMem := m', tailIdx := tailIdx b1 + 1, chunkLen := chunkLen b1 + 1\<rparr>"
  have r: "pushTail pick t b = Some b'"
    using b1(1,4) core(3) ch l(1) by (simp add: pushTail_def set_slot_def b'_def m'_def)
  have "slots_ok m' cs (headIdx b1) (xs @ [t])"
    unfolding m'_def
  proof (rule slots_update [OF core(4) _ l(2) b1(4) ch])
    show "slot (xs @ [t]) (headIdx b1) p = (if p = ?i * taskChunkSize + tailIdx b1 then t else slot xs (headIdx b1) p)" for p
      unfolding core(7) [symmetric] by (auto simp: slot_def nth_append)
  qed (use core(1) in \<open>simp add: mem_ok_def\<close>)
  moreover have "chain m' (headChunk b1) cs"
    using core(2) by (subst chain_cong [of cs m' "chunkMem b1"]) (use ch in \<open>simp_all add: m'_def\<close>)
  moreover have "mem_ok b' cs"
    using core(1) nth_mem [OF l(2)] by (auto simp: mem_ok_def pool_clean_def b'_def m'_def)
  ultimately have "buf_core b' cs (xs @ [t])"
    using core b1(3,4) by (simp add: buf_core_def b'_def)
  then show ?thesis using r b1(5) by (auto simp: buf_rep_def b'_def)
qed

section \<open>Popping\<close>

lemma recycle_ok:
  assumes "mem_ok b (c # cs)" and "chunkMem b c = Some ch" and "\<forall>j<taskChunkSize. ctasks ch j = None"
  shows "\<exists>b1. recycle c b = Some b1 \<and> mem_ok b1 cs \<and> (\<forall>a\<in>set cs. chunkMem b1 a = chunkMem b a) \<and>
           headChunk b1 = headChunk b \<and> tailChunk b1 = tailChunk b \<and> headIdx b1 = headIdx b \<and>
           tailIdx b1 = tailIdx b \<and> chunkLen b1 = chunkLen b \<and> overflowClosed b1 = overflowClosed b"
  using assms by (auto simp: recycle_def set_next_def mem_ok_def pool_clean_def clean_chunk_def sync_Pool_Put_def)

lemma slots_tl:
  assumes "slots_ok m (c # cs) taskChunkSize xs"
  shows "slots_ok m cs 0 xs"
proof -
  have "slot xs taskChunkSize (Suc i * taskChunkSize + j) = slot xs 0 (i * taskChunkSize + j)" for i j
    by (simp add: slot_def)
  then show ?thesis using assms unfolding slots_ok_def by (metis Suc_less_eq length_Cons nth_Cons_Suc)
qed

text \<open>An exhausted head chunk is empty when it is recycled, and the queue starts in the next one.\<close>

lemma peek_advance_ok:
  assumes "buf_core b (c # cs) xs" and "0 < tailIdx b"
  shows "\<exists>b1 cs1. peek_advance c b = Some b1 \<and> buf_core b1 cs1 xs \<and> (cs1 \<noteq> [] \<longrightarrow> 0 < tailIdx b1 \<and> headIdx b1 < taskChunkSize) \<and>
           overflowClosed b1 = overflowClosed b"
proof (cases "taskChunkSize \<le> headIdx b")
  case True
  have core: "mem_ok b (c # cs)" "headIdx b = taskChunkSize" "slots_ok (chunkMem b) (c # cs) taskChunkSize xs"
    "chunkLen b = int (length xs)" "tailIdx b \<le> taskChunkSize"
    "taskChunkSize + length xs = length cs * taskChunkSize + tailIdx b" "tailChunk b = Some (last (c # cs))"
    using assms(1) True by (auto simp: buf_core_def)
  obtain ch where ch: "chunkMem b c = Some ch" "chain (chunkMem b) (cnext ch) cs"
    using assms(1) by (auto simp: buf_core_def)
  have "ctasks ch j = None" if "j < taskChunkSize" for j
    using core(3) ch(1) that by (auto simp: slots_ok_def slot_def dest!: spec [of _ 0])
  then obtain b1 where b1: "recycle c b = Some b1" "mem_ok b1 cs" "\<forall>a\<in>set cs. chunkMem b1 a = chunkMem b a"
      "headChunk b1 = headChunk b" "tailChunk b1 = tailChunk b" "headIdx b1 = headIdx b"
      "tailIdx b1 = tailIdx b" "chunkLen b1 = chunkLen b" "overflowClosed b1 = overflowClosed b"
    using recycle_ok [OF core(1) ch(1)] by blast
  have cs: "cnext ch = None \<longleftrightarrow> cs = []" using ch(2) by (cases cs) auto
  define b2 where "b2 = (let b2 = b1\<lparr>headChunk := cnext ch, headIdx := 0\<rparr>
                      in if cnext ch = None then b2\<lparr>tailChunk := None, tailIdx := 0\<rparr> else b2)"
  have r: "peek_advance c b = Some b2" using True ch(1) b1(1) by (simp add: peek_advance_def b2_def Let_def)
  have "mem_ok b2 cs" using b1(2) by (simp add: mem_ok_def pool_clean_def b2_def Let_def)
  moreover have "chain (chunkMem b2) (headChunk b2) cs"
    using ch(2) b1(3) chain_cong [of cs "chunkMem b1" "chunkMem b"] by (auto simp: b2_def Let_def)
  moreover have "slots_ok (chunkMem b2) cs (headIdx b2) xs"
    using slots_tl [OF core(3)] b1(3) slots_ok_cong [of cs "chunkMem b1" "chunkMem b"] by (simp add: b2_def Let_def)
  moreover have "cs = [] \<longrightarrow> xs = []" using core(5,6) by (cases xs) auto
  ultimately have "buf_core b2 cs xs"
    using core b1(5,7,8) cs by (cases cs) (auto simp: buf_core_def b2_def Let_def)
  then show ?thesis using r b1(7,9) cs assms(2) by (auto simp: b2_def Let_def)
qed (use assms in \<open>auto simp: peek_advance_def\<close>)

definition head_state :: "'a chunkedTaskBuffer \<Rightarrow> 'a option list \<Rightarrow> bool" where
  "head_state b xs \<longleftrightarrow> (\<exists>c cs. buf_core b (c # cs) xs \<and> 0 < tailIdx b \<and> headIdx b < taskChunkSize)"

lemma head_state_rep: "head_state b xs \<Longrightarrow> buf_rep b xs"
  by (auto simp: head_state_def buf_rep_def)

lemma peekHead_ok:
  assumes "buf_rep b xs"
  shows "\<exists>b'. peekHead b = Some (case xs of [] \<Rightarrow> (None, False) | x # _ \<Rightarrow> (x, True), b') \<and>
           buf_rep b' xs \<and> (xs \<noteq> [] \<longrightarrow> head_state b' xs) \<and> overflowClosed b' = overflowClosed b"
proof -
  obtain cs where cs: "buf_core b cs xs" "cs \<noteq> [] \<longrightarrow> 0 < tailIdx b" using assms by (auto simp: buf_rep_def)
  show ?thesis
  proof (cases cs)
    case Nil
    then show ?thesis using cs assms by (auto simp: peekHead_def buf_core_def)
  next
    case (Cons c cs')
    obtain b1 cs1 where b1: "peek_advance c b = Some b1" "buf_core b1 cs1 xs"
      "cs1 \<noteq> [] \<longrightarrow> 0 < tailIdx b1 \<and> headIdx b1 < taskChunkSize" "overflowClosed b1 = overflowClosed b"
      using peek_advance_ok [of b c cs' xs] cs Cons by auto
    have hd: "headChunk b = Some c" using cs Cons by (auto simp: buf_core_def)
    show ?thesis
    proof (cases cs1)
      case Nil
      then show ?thesis using b1 hd by (auto simp: peekHead_def buf_core_def buf_rep_def)
    next
      case (Cons c1 cs2)
      have core: "mem_ok b1 (c1 # cs2)" "headChunk b1 = Some c1" "tailChunk b1 = Some (last (c1 # cs2))"
        "slots_ok (chunkMem b1) (c1 # cs2) (headIdx b1) xs"
        "headIdx b1 + length xs = length cs2 * taskChunkSize + tailIdx b1" "chunkLen b1 = int (length xs)"
        and t: "0 < tailIdx b1" "headIdx b1 < taskChunkSize" "tailIdx b1 \<le> taskChunkSize"
        using b1 Cons by (auto simp: buf_core_def)
      obtain ch where ch: "chunkMem b1 c1 = Some ch" using b1(2) Cons by (auto simp: buf_core_def)
      have s0: "ctasks ch j = slot xs (headIdx b1) j" if "j < taskChunkSize" for j
        using core(4) ch that by (auto simp: slots_ok_def dest!: spec [of _ 0])
      have last: "last (c1 # cs2) = c1 \<longleftrightarrow> cs2 = []"
        using core(1) last_in_set [of cs2] by (auto simp: mem_ok_def)
      have "taskChunkSize \<le> length cs2 * taskChunkSize" if "cs2 \<noteq> []" using that by (cases cs2) auto
      then have "0 < length xs" if "cs2 \<noteq> []" using that core(5) t by linarith
      then have emp: "xs = [] \<longleftrightarrow> c1 = last (c1 # cs2) \<and> tailIdx b1 \<le> headIdx b1"
        using core(5) last by (cases "cs2 = []"; cases xs) auto
      show ?thesis
      proof (cases xs)
        case Nil
        then obtain b2 where b2: "recycle c1 b1 = Some b2" "mem_ok b2 cs2" "chunkLen b2 = chunkLen b1"
            "overflowClosed b2 = overflowClosed b1"
          using recycle_ok [OF core(1) ch] s0 by (auto simp: slot_def)
        let ?b = "b2\<lparr>headChunk := None, tailChunk := None, headIdx := 0, tailIdx := 0\<rparr>"
        have "peekHead b = Some ((None, False), ?b)"
          using hd b1(1) core(2,3) b2(1) emp Nil by (simp add: peekHead_def)
        moreover have "buf_core ?b [] xs"
          using b2 Nil core(6) emp last by (simp add: buf_core_def mem_ok_def pool_clean_def slots_ok_def)
        ultimately show ?thesis using Nil b2(4) b1(4) by (auto simp: buf_rep_def)
      next
        case (Cons x xs')
        then have "peekHead b = Some ((ctasks ch (headIdx b1), True), b1)"
          using hd b1(1) core(2,3) ch emp t by (auto simp: peekHead_def)
        moreover have "ctasks ch (headIdx b1) = x" using s0 [OF t(2)] Cons by (simp add: slot_def)
        moreover have "head_state b1 xs" using b1(2) \<open>cs1 = c1 # cs2\<close> t by (auto simp: head_state_def)
        ultimately show ?thesis using Cons b1(4) head_state_rep by auto
      qed
    qed
  qed
qed

lemma popHead_ok:
  assumes "buf_rep b xs"
  shows "\<exists>b'. popHead b = Some (case xs of [] \<Rightarrow> (None, False) | x # _ \<Rightarrow> (x, True), b') \<and>
           buf_rep b' (tl xs) \<and> overflowClosed b' = overflowClosed b"
proof -
  obtain b1 where b1: "peekHead b = Some (case xs of [] \<Rightarrow> (None, False) | x # _ \<Rightarrow> (x, True), b1)"
      "buf_rep b1 xs" "xs \<noteq> [] \<longrightarrow> head_state b1 xs" "overflowClosed b1 = overflowClosed b"
    using peekHead_ok [OF assms] by blast
  show ?thesis
  proof (cases xs)
    case Nil
    then show ?thesis using b1 by (simp add: popHead_def)
  next
    case (Cons x xs')
    then obtain c cs where h: "buf_core b1 (c # cs) xs" "0 < tailIdx b1" "headIdx b1 < taskChunkSize"
      using b1(3) by (auto simp: head_state_def)
    have core: "mem_ok b1 (c # cs)" "headChunk b1 = Some c" "chain (chunkMem b1) (Some c) (c # cs)"
      "slots_ok (chunkMem b1) (c # cs) (headIdx b1) xs" "chunkLen b1 = int (length xs)"
      using h(1) by (auto simp: buf_core_def)
    obtain ch where ch: "chunkMem b1 ((c # cs) ! 0) = Some ch" using core(3) by auto
    define m' where "m' = (chunkMem b1)((c # cs) ! 0 \<mapsto> ch\<lparr>ctasks := (ctasks ch)(headIdx b1 := None)\<rparr>)"
    define b' where "b' = b1\<lparr>chunkMem := m', headIdx := headIdx b1 + 1, chunkLen := chunkLen b1 - 1\<rparr>"
    have r: "popHead b = Some ((x, True), b')"
      using b1(1) Cons core(2) ch h(3) by (simp add: popHead_def set_slot_def b'_def m'_def)
    have "slots_ok m' (c # cs) (headIdx b1 + 1) xs'"
      unfolding m'_def
    proof (rule slots_update [OF core(4) _ _ h(3) ch])
      show "slot xs' (headIdx b1 + 1) p = (if p = 0 * taskChunkSize + headIdx b1 then None else slot xs (headIdx b1) p)" for p
        using Cons by (auto simp: slot_def nth_Cons' )
    qed (use core(1) in \<open>simp_all add: mem_ok_def\<close>)
    moreover have "chain m' (Some c) (c # cs)"
      using core(3) by (subst chain_cong [of "c # cs" m' "chunkMem b1"]) (use ch in \<open>simp_all add: m'_def\<close>)
    moreover have "mem_ok b' (c # cs)"
      using core(1) by (auto simp: mem_ok_def pool_clean_def b'_def m'_def)
    ultimately have "buf_core b' (c # cs) xs'"
      using h core(2,5) Cons by (simp add: buf_core_def b'_def)
    then have "buf_rep b' xs'" using h(2) by (auto simp: buf_rep_def b'_def)
    then show ?thesis using r Cons b1(4) by (simp add: b'_def)
  qed
qed

lemma batch_loop_ok:
  assumes "buf_rep b xs" and "n \<le> length dst"
  shows "\<exists>b'. batch_loop n dst b =
             Some (n + min (length dst - n) (length xs),
                   take n dst @ take (length dst - n) xs @ drop (n + length xs) dst, b') \<and>
           buf_rep b' (drop (length dst - n) xs) \<and> overflowClosed b' = overflowClosed b"
  using assms
proof (induction "length dst - n" arbitrary: n dst b xs)
  case 0
  then show ?case by (simp add: batch_loop.simps [of n dst b])
next
  case (Suc k)
  then have n: "n < length dst" by simp
  obtain b1 where b1: "popHead b = Some (case xs of [] \<Rightarrow> (None, False) | x # _ \<Rightarrow> (x, True), b1)"
      "buf_rep b1 (tl xs)" "overflowClosed b1 = overflowClosed b"
    using popHead_ok [OF Suc.prems(1)] by blast
  show ?case
  proof (cases xs)
    case Nil
    then show ?thesis using n b1 by (simp add: batch_loop.simps [of n dst b])
  next
    case (Cons x xs')
    have k: "k = length (dst[n := x]) - (n + 1)" "n + 1 \<le> length (dst[n := x])" "length dst - n = Suc k"
      using Suc.hyps(2) n by simp_all
    obtain b' where b': "batch_loop (n + 1) (dst[n := x]) b1 =
        Some (n + 1 + min k (length xs'), take (n + 1) (dst[n := x]) @ take k xs' @ drop (n + 1 + length xs') (dst[n := x]), b')"
        "buf_rep b' (drop k xs')" "overflowClosed b' = overflowClosed b1"
      using Suc.hyps(1) [OF k(1) _ k(2), of b1 xs'] b1(2) Cons k(1) by auto
    have "batch_loop n dst b = batch_loop (n + 1) (dst[n := x]) b1"
      using n b1(1) Cons by (simp add: batch_loop.simps [of n dst b])
    then show ?thesis using b' b1(3) Cons n k(3) by (simp add: take_Suc_update)
  qed
qed

lemma PopBatch_ok:
  assumes "buf_rep b xs"
  shows "\<exists>b'. PopBatch dst b =
             Some (min (length dst) (length xs), take (length dst) xs @ drop (length xs) dst, b') \<and>
           buf_rep b' (drop (length dst) xs) \<and> overflowClosed b' = overflowClosed b"
  using batch_loop_ok [OF assms, of 0 dst] by (simp add: PopBatch_def)

section \<open>PushAndForward against a queue\<close>

fun queue_push :: "'a option \<Rightarrow> ('a option \<Rightarrow> 's \<Rightarrow> bool \<times> 's) \<Rightarrow> bool \<Rightarrow> 'a option list \<Rightarrow> 's \<Rightarrow>
    taskBufferPushResult \<times> 'a option list \<times> 's" where
  "queue_push t fwd closed xs s =
     (if closed then (taskBufferClosed, xs, s)
      else if maxChunkLen \<le> int (length xs) then (taskBufferFull, xs, s)
      else let ys = xs @ [t]; (sent, s') = fwd (hd ys) s
           in (taskBufferAccepted, if sent then tl ys else ys, s'))"

lemma PushAndForward_ok:
  assumes "buf_rep b xs" and "queue_push t fwd (overflowClosed b) xs s = (r, xs', s')"
  shows "\<exists>b'. PushAndForward pick t fwd (b, s) = Some (r, b', s') \<and> buf_rep b' xs' \<and>
           overflowClosed b' = overflowClosed b"
proof (cases "overflowClosed b \<or> maxChunkLen \<le> chunkLen b")
  case True
  then show ?thesis
    using assms buf_rep_len [OF assms(1)] by (auto simp: PushAndForward_def split: if_splits)
next
  case False
  let ?ys = "xs @ [t]"
  obtain b1 where b1: "pushTail pick t b = Some b1" "buf_rep b1 ?ys" "overflowClosed b1 = overflowClosed b"
    using pushTail_ok [OF assms(1)] by blast
  have ys: "(case ?ys of [] \<Rightarrow> (None, False) | x # _ \<Rightarrow> (x, True)) = (hd ?ys, True)" by (cases xs) auto
  obtain b2 where b2: "peekHead b1 = Some ((hd ?ys, True), b2)" "buf_rep b2 ?ys" "overflowClosed b2 = overflowClosed b"
    using peekHead_ok [OF b1(2)] b1(3) unfolding ys by auto
  obtain b3 where b3: "popHead b2 = Some ((hd ?ys, True), b3)" "buf_rep b3 (tl ?ys)" "overflowClosed b3 = overflowClosed b"
    using popHead_ok [OF b2(2)] b2(3) unfolding ys by auto
  obtain sent s1 where f: "fwd (hd ?ys) s = (sent, s1)" by fastforce
  have q: "r = taskBufferAccepted" "xs' = (if sent then tl ?ys else ?ys)" "s' = s1"
    using assms(2) False buf_rep_len [OF assms(1)] f by (auto simp: Let_def)
  show ?thesis
    using False b1(1) b2 b3 f unfolding q by (auto simp: PushAndForward_def Let_def)
qed

section \<open>The contract of the buffer\<close>

text \<open>
  A history of the buffer: submitters push (the callback forwards the head of the queue
  when its \<open>bool\<close> is true), workers pop batches, \<^verbatim>\<open>Close\<close> stops new pushes. The log
  records the tasks that were accepted and, in order of departure, the tasks that left.
\<close>

datatype 'a buf_op = BPush "nat option" "'a option" bool | BPop nat | BClose

definition log_forward :: "bool \<Rightarrow> 'a option \<Rightarrow> 'a option list \<Rightarrow> bool \<times> 'a option list" where
  "log_forward sent t out = (sent, if sent then out @ [t] else out)"

fun buf_call ::
  "(nat option \<Rightarrow> 'a option \<Rightarrow> ('a option \<Rightarrow> 'a option list \<Rightarrow> bool \<times> 'a option list) \<Rightarrow>
        'b \<times> 'a option list \<Rightarrow> (taskBufferPushResult \<times> 'b \<times> 'a option list) option) \<Rightarrow>
   ('a option list \<Rightarrow> 'b \<Rightarrow> (nat \<times> 'a option list \<times> 'b) option) \<Rightarrow> ('b \<Rightarrow> 'b) \<Rightarrow>
   'a buf_op \<Rightarrow> 'b \<times> 'a option list \<times> 'a option list \<Rightarrow> ('b \<times> 'a option list \<times> 'a option list) option" where
  "buf_call push pop shut (BPush pick t sent) (b, acc, out) =
     map_option (\<lambda>(r, b', out'). (b', if r = taskBufferAccepted then acc @ [t] else acc, out'))
       (push pick t (log_forward sent) (b, out))"
| "buf_call push pop shut (BPop n) (b, acc, out) =
     map_option (\<lambda>(k, dst, b'). (b', acc, out @ take k dst)) (pop (replicate n None) b)"
| "buf_call push pop shut BClose (b, acc, out) = Some (shut b, acc, out)"

fun buf_run ::
  "(nat option \<Rightarrow> 'a option \<Rightarrow> ('a option \<Rightarrow> 'a option list \<Rightarrow> bool \<times> 'a option list) \<Rightarrow>
        'b \<times> 'a option list \<Rightarrow> (taskBufferPushResult \<times> 'b \<times> 'a option list) option) \<Rightarrow>
   ('a option list \<Rightarrow> 'b \<Rightarrow> (nat \<times> 'a option list \<times> 'b) option) \<Rightarrow> ('b \<Rightarrow> 'b) \<Rightarrow>
   'a buf_op list \<Rightarrow> 'b \<times> 'a option list \<times> 'a option list \<Rightarrow> ('b \<times> 'a option list \<times> 'a option list) option" where
  "buf_run push pop shut [] s = Some s"
| "buf_run push pop shut (x # ops) s =
     (case buf_call push pop shut x s of None \<Rightarrow> None | Some s' \<Rightarrow> buf_run push pop shut ops s')"

locale task_buffer =
  fixes rep :: "'b \<Rightarrow> 'a option list \<Rightarrow> bool"
    and closed :: "'b \<Rightarrow> bool"
    and push :: "nat option \<Rightarrow> 'a option \<Rightarrow> ('a option \<Rightarrow> 'a option list \<Rightarrow> bool \<times> 'a option list) \<Rightarrow>
        'b \<times> 'a option list \<Rightarrow> (taskBufferPushResult \<times> 'b \<times> 'a option list) option"
    and pop :: "'a option list \<Rightarrow> 'b \<Rightarrow> (nat \<times> 'a option list \<times> 'b) option"
    and len :: "'b \<Rightarrow> int"
    and shut :: "'b \<Rightarrow> 'b"
  assumes push_law: "rep b xs \<Longrightarrow> queue_push t fwd (closed b) xs s = (r, xs', s') \<Longrightarrow>
        \<exists>b'. push pick t fwd (b, s) = Some (r, b', s') \<and> rep b' xs' \<and> closed b' = closed b"
    and pop_law: "rep b xs \<Longrightarrow>
        \<exists>b'. pop dst b = Some (min (length dst) (length xs), take (length dst) xs @ drop (length xs) dst, b') \<and>
             rep b' (drop (length dst) xs) \<and> closed b' = closed b"
    and len_law: "rep b xs \<Longrightarrow> len b = int (length xs)"
    and shut_law: "rep b xs \<Longrightarrow> rep (shut b) xs \<and> closed (shut b)"
begin

lemma call_fifo:
  assumes "rep b xs" and "acc = out @ xs"
  shows "\<exists>b' xs' acc' out'. buf_call push pop shut x (b, acc, out) = Some (b', acc', out') \<and> rep b' xs' \<and> acc' = out' @ xs' \<and>
           (closed b \<longrightarrow> closed b' \<and> acc' = acc) \<and>
           (int (length xs) \<le> maxChunkLen \<longrightarrow> int (length xs') \<le> maxChunkLen)"
proof (cases x)
  case (BPush pick t sent)
  obtain r xs' out' where q: "queue_push t (log_forward sent) (closed b) xs out = (r, xs', out')"
    using prod_cases3 by blast
  obtain b' where b': "push pick t (log_forward sent) (b, out) = Some (r, b', out')" "rep b' xs'" "closed b' = closed b"
    using push_law [OF assms(1) q] by blast
  have "(if r = taskBufferAccepted then acc @ [t] else acc) = out' @ xs' \<and> (closed b \<longrightarrow> r \<noteq> taskBufferAccepted) \<and>
      (int (length xs) \<le> maxChunkLen \<longrightarrow> int (length xs') \<le> maxChunkLen)"
    using q assms(2) by (cases xs) (auto simp: log_forward_def Let_def split: if_splits)
  then show ?thesis using b' BPush by auto
next
  case (BPop n)
  obtain b' where "pop (replicate n None) b = Some (min n (length xs), take n xs @ drop (length xs) (replicate n None), b')"
      "rep b' (drop n xs)" "closed b' = closed b"
    using pop_law [OF assms(1), of "replicate n None"] by auto
  then show ?thesis using BPop assms(2) by (cases "n \<le> length xs") auto
next
  case BClose
  then show ?thesis using assms shut_law [OF assms(1)] by auto
qed

lemma run_fifo:
  assumes "rep b xs" and "acc = out @ xs" and "int (length xs) \<le> maxChunkLen"
  shows "\<exists>b' xs' acc' out'. buf_run push pop shut ops (b, acc, out) = Some (b', acc', out') \<and> rep b' xs' \<and> acc' = out' @ xs' \<and>
           len b' = int (length xs') \<and> len b' \<le> maxChunkLen"
  using assms
proof (induction ops arbitrary: b xs acc out)
  case Nil
  then show ?case using len_law by auto
next
  case (Cons x ops)
  obtain b' xs' acc' out' where "buf_call push pop shut x (b, acc, out) = Some (b', acc', out')" "rep b' xs'" "acc' = out' @ xs'"
      "int (length xs') \<le> maxChunkLen"
    using call_fifo [OF Cons.prems(1,2)] Cons.prems(3) by blast
  then show ?case using Cons.IH by auto
qed

lemma run_closed:
  assumes "rep b xs" and "acc = out @ xs" and "closed b" and "buf_run push pop shut ops (b, acc, out) = Some (b', acc', out')"
  shows "acc' = acc"
  using assms
proof (induction ops arbitrary: b xs acc out)
  case (Cons x ops)
  obtain b1 xs1 acc1 out1 where "buf_call push pop shut x (b, acc, out) = Some (b1, acc1, out1)" "rep b1 xs1" "acc1 = out1 @ xs1"
      "closed b1" "acc1 = acc"
    using call_fifo [OF Cons.prems(1,2), of x] Cons.prems(3) by blast
  then show ?case using Cons.IH [of b1 xs1 acc1 out1] Cons.prems(4) by simp
qed simp

end

interpretation tbuf: task_buffer buf_rep overflowClosed PushAndForward PopBatch buffer_Len buffer_Close
proof
  fix b :: "'a chunkedTaskBuffer" and xs
  assume r: "buf_rep b xs"
  show "buffer_Len b = int (length xs)" using buf_rep_len [OF r] by (simp add: buf_defs)
  show "buf_rep (buffer_Close b) xs \<and> overflowClosed (buffer_Close b)"
    using r by (simp add: buffer_Close_def)
qed (simp_all add: PushAndForward_ok PopBatch_ok)

section \<open>Properties\<close>

text \<open>
  C15. The overflow buffer is a first-in first-out queue. Whatever history of pushes,
  forwards, batch pops and closings is run on a new buffer, it does not panic, the tasks
  that left it are, in order, the oldest accepted ones, the rest is what it still
  represents, and \<^verbatim>\<open>Len\<close> counts them and stays within \<^verbatim>\<open>maxChunkLen\<close>.
\<close>

theorem buffer_fifo:
  "\<exists>b xs acc out.
     buf_run PushAndForward PopBatch buffer_Close ops (newChunkedTaskBuffer, [], []) = Some (b, acc, out) \<and>
     buf_rep b xs \<and> acc = out @ xs \<and> buffer_Len b = int (length xs) \<and> buffer_Len b \<le> maxChunkLen"
  using tbuf.run_fifo [OF new_rep, of "[]" "[]" ops] by (simp add: maxChunkLen_def)

text \<open>
  After \<^verbatim>\<open>Close\<close> nothing is accepted any more, while what was accepted before can
  still be popped.
\<close>

theorem buffer_close_rejects:
  assumes "buf_run PushAndForward PopBatch buffer_Close ops (newChunkedTaskBuffer, [], []) = Some (b, acc, out)"
    and "buf_run PushAndForward PopBatch buffer_Close ops' (buffer_Close b, acc, out) = Some (b', acc', out')"
  shows "acc' = acc \<and> (\<exists>xs. buf_rep b' xs \<and> acc = out' @ xs)"
proof -
  obtain xs where b: "buf_rep b xs" "acc = out @ xs" "int (length xs) \<le> maxChunkLen"
    using tbuf.run_fifo [OF new_rep, of "[]" "[]" ops] assms(1) by (auto simp: maxChunkLen_def)
  have c: "buf_rep (buffer_Close b) xs" "overflowClosed (buffer_Close b)"
    using tbuf.shut_law [OF b(1)] by simp_all
  have "acc' = acc" by (rule tbuf.run_closed [OF c(1) b(2) c(2) assms(2)])
  moreover have "\<exists>xs. buf_rep b' xs \<and> acc' = out' @ xs"
    using tbuf.run_fifo [OF c(1) b(2,3), of ops'] assms(2) by auto
  ultimately show ?thesis by simp
qed

lemma buf_run_example:
  "buf_run PushAndForward PopBatch buffer_Close [BPush None (Some (1::nat)) False]
     (newChunkedTaskBuffer, [], []) =
   Some (\<lparr>headChunk = Some 0, tailChunk = Some 0, headIdx = 0, tailIdx = 1, chunkLen = 1, overflowClosed = False,
          chunkPool = [], chunkMem = [0 \<mapsto> \<lparr>ctasks = (\<lambda>_. None)(0 := Some 1), cnext = None\<rparr>], chunkFresh = 1\<rparr>,
         [Some 1], [])"
  by (simp add: newChunkedTaskBuffer_def PushAndForward_def pushTail_def push_room_def chunk_Get_def
      sync_Pool_Get_def set_slot_def peekHead_def peek_advance_def log_forward_def taskChunkSize_def maxChunkLen_def)

theorem buffer_close_rejects_witness:
  "\<exists>b b' out'.
     buf_run PushAndForward PopBatch buffer_Close [BPush None (Some (1::nat)) False] (newChunkedTaskBuffer, [], []) =
       Some (b, [Some 1], []) \<and>
     buf_run PushAndForward PopBatch buffer_Close [BPush None (Some 2) True, BPop 3] (buffer_Close b, [Some 1], []) =
       Some (b', [Some 1], out') \<and>
     (\<exists>xs. buf_rep b' xs \<and> [Some 1] = out' @ xs)"
proof -
  obtain b where b: "buf_run PushAndForward PopBatch buffer_Close [BPush None (Some (1::nat)) False]
      (newChunkedTaskBuffer, [], []) = Some (b, [Some 1], [])"
    using buf_run_example by blast
  obtain xs where r: "buf_rep b xs" "[Some 1] = [] @ xs" "int (length xs) \<le> maxChunkLen"
    using tbuf.run_fifo [OF new_rep, of "[]" "[]" "[BPush None (Some (1::nat)) False]"] b
    by (auto simp: maxChunkLen_def)
  have c: "buf_rep (buffer_Close b) xs" using tbuf.shut_law [OF r(1)] by simp
  obtain b' acc' out' where b': "buf_run PushAndForward PopBatch buffer_Close [BPush None (Some 2) True, BPop 3]
      (buffer_Close b, [Some 1], []) = Some (b', acc', out')"
    using tbuf.run_fifo [OF c r(2,3), of "[BPush None (Some 2) True, BPop 3]"] by blast
  from buffer_close_rejects [OF b b'] b b' show ?thesis by blast
qed

text \<open>
  Recycling keeps no task alive: in every state a history reaches, each chunk in the
  chunk pool has nil in all its slots and a nil link.
\<close>

theorem buffer_recycled_chunks_clean:
  assumes "buf_run PushAndForward PopBatch buffer_Close ops (newChunkedTaskBuffer, [], []) = Some (b, acc, out)"
    and "c \<in> set (chunkPool b)"
  shows "\<exists>ch. chunkMem b c = Some ch \<and> cnext ch = None \<and> (\<forall>j<taskChunkSize. ctasks ch j = None)"
proof -
  obtain xs where "buf_rep b xs"
    using tbuf.run_fifo [OF new_rep, of "[]" "[]" ops] assms(1) by (auto simp: maxChunkLen_def)
  then show ?thesis
    using buf_rep_pool_clean assms(2) by (fastforce simp: pool_clean_def clean_chunk_def)
qed

lemma buf_run_recycle_example:
  "\<exists>b out. buf_run PushAndForward PopBatch buffer_Close [BPush None (Some (1::nat)) False, BPop 2]
     (newChunkedTaskBuffer, [], []) = Some (b, [Some 1], out) \<and> chunkPool b = [0]"
  by (simp add: newChunkedTaskBuffer_def PushAndForward_def pushTail_def push_room_def chunk_Get_def
      sync_Pool_Get_def sync_Pool_Put_def set_slot_def set_next_def recycle_def peekHead_def peek_advance_def
      popHead_def PopBatch_def batch_loop.simps log_forward_def taskChunkSize_def maxChunkLen_def numeral_2_eq_2)

theorem buffer_recycled_chunks_clean_witness:
  "\<exists>b out. buf_run PushAndForward PopBatch buffer_Close [BPush None (Some (1::nat)) False, BPop 2]
       (newChunkedTaskBuffer, [], []) = Some (b, [Some 1], out) \<and>
     (\<exists>ch. chunkMem b 0 = Some ch \<and> cnext ch = None \<and> (\<forall>j<taskChunkSize. ctasks ch j = None))"
proof -
  obtain b out where b: "buf_run PushAndForward PopBatch buffer_Close [BPush None (Some (1::nat)) False, BPop 2]
      (newChunkedTaskBuffer, [], []) = Some (b, [Some 1], out)" "chunkPool b = [0]"
    using buf_run_recycle_example by blast
  from buffer_recycled_chunks_clean [OF b(1), of 0] b show ?thesis by auto
qed

end
