(* ===== verification/Task.thy ===== *)
theory Task
  imports Go_Float
begin

text \<open>
  \<^verbatim>\<open>task.go\<close> and the task wrappers of \<^verbatim>\<open>pool.go\<close>. The functions a client
  puts into a task, its backoff strategies and its contexts are values of the parameter
  types \<open>'f\<close>, \<open>'b\<close>, \<open>'c\<close>; an environment says what running them does to a world of type
  \<open>'s\<close>. A computation ends in \<open>Ret\<close> or in a panic with a value.
\<close>

section \<open>Tasks\<close>

datatype ('a, 'v) outcome = Ret 'a | Panic 'v

record ('f, 'b) TaskWithRetry =
  MinBackOff :: duration
  MaxBackOff :: duration
  RetryNum :: "64 word"
  BackOffStrategy :: "'b option"
  retryTask :: "'f option"

text \<open>
  A \<^verbatim>\<open>Task\<close> interface value that is not the nil interface: the dynamic types of the
  package, \<open>None\<close> inside being a nil function or pointer, and the types a client
  defines. \<open>BeforeTask\<close> is the closure of type \<^verbatim>\<open>TaskFunc\<close> that \<^verbatim>\<open>SubmitBefore\<close>
  builds over its context and task.
\<close>

datatype ('f, 'b, 'c) Task =
    TaskFunc "'f option"
  | RetryTask "('f, 'b) TaskWithRetry option"
  | ContextTask "('c \<times> ('f, 'b, 'c) Task option) option"
  | BeforeTask 'c "('f, 'b, 'c) Task"
  | OtherTask 'f

definition NewTask :: "'f option \<Rightarrow> ('f, 'b, 'c) Task" where
  "NewTask fn = TaskFunc fn"

fun isNilTask :: "('f, 'b, 'c) Task option \<Rightarrow> bool" where
  "isNilTask None \<longleftrightarrow> True"
| "isNilTask (Some (TaskFunc t)) \<longleftrightarrow> t = None"
| "isNilTask (Some (RetryTask t)) \<longleftrightarrow> t = None"
| "isNilTask (Some (ContextTask None)) \<longleftrightarrow> True"
| "isNilTask (Some (ContextTask (Some (ctx, task)))) \<longleftrightarrow> isNilTask task"
| "isNilTask (Some _) \<longleftrightarrow> False"

section \<open>Running a task\<close>

record ('f, 'b, 'c, 'v, 's) task_env =
  execFn :: "'f \<Rightarrow> 's \<Rightarrow> (bool, 'v) outcome \<times> 's"
  backOffFn :: "'b \<Rightarrow> duration \<Rightarrow> duration \<Rightarrow> 64 word \<Rightarrow> 's \<Rightarrow> (duration, 'v) outcome \<times> 's"
  Sleep :: "duration \<Rightarrow> 's \<Rightarrow> 's"
  ctxErr :: "'c \<Rightarrow> 's \<Rightarrow> bool"
  ctxCancel :: "'c \<Rightarrow> 's \<Rightarrow> 's"
  Background :: 'c
  nilPanic :: 'v
  convert :: "float64 \<Rightarrow> int"

definition UpdateTask :: "('f, 'b, 'c, 'v, 's) task_env \<Rightarrow> 'c option \<Rightarrow> ('f, 'b, 'c) Task option \<Rightarrow> ('f, 'b, 'c) Task" where
  "UpdateTask env ctx task =
     ContextTask (Some (case ctx of None \<Rightarrow> Background env | Some c \<Rightarrow> c, task))"

definition call_fn :: "('f, 'b, 'c, 'v, 's) task_env \<Rightarrow> 'f option \<Rightarrow> 's \<Rightarrow> (bool, 'v) outcome \<times> 's" where
  "call_fn env fn s = (case fn of None \<Rightarrow> (Panic (nilPanic env), s) | Some f \<Rightarrow> execFn env f s)"

text \<open>
  \<^verbatim>\<open>defaultBackOffStrategy\<close>: \<^verbatim>\<open>math.Pow(2, float64(retryNum)) * float64(min)\<close>,
  clamped to \<^verbatim>\<open>max\<close> when it is not an \<^verbatim>\<open>int64\<close> or exceeds it.
\<close>

definition defaultBackOffStrategy :: "(float64 \<Rightarrow> int) \<Rightarrow> duration \<Rightarrow> duration \<Rightarrow> 64 word \<Rightarrow> duration" where
  "defaultBackOffStrategy oor mn mx retryNum =
     (let mult = f_mul (f_pow2 (unat retryNum)) (f_of_int mn); sleep = f_int64 oor mult
      in if \<not> f_eq (f_of_int sleep) mult \<or> mx < sleep then mx else sleep)"

definition getBackOffTime ::
  "('f, 'b, 'c, 'v, 's) task_env \<Rightarrow> ('f, 'b) TaskWithRetry \<Rightarrow> 64 word \<Rightarrow> 's \<Rightarrow> (duration, 'v) outcome \<times> 's" where
  "getBackOffTime env t retryNum s =
     (case BackOffStrategy t of
        Some b \<Rightarrow> backOffFn env b (MinBackOff t) (MaxBackOff t) retryNum s
      | None \<Rightarrow> (Ret (defaultBackOffStrategy (convert env) (MinBackOff t) (MaxBackOff t) retryNum), s))"

text \<open>
  The retry loop; \<^verbatim>\<open>int(t.RetryNum)\<close> reads the unsigned count as a signed number.
\<close>

function retry_loop ::
  "('f, 'b, 'c, 'v, 's) task_env \<Rightarrow> ('f, 'b) TaskWithRetry \<Rightarrow> int \<Rightarrow> 's \<Rightarrow> (unit, 'v) outcome \<times> 's" where
  "retry_loop env t i s =
     (if i \<le> sint (RetryNum t) then
        (case getBackOffTime env t (word_of_int i) s of
           (Panic v, s1) \<Rightarrow> (Panic v, s1)
         | (Ret d, s1) \<Rightarrow>
             (case call_fn env (retryTask t) (Sleep env d s1) of
                (Panic v, s2) \<Rightarrow> (Panic v, s2)
              | (Ret failed, s2) \<Rightarrow> if failed then retry_loop env t (i + 1) s2 else (Ret (), s2)))
      else (Ret (), s))"
  by pat_completeness auto
termination
  by (relation "measure (\<lambda>(env, t, i, s). nat (sint (RetryNum t) + 1 - i))") auto

declare retry_loop.simps [simp del]

definition runBackOffStrategy ::
  "('f, 'b, 'c, 'v, 's) task_env \<Rightarrow> ('f, 'b) TaskWithRetry \<Rightarrow> 's \<Rightarrow> (unit, 'v) outcome \<times> 's" where
  "runBackOffStrategy env t s = retry_loop env t 1 s"

definition retry_process ::
  "('f, 'b, 'c, 'v, 's) task_env \<Rightarrow> ('f, 'b) TaskWithRetry \<Rightarrow> 's \<Rightarrow> (unit, 'v) outcome \<times> 's" where
  "retry_process env t s =
     (case call_fn env (retryTask t) s of
        (Panic v, s1) \<Rightarrow> (Panic v, s1)
      | (Ret failed, s1) \<Rightarrow> if failed then runBackOffStrategy env t s1 else (Ret (), s1))"

definition drop_error :: "(bool, 'v) outcome \<times> 's \<Rightarrow> (unit, 'v) outcome \<times> 's" where
  "drop_error r = (case r of (Ret _, s) \<Rightarrow> (Ret (), s) | (Panic v, s) \<Rightarrow> (Panic v, s))"

fun process :: "('f, 'b, 'c, 'v, 's) task_env \<Rightarrow> ('f, 'b, 'c) Task \<Rightarrow> 's \<Rightarrow> (unit, 'v) outcome \<times> 's" where
  "process env (TaskFunc fn) s = drop_error (call_fn env fn s)"
| "process env (RetryTask None) s = (Panic (nilPanic env), s)"
| "process env (RetryTask (Some t)) s = retry_process env t s"
| "process env (ContextTask None) s = (Panic (nilPanic env), s)"
| "process env (ContextTask (Some (ctx, task))) s =
     (if ctxErr env ctx s then (Ret (), s)
      else case task of None \<Rightarrow> (Panic (nilPanic env), s) | Some t \<Rightarrow> process env t s)"
| "process env (BeforeTask ctx task) s =
     (if ctxErr env ctx s then (Ret (), ctxCancel env ctx s)
      else (case process env task s of (r, s1) \<Rightarrow> (r, ctxCancel env ctx s1)))"
| "process env (OtherTask f) s = drop_error (execFn env f s)"

section \<open>The backoff schedule\<close>

lemma defaultBackOffStrategy_le: "defaultBackOffStrategy oor mn mx n \<le> mx"
  by (simp add: defaultBackOffStrategy_def Let_def)

lemma fl_nonpos:
  assumes "x \<le> 0"
  shows "(\<exists>r\<le>0. fl x = Fin r) \<or> fl x = Inf False"
proof (cases "x = 0")
  case False
  let ?u = "2 powi (ulp_exp x) :: rat"
  have "x / ?u \<le> of_int 0" using assms by (simp add: divide_le_0_iff)
  then have "round_even (x / ?u) \<le> 0" by (rule round_even_le)
  then have "of_int (round_even (x / ?u)) * ?u \<le> 0" by (simp add: mult_nonpos_nonneg)
  moreover have "\<not> 2 ^ 1024 \<le> (0 :: rat)" by (simp only: not_le zero_less_power zero_less_numeral)
  ultimately show ?thesis using False by (auto simp: fl_def Let_def dest: order_trans)
qed simp

text \<open>The product is computed without rounding when \<open>min\<close> fits the significand.\<close>

lemma fl_scaled:
  assumes "0 \<le> m" and "m < 2 ^ 53"
  shows "fl (2 ^ n * of_int m) = (if of_int m * 2 ^ n < (2 ^ 1024 :: rat) then Fin (of_int (m * 2 ^ n)) else Inf True)"
proof (cases "m = 0")
  case False
  have e: "2 ^ n * of_int m = (of_int m * 2 powi (int n) :: rat)" by simp
  show ?thesis
  proof (cases "of_int m * 2 ^ n < (2 ^ 1024 :: rat)")
    case True
    then show ?thesis unfolding e using assms by (subst fl_exact) (simp_all add: abs_mult)
  next
    case over: False
    have "0 < (of_int m * 2 powi (int n) :: rat)" using False assms(1) by simp
    then show ?thesis
      unfolding e using assms over False fl_round_exact [of m "int n"] by (subst fl_round) auto
  qed
qed simp

lemma scaled_lt_1024:
  assumes "m * 2 ^ n \<le> MaxInt64"
  shows "of_int m * 2 ^ n < (2 ^ 1024 :: rat)"
proof -
  have "of_int (m * 2 ^ n) \<le> (of_int (2 ^ 63) :: rat)" using assms by (simp only: of_int_le_iff)
  also have "\<dots> < 2 ^ 1024" by (simp only: of_int_power of_int_numeral) (rule power_strict_increasing, simp_all)
  finally show ?thesis by simp
qed

lemma f_of_int_below:
  assumes "s \<le> 2 ^ 63 - 1024"
  shows "(\<exists>r\<le>2 ^ 63 - 1024. f_of_int s = Fin r) \<or> f_of_int s = Inf False"
proof (cases "0 < s")
  case True
  have "is_float (of_int (2 ^ 53 - 1) * 2 powi 10)" by (rule is_float_exact) simp_all
  then have "is_float (2 ^ 63 - 1024)" by simp
  moreover have "of_int s \<le> (2 ^ 63 - 1024 :: rat)" using assms by simp
  ultimately show ?thesis
    using fl_between [of "of_int s" "2 ^ 63 - 1024" 0] True by (auto simp: f_of_int_def)
next
  case False
  then show ?thesis using fl_nonpos [of "of_int s"] by (force simp: f_of_int_def)
qed

lemma f_int64_of_int:
  "f_int64 oor (Fin (of_int p)) = (if int64_range p then p else oor (Fin (of_int p)))"
  by (simp add: f_int64_def Let_def)

lemma f_int64_Inf: "f_int64 oor (Inf b) = oor (Inf b)"
  by (simp add: f_int64_def)

lemma defaultBackOffStrategy_eq:
  assumes mn: "0 \<le> mn" "mn < 2 ^ 53" and mx: "mx \<le> 2 ^ 63 - 1024" and oor: "\<forall>f. int64_range (oor f)"
    and n: "0 < mn \<or> unat n < 1024"
  shows "defaultBackOffStrategy oor mn mx n = min mx (mn * 2 ^ unat n)"
proof -
  let ?k = "unat n" and ?p = "mn * 2 ^ unat n"
  let ?mult = "f_mul (f_pow2 ?k) (f_of_int mn)"
  have f: "f_of_int mn = Fin (of_int mn)" using mn by (intro f_of_int_exact) simp
  have k: "mn = 0 \<or> ?k < 1024" if "?p \<le> MaxInt64"
  proof (rule ccontr)
    assume "\<not> (mn = 0 \<or> ?k < 1024)"
    then have "1 * (2 ^ 63) \<le> ?p" using mn by (intro mult_mono power_increasing) simp_all
    with that show False by simp
  qed
  have mult: "?mult = (if of_int mn * 2 ^ ?k < (2 ^ 1024 :: rat) \<and> ?k < 1024 then Fin (of_int ?p) else Inf True)"
    using n mn fl_scaled [OF mn, of ?k] by (auto simp: f f_pow2_def)
  show ?thesis
  proof (cases "?p \<le> MaxInt64")
    case True
    have "?mult = Fin (of_int ?p)" using mult k [OF True] n scaled_lt_1024 [OF True] by auto
    moreover have "f_int64 oor (Fin (of_int ?p)) = ?p"
      unfolding f_int64_of_int using True mn by (simp add: int64_range_def order_trans [of _ 0])
    moreover have "f_of_int ?p = Fin (of_int ?p)"
      using fl_scaled [OF mn, of ?k] scaled_lt_1024 [OF True] by (simp add: f_of_int_def mult.commute)
    ultimately show ?thesis by (simp add: defaultBackOffStrategy_def Let_def min_def)
  next
    case False
    then have nr: "\<not> int64_range ?p" by (simp add: int64_range_def)
    then have sl: "f_int64 oor ?mult = oor ?mult" unfolding mult
      by (simp only: f_int64_of_int f_int64_Inf nr if_False split: if_split) simp
    have "\<not> f_eq (f_of_int (oor ?mult)) ?mult" if "\<not> mx < oor ?mult"
    proof -
      have "oor ?mult \<le> 2 ^ 63 - 1024" using that mx by simp
      moreover have "(2 ^ 63 :: rat) \<le> of_int ?p"
      proof -
        have "2 ^ 63 \<le> ?p" using False by simp
        then have "(of_int (2 ^ 63) :: rat) \<le> of_int ?p" by (simp only: of_int_le_iff)
        then show ?thesis by simp
      qed
      ultimately show ?thesis using f_of_int_below [of "oor ?mult"] unfolding mult by (auto split: if_splits)
    qed
    then have "defaultBackOffStrategy oor mn mx n = mx" by (auto simp: defaultBackOffStrategy_def Let_def sl)
    then show ?thesis using False mx by (simp add: min_def)
  qed
qed

section \<open>How often a task is retried\<close>

text \<open>
  A world in which a function fails a given number of times and then succeeds. It keeps the
  failures left and one trace of everything the task does: calls of its function, questions
  to its strategy and sleeps, so that their order is observable. \<open>strat\<close> says what a strategy
  answers.
\<close>

datatype ('f, 'b) retry_event = Called 'f | Asked 'b duration duration "64 word" | Slept duration

type_synonym ('f, 'b) flaky_world = "nat \<times> ('f, 'b) retry_event list"

definition flaky_env ::
  "(float64 \<Rightarrow> int) \<Rightarrow> ('b \<Rightarrow> duration \<Rightarrow> duration \<Rightarrow> 64 word \<Rightarrow> duration) \<Rightarrow> ('f, 'b, unit, unit, ('f, 'b) flaky_world) task_env" where
  "flaky_env oor strat =
     \<lparr>execFn = (\<lambda>f (k, evs). (Ret (0 < k), (k - 1, evs @ [Called f]))),
      backOffFn = (\<lambda>b mn mx n (k, evs). (Ret (strat b mn mx n), (k, evs @ [Asked b mn mx n]))),
      Sleep = (\<lambda>d (k, evs). (k, evs @ [Slept d])),
      ctxErr = (\<lambda>c s. False), ctxCancel = (\<lambda>c s. s), Background = (), nilPanic = (), convert = oor\<rparr>"

text \<open>What the \<open>j\<close>-th retry has to do: find the delay, sleep, call the function.\<close>

definition retry_events ::
  "(float64 \<Rightarrow> int) \<Rightarrow> ('b \<Rightarrow> duration \<Rightarrow> duration \<Rightarrow> 64 word \<Rightarrow> duration) \<Rightarrow> ('f, 'b) TaskWithRetry \<Rightarrow> 'f \<Rightarrow> nat \<Rightarrow> ('f, 'b) retry_event list" where
  "retry_events oor strat t f j =
     (case BackOffStrategy t of
        None \<Rightarrow> [Slept (defaultBackOffStrategy oor (MinBackOff t) (MaxBackOff t) (of_nat j))]
      | Some b \<Rightarrow> [Asked b (MinBackOff t) (MaxBackOff t) (of_nat j), Slept (strat b (MinBackOff t) (MaxBackOff t) (of_nat j))]) @
     [Called f]"

lemma retry_loop_flaky:
  assumes "retryTask t = Some f" and "1 \<le> i"
  shows "retry_loop (flaky_env oor strat) t (int i) (k, evs) =
           (let m = min (Suc k) (nat (sint (RetryNum t) + 1 - int i)) in
            (Ret (), (k - m, evs @ concat (map (retry_events oor strat t f) [i..<i + m]))))"
  using assms(2)
proof (induction "nat (sint (RetryNum t) + 1 - int i)" arbitrary: i k evs)
  case 0
  then show ?case by (simp add: retry_loop.simps [of "flaky_env oor strat" t "int i"])
next
  case (Suc n)
  let ?env = "flaky_env oor strat" and ?e = "retry_events oor strat t f"
  have le: "int i \<le> sint (RetryNum t)" using Suc.hyps(2) by linarith
  have step: "retry_loop ?env t (int i) (k, evs) =
      (if 0 < k then retry_loop ?env t (int (Suc i)) (k - 1, evs @ ?e i) else (Ret (), (k - 1, evs @ ?e i)))"
    using le assms(1) by (subst retry_loop.simps)
      (cases "BackOffStrategy t", simp_all add: getBackOffTime_def call_fn_def flaky_env_def retry_events_def add.commute)
  have n: "n = nat (sint (RetryNum t) + 1 - int (Suc i))" using Suc.hyps(2) by linarith
  show ?case
  proof (cases k)
    case 0
    then show ?thesis unfolding step Suc.hyps(2) [symmetric] by simp
  next
    case (Suc k')
    have "[i..<i + Suc m] = i # [Suc i..<Suc i + m]" for m by (simp add: upt_rec)
    then show ?thesis
      unfolding step \<open>Suc n = _\<close> [symmetric] using Suc Suc.hyps(1) [OF n, of k'] n by (simp add: Let_def)
  qed
qed

lemma retry_process_flaky:
  assumes "retryTask t = Some f"
  shows "retry_process (flaky_env oor strat) t (k, evs) =
           (let m = min k (nat (sint (RetryNum t))) in
            (Ret (), (k - Suc m, evs @ Called f # concat (map (retry_events oor strat t f) [1..<Suc m]))))"
proof (cases k)
  case 0
  then show ?thesis using assms by (simp add: retry_process_def call_fn_def flaky_env_def)
next
  case (Suc k')
  have "retry_process (flaky_env oor strat) t (k, evs) = retry_loop (flaky_env oor strat) t (int 1) (k', evs @ [Called f])"
    using assms Suc by (simp add: retry_process_def call_fn_def flaky_env_def runBackOffStrategy_def)
  then show ?thesis using retry_loop_flaky [OF assms, of 1 oor strat k' "evs @ [Called f]"] Suc by (simp add: Let_def)
qed

text \<open>Counts from \<open>2^63\<close> on are negative as \<^verbatim>\<open>int\<close>: such a task is never retried.\<close>

lemma retry_count:
  "nat (sint (RetryNum t)) = (if uint (RetryNum t) < 2 ^ 63 then unat (RetryNum t) else 0)"
proof (cases "uint (RetryNum t) < 2 ^ 63")
  case True
  then have "int64_range (uint (RetryNum t))"
    using unsigned_greater_eq [of "RetryNum t", where ?'a = int] unfolding int64_range_def by linarith
  then show ?thesis using True by (simp add: sint_wrap64)
next
  case False
  then have "sint (RetryNum t) < 0"
    using uint_bounded [of "RetryNum t"] wrap64_high [of "uint (RetryNum t)"] by (simp add: sint_wrap64)
  then show ?thesis using False by simp
qed

section \<open>Properties\<close>

text \<open>
  The default backoff schedule is exact: for a minimum below \<open>2^53\<close> ns and a maximum
  up to \<open>2^63 - 1024\<close> ns, the sleep before retry \<open>n\<close> is \<open>min \<cdot> 2^n\<close> clamped to the maximum,
  although it is computed in floating point and the product may overflow. (The case of a
  zero minimum with \<open>n \<ge> 1024\<close>, where the product is NaN, is excluded.)
\<close>

theorem defaultBackOffStrategy_exact:
  assumes "0 \<le> mn" and "mn < 2 ^ 53" and "mx \<le> 2 ^ 63 - 1024" and "\<forall>f. int64_range (oor f)"
    and "0 < mn \<or> unat n < 1024"
  shows "defaultBackOffStrategy oor mn mx n = min mx (mn * 2 ^ unat n)"
  by (rule defaultBackOffStrategy_eq [OF assms])

theorem defaultBackOffStrategy_exact_witness:
  "defaultBackOffStrategy (\<lambda>_. - (2 ^ 63)) (10 * Millisecond) (5 * Second) 3 = 80 * Millisecond \<and>
   defaultBackOffStrategy (\<lambda>_. - (2 ^ 63)) (10 * Millisecond) (5 * Second) 5000 = 5 * Second"
proof -
  have "(5 * Second :: int) \<le> 2 ^ 5000 * 10000000"
  proof -
    have "(2 ^ 33 :: int) \<le> 2 ^ 5000" by (rule power_increasing) simp_all
    then have "2 ^ 33 * 1 \<le> 2 ^ 5000 * (10000000 :: int)" by (intro mult_mono) simp_all
    then show ?thesis by simp
  qed
  then show ?thesis
    using defaultBackOffStrategy_exact [of "10 * Millisecond" "5 * Second" "\<lambda>_. - (2 ^ 63)" 3]
      defaultBackOffStrategy_exact [of "10 * Millisecond" "5 * Second" "\<lambda>_. - (2 ^ 63)" 5000]
    by (simp add: int64_range_def min_def mult.commute)
qed

text \<open>
  C33. A task is retried as documented, in this order: \<^verbatim>\<open>process\<close> calls the function; while
  it has failed and retries are left, it finds the delay of the retry from the task's own
  strategy if it has one and else from the default schedule, sleeps that long, and only then
  calls the function again. When the function fails \<open>k\<close> times before it succeeds it is
  retried \<open>min k RetryNum\<close> times, and not at all when \<^verbatim>\<open>RetryNum\<close> is \<open>2^63\<close> or more, which the
  conversion to \<^verbatim>\<open>int\<close> makes negative. The whole trace of calls, questions to the strategy
  and sleeps is given. (The counter of the model does not wrap, which only shows after
  \<open>2^63 - 1\<close> failed retries.)
\<close>

theorem retry_attempts_and_sleeps:
  assumes "retryTask t = Some f"
  shows "process (flaky_env oor strat) (RetryTask (Some t)) (k, evs) =
           (let m = min k (if uint (RetryNum t) < 2 ^ 63 then unat (RetryNum t) else 0) in
            (Ret (), (k - Suc m, evs @ Called f # concat (map (retry_events oor strat t f) [1..<Suc m]))))"
  using retry_process_flaky [OF assms] retry_count [of t] by simp

definition retry_example :: "(unit, unit) TaskWithRetry" where
  "retry_example = \<lparr>MinBackOff = 5, MaxBackOff = 15, RetryNum = 2, BackOffStrategy = Some (), retryTask = Some ()\<rparr>"

theorem retry_attempts_and_sleeps_witness:
  "process (flaky_env (\<lambda>_. 0) (\<lambda>b mn mx n. mn + uint n)) (RetryTask (Some retry_example)) (7, []) =
     (Ret (), (4, [Called (), Asked () 5 15 1, Slept 6, Called (), Asked () 5 15 2, Slept 7, Called ()])) \<and>
   process (flaky_env (\<lambda>_. 0) (\<lambda>b mn mx n. mn + uint n)) (RetryTask (Some (retry_example\<lparr>RetryNum := 2 ^ 63\<rparr>))) (7, []) =
     (Ret (), (6, [Called ()]))"
  using retry_attempts_and_sleeps [of retry_example "()" "\<lambda>_. 0" "\<lambda>b mn mx n. mn + uint n" 7 "[]"]
    retry_attempts_and_sleeps [of "retry_example\<lparr>RetryNum := 2 ^ 63\<rparr>" "()" "\<lambda>_. 0" "\<lambda>b mn mx n. mn + uint n" 7 "[]"]
  by (simp add: retry_example_def retry_events_def numeral_2_eq_2 [symmetric] upt_rec)

end
