(* ===== verification/Hooks.thy ===== *)
theory Hooks
  imports Task
begin

text \<open>
  The lifecycle callbacks: the interface of \<^verbatim>\<open>hook.go\<close>, the bundled dispatcher
  \<^verbatim>\<open>hook/hook.go\<close> and the snapshot-based one of \<^verbatim>\<open>hook/dynamic/dynamic.go\<close>. A
  callback is a value of type \<open>'k\<close> with an interpreter \<open>run\<close>; its effect is a change of
  a world \<open>'w\<close> or a panic. Both dispatchers recover every callback separately and log
  the panic; \<open>hook_registry\<close> is the contract of registration they share.
\<close>

section \<open>Callbacks\<close>

datatype ('c, 'v, 'p) hook_arg = ArgCtx 'c | ArgCompleted 'c "'v option" | ArgPool "'p option"

datatype hook_event = OnTaskSubmitted | OnTaskEnqueued | OnTaskStarted | OnTaskCompleted | OnPoolClosed

datatype 'v hook_log = HookPanicked hook_event 'v | NilPoolPointer

type_synonym ('k, 'c, 'v, 'p, 'w) hook_run = "'k \<Rightarrow> ('c, 'v, 'p) hook_arg \<Rightarrow> 'w \<Rightarrow> (unit, 'v) outcome \<times> 'w"

text \<open>\<^verbatim>\<open>invoke\<close> of \<^verbatim>\<open>hook/hook.go\<close>: one callback with its own recovery.\<close>

definition invoke :: "('w \<Rightarrow> (unit, 'v) outcome \<times> 'w) \<Rightarrow> hook_event \<Rightarrow> 'w \<times> 'v hook_log list \<Rightarrow> 'w \<times> 'v hook_log list" where
  "invoke fn name st =
     (case st of (w, lg) \<Rightarrow>
        (case fn w of
           (Ret _, w') \<Rightarrow> (w', lg)
         | (Panic v, w') \<Rightarrow> (w', lg @ [HookPanicked name v])))"

fun dispatch_all ::
  "('k, 'c, 'v, 'p, 'w) hook_run \<Rightarrow> hook_event \<Rightarrow> ('c, 'v, 'p) hook_arg \<Rightarrow> 'k list \<Rightarrow>
   'w \<times> 'v hook_log list \<Rightarrow> 'w \<times> 'v hook_log list" where
  "dispatch_all run name arg [] st = st"
| "dispatch_all run name arg (fn # fns) st =
     dispatch_all run name arg fns (invoke (run fn arg) name st)"

section \<open>The bundled dispatcher (hook/hook.go)\<close>

record 'k Hooks =
  taskSubmitted :: "'k list"
  taskEnqueued :: "'k list"
  taskStarted :: "'k list"
  taskCompleted :: "'k list"
  poolClosed :: "'k list"

definition NewHooks :: "'k Hooks" where
  "NewHooks = \<lparr>taskSubmitted = [], taskEnqueued = [], taskStarted = [], taskCompleted = [], poolClosed = []\<rparr>"

definition AddTaskSubmitted :: "'k \<Rightarrow> 'k Hooks \<Rightarrow> 'k Hooks" where
  "AddTaskSubmitted fn h = h\<lparr>taskSubmitted := taskSubmitted h @ [fn]\<rparr>"

definition AddTaskEnqueued :: "'k \<Rightarrow> 'k Hooks \<Rightarrow> 'k Hooks" where
  "AddTaskEnqueued fn h = h\<lparr>taskEnqueued := taskEnqueued h @ [fn]\<rparr>"

definition AddTaskStarted :: "'k \<Rightarrow> 'k Hooks \<Rightarrow> 'k Hooks" where
  "AddTaskStarted fn h = h\<lparr>taskStarted := taskStarted h @ [fn]\<rparr>"

definition AddTaskCompleted :: "'k \<Rightarrow> 'k Hooks \<Rightarrow> 'k Hooks" where
  "AddTaskCompleted fn h = h\<lparr>taskCompleted := taskCompleted h @ [fn]\<rparr>"

definition AddPoolClosed :: "'k \<Rightarrow> 'k Hooks \<Rightarrow> 'k Hooks" where
  "AddPoolClosed fn h = h\<lparr>poolClosed := poolClosed h @ [fn]\<rparr>"

definition DispatchTaskSubmitted ::
  "('k, 'c, 'v, 'p, 'w) hook_run \<Rightarrow> 'k Hooks \<Rightarrow> 'c \<Rightarrow> 'w \<times> 'v hook_log list \<Rightarrow> 'w \<times> 'v hook_log list" where
  "DispatchTaskSubmitted run h ctx st = dispatch_all run OnTaskSubmitted (ArgCtx ctx) (taskSubmitted h) st"

definition DispatchTaskEnqueued ::
  "('k, 'c, 'v, 'p, 'w) hook_run \<Rightarrow> 'k Hooks \<Rightarrow> 'c \<Rightarrow> 'w \<times> 'v hook_log list \<Rightarrow> 'w \<times> 'v hook_log list" where
  "DispatchTaskEnqueued run h ctx st = dispatch_all run OnTaskEnqueued (ArgCtx ctx) (taskEnqueued h) st"

definition DispatchTaskStarted ::
  "('k, 'c, 'v, 'p, 'w) hook_run \<Rightarrow> 'k Hooks \<Rightarrow> 'c \<Rightarrow> 'w \<times> 'v hook_log list \<Rightarrow> 'w \<times> 'v hook_log list" where
  "DispatchTaskStarted run h ctx st = dispatch_all run OnTaskStarted (ArgCtx ctx) (taskStarted h) st"

definition DispatchTaskCompleted ::
  "('k, 'c, 'v, 'p, 'w) hook_run \<Rightarrow> 'k Hooks \<Rightarrow> 'c \<Rightarrow> 'v option \<Rightarrow> 'w \<times> 'v hook_log list \<Rightarrow> 'w \<times> 'v hook_log list" where
  "DispatchTaskCompleted run h ctx recovered st =
     dispatch_all run OnTaskCompleted (ArgCompleted ctx recovered) (taskCompleted h) st"

definition DispatchPoolClosed ::
  "('k, 'c, 'v, 'p, 'w) hook_run \<Rightarrow> 'k Hooks \<Rightarrow> 'p option \<Rightarrow> 'w \<times> 'v hook_log list \<Rightarrow> 'w \<times> 'v hook_log list" where
  "DispatchPoolClosed run h pool st =
     (case pool of
        None \<Rightarrow> (fst st, snd st @ [NilPoolPointer])
      | Some p \<Rightarrow> dispatch_all run OnPoolClosed (ArgPool (Some p)) (poolClosed h) st)"

section \<open>The dynamic dispatcher (hook/dynamic/dynamic.go)\<close>

text \<open>
  The published pointer and the snapshots it has pointed to; a snapshot is a record of
  the five callback lists. \<^verbatim>\<open>Store(&next)\<close> publishes a new object.
\<close>

record 'k DynHooks =
  snapshots :: "nat option"
  snapMem :: "nat \<Rightarrow> 'k Hooks option"
  snapFresh :: nat

definition dyn_store :: "'k Hooks \<Rightarrow> 'k DynHooks \<Rightarrow> 'k DynHooks" where
  "dyn_store snap h =
     h\<lparr>snapshots := Some (snapFresh h), snapMem := (snapMem h)(snapFresh h \<mapsto> snap), snapFresh := snapFresh h + 1\<rparr>"

definition dyn_NewHooks :: "'k DynHooks" where
  "dyn_NewHooks = dyn_store NewHooks \<lparr>snapshots = None, snapMem = (\<lambda>_. None), snapFresh = 0\<rparr>"

definition snapshot :: "'k DynHooks \<Rightarrow> 'k Hooks" where
  "snapshot h =
     (case snapshots h of
        None \<Rightarrow> NewHooks
      | Some a \<Rightarrow> (case snapMem h a of None \<Rightarrow> NewHooks | Some s \<Rightarrow> s))"

text \<open>\<^verbatim>\<open>appendCallback\<close>: a new slice, filled by \<^verbatim>\<open>copy\<close> and one store.\<close>

definition appendCallback :: "'k list \<Rightarrow> 'k \<Rightarrow> 'k list" where
  "appendCallback callbacks callback =
     (let next = replicate (length callbacks + 1) None;
          copied = map Some callbacks @ drop (length callbacks) next
      in map the (copied[length callbacks := Some callback]))"

definition dyn_AddTaskSubmitted :: "'k \<Rightarrow> 'k DynHooks \<Rightarrow> 'k DynHooks" where
  "dyn_AddTaskSubmitted fn h =
     (let current = snapshot h
      in dyn_store (current\<lparr>taskSubmitted := appendCallback (taskSubmitted current) fn\<rparr>) h)"

definition dyn_AddTaskEnqueued :: "'k \<Rightarrow> 'k DynHooks \<Rightarrow> 'k DynHooks" where
  "dyn_AddTaskEnqueued fn h =
     (let current = snapshot h
      in dyn_store (current\<lparr>taskEnqueued := appendCallback (taskEnqueued current) fn\<rparr>) h)"

definition dyn_AddTaskStarted :: "'k \<Rightarrow> 'k DynHooks \<Rightarrow> 'k DynHooks" where
  "dyn_AddTaskStarted fn h =
     (let current = snapshot h
      in dyn_store (current\<lparr>taskStarted := appendCallback (taskStarted current) fn\<rparr>) h)"

definition dyn_AddTaskCompleted :: "'k \<Rightarrow> 'k DynHooks \<Rightarrow> 'k DynHooks" where
  "dyn_AddTaskCompleted fn h =
     (let current = snapshot h
      in dyn_store (current\<lparr>taskCompleted := appendCallback (taskCompleted current) fn\<rparr>) h)"

definition dyn_AddPoolClosed :: "'k \<Rightarrow> 'k DynHooks \<Rightarrow> 'k DynHooks" where
  "dyn_AddPoolClosed fn h =
     (let current = snapshot h
      in dyn_store (current\<lparr>poolClosed := appendCallback (poolClosed current) fn\<rparr>) h)"

text \<open>The dynamic dispatcher has an \<^verbatim>\<open>invoke\<close> of its own.\<close>

definition dyn_invoke :: "('w \<Rightarrow> (unit, 'v) outcome \<times> 'w) \<Rightarrow> hook_event \<Rightarrow> 'w \<times> 'v hook_log list \<Rightarrow> 'w \<times> 'v hook_log list" where
  "dyn_invoke fn name st =
     (case st of (w, lg) \<Rightarrow>
        (case fn w of
           (Ret _, w') \<Rightarrow> (w', lg)
         | (Panic recovered, w') \<Rightarrow> (w', lg @ [HookPanicked name recovered])))"

fun dyn_dispatch_all ::
  "('k, 'c, 'v, 'p, 'w) hook_run \<Rightarrow> hook_event \<Rightarrow> ('c, 'v, 'p) hook_arg \<Rightarrow> 'k list \<Rightarrow>
   'w \<times> 'v hook_log list \<Rightarrow> 'w \<times> 'v hook_log list" where
  "dyn_dispatch_all run name arg [] st = st"
| "dyn_dispatch_all run name arg (fn # fns) st =
     dyn_dispatch_all run name arg fns (dyn_invoke (run fn arg) name st)"

definition dyn_DispatchTaskSubmitted ::
  "('k, 'c, 'v, 'p, 'w) hook_run \<Rightarrow> 'k DynHooks \<Rightarrow> 'c \<Rightarrow> 'w \<times> 'v hook_log list \<Rightarrow> 'w \<times> 'v hook_log list" where
  "dyn_DispatchTaskSubmitted run h ctx st =
     dyn_dispatch_all run OnTaskSubmitted (ArgCtx ctx) (taskSubmitted (snapshot h)) st"

definition dyn_DispatchTaskEnqueued ::
  "('k, 'c, 'v, 'p, 'w) hook_run \<Rightarrow> 'k DynHooks \<Rightarrow> 'c \<Rightarrow> 'w \<times> 'v hook_log list \<Rightarrow> 'w \<times> 'v hook_log list" where
  "dyn_DispatchTaskEnqueued run h ctx st =
     dyn_dispatch_all run OnTaskEnqueued (ArgCtx ctx) (taskEnqueued (snapshot h)) st"

definition dyn_DispatchTaskStarted ::
  "('k, 'c, 'v, 'p, 'w) hook_run \<Rightarrow> 'k DynHooks \<Rightarrow> 'c \<Rightarrow> 'w \<times> 'v hook_log list \<Rightarrow> 'w \<times> 'v hook_log list" where
  "dyn_DispatchTaskStarted run h ctx st =
     dyn_dispatch_all run OnTaskStarted (ArgCtx ctx) (taskStarted (snapshot h)) st"

definition dyn_DispatchTaskCompleted ::
  "('k, 'c, 'v, 'p, 'w) hook_run \<Rightarrow> 'k DynHooks \<Rightarrow> 'c \<Rightarrow> 'v option \<Rightarrow> 'w \<times> 'v hook_log list \<Rightarrow> 'w \<times> 'v hook_log list" where
  "dyn_DispatchTaskCompleted run h ctx recovered st =
     dyn_dispatch_all run OnTaskCompleted (ArgCompleted ctx recovered) (taskCompleted (snapshot h)) st"

definition dyn_DispatchPoolClosed ::
  "('k, 'c, 'v, 'p, 'w) hook_run \<Rightarrow> 'k DynHooks \<Rightarrow> 'p option \<Rightarrow> 'w \<times> 'v hook_log list \<Rightarrow> 'w \<times> 'v hook_log list" where
  "dyn_DispatchPoolClosed run h pool st =
     (case pool of
        None \<Rightarrow> (fst st, snd st @ [NilPoolPointer])
      | Some p \<Rightarrow> dyn_dispatch_all run OnPoolClosed (ArgPool (Some p)) (poolClosed (snapshot h)) st)"

section \<open>The contract of registration\<close>

fun callbacks_of :: "'k Hooks \<Rightarrow> hook_event \<Rightarrow> 'k list" where
  "callbacks_of h OnTaskSubmitted = taskSubmitted h"
| "callbacks_of h OnTaskEnqueued = taskEnqueued h"
| "callbacks_of h OnTaskStarted = taskStarted h"
| "callbacks_of h OnTaskCompleted = taskCompleted h"
| "callbacks_of h OnPoolClosed = poolClosed h"

fun hook_Add :: "hook_event \<Rightarrow> 'k \<Rightarrow> 'k Hooks \<Rightarrow> 'k Hooks" where
  "hook_Add OnTaskSubmitted = AddTaskSubmitted"
| "hook_Add OnTaskEnqueued = AddTaskEnqueued"
| "hook_Add OnTaskStarted = AddTaskStarted"
| "hook_Add OnTaskCompleted = AddTaskCompleted"
| "hook_Add OnPoolClosed = AddPoolClosed"

fun dyn_Add :: "hook_event \<Rightarrow> 'k \<Rightarrow> 'k DynHooks \<Rightarrow> 'k DynHooks" where
  "dyn_Add OnTaskSubmitted = dyn_AddTaskSubmitted"
| "dyn_Add OnTaskEnqueued = dyn_AddTaskEnqueued"
| "dyn_Add OnTaskStarted = dyn_AddTaskStarted"
| "dyn_Add OnTaskCompleted = dyn_AddTaskCompleted"
| "dyn_Add OnPoolClosed = dyn_AddPoolClosed"

definition register :: "(hook_event \<Rightarrow> 'k \<Rightarrow> 'h \<Rightarrow> 'h) \<Rightarrow> (hook_event \<times> 'k) list \<Rightarrow> 'h \<Rightarrow> 'h" where
  "register add regs h = fold (\<lambda>(e, fn). add e fn) regs h"

locale hook_registry =
  fixes empty :: 'h
    and add :: "hook_event \<Rightarrow> 'k \<Rightarrow> 'h \<Rightarrow> 'h"
    and registered :: "'h \<Rightarrow> hook_event \<Rightarrow> 'k list"
  assumes registered_empty: "registered empty e = []"
    and registered_add: "registered (add e fn h) e' = (if e' = e then registered h e' @ [fn] else registered h e')"
begin

lemma registered_fold:
  "registered (register add regs h) e = registered h e @ map snd (filter (\<lambda>(e', _). e' = e) regs)"
  unfolding register_def
  by (induction regs arbitrary: h) (auto simp: registered_add)

lemma registered_register:
  "registered (register add regs empty) e = map snd (filter (\<lambda>(e', _). e' = e) regs)"
  by (simp add: registered_fold registered_empty)

end

lemma appendCallback_snoc: "appendCallback xs x = xs @ [x]"
  by (simp add: appendCallback_def Let_def list_update_append drop_replicate del: replicate_Suc)
    (simp add: replicate_Suc)

lemma snapshot_store [simp]: "snapshot (dyn_store s h) = s"
  by (simp add: snapshot_def dyn_store_def)

lemmas hook_add_defs = AddTaskSubmitted_def AddTaskEnqueued_def AddTaskStarted_def AddTaskCompleted_def
  AddPoolClosed_def

lemmas dyn_add_defs = dyn_AddTaskSubmitted_def dyn_AddTaskEnqueued_def dyn_AddTaskStarted_def
  dyn_AddTaskCompleted_def dyn_AddPoolClosed_def

interpretation static_hooks: hook_registry NewHooks hook_Add callbacks_of
proof
  show "callbacks_of (NewHooks :: 'a Hooks) e = []" for e by (cases e) (simp_all add: NewHooks_def)
  show "callbacks_of (hook_Add e fn h) e' = (if e' = e then callbacks_of h e' @ [fn] else callbacks_of h e')"
    for e e' and fn :: 'a and h
    by (cases e; cases e') (simp_all add: hook_add_defs)
qed

interpretation dyn_hooks: hook_registry dyn_NewHooks dyn_Add "\<lambda>h. callbacks_of (snapshot h)"
proof
  show "callbacks_of (snapshot (dyn_NewHooks :: 'a DynHooks)) e = []" for e
    by (cases e) (simp_all add: dyn_NewHooks_def NewHooks_def)
  show "callbacks_of (snapshot (dyn_Add e fn h)) e' =
      (if e' = e then callbacks_of (snapshot h) e' @ [fn] else callbacks_of (snapshot h) e')"
    for e e' and fn :: 'a and h
    by (cases e; cases e') (simp_all add: dyn_add_defs appendCallback_snoc Let_def)
qed

text \<open>A snapshot that was published keeps its contents whatever is registered later.\<close>

definition dyn_ok :: "'k DynHooks \<Rightarrow> bool" where
  "dyn_ok h \<longleftrightarrow> (\<forall>a. snapMem h a \<noteq> None \<longrightarrow> a < snapFresh h)"

lemma dyn_Add_store: "\<exists>snap. dyn_Add e fn h = dyn_store snap h"
  by (cases e) (auto simp: dyn_add_defs Let_def)

lemma dyn_store_keeps:
  assumes "dyn_ok h" and "snapMem h a = Some snap"
  shows "snapMem (dyn_store s h) a = Some snap" and "dyn_ok (dyn_store s h)"
  using assms by (fastforce simp: dyn_ok_def dyn_store_def less_Suc_eq)+

lemma register_keeps:
  assumes "dyn_ok h" and "snapMem h a = Some snap"
  shows "snapMem (register dyn_Add regs h) a = Some snap"
proof -
  have "dyn_ok (fold (\<lambda>(e, fn). dyn_Add e fn) regs h) \<and> snapMem (fold (\<lambda>(e, fn). dyn_Add e fn) regs h) a = Some snap"
    using assms
  proof (induction regs arbitrary: h)
    case (Cons r regs)
    obtain e fn where r: "r = (e, fn)" by fastforce
    obtain s where s: "dyn_Add e fn h = dyn_store s h" using dyn_Add_store [of e fn h] by blast
    show ?case using Cons.IH [OF dyn_store_keeps(2,1) [OF Cons.prems]] by (simp add: r s)
  qed simp
  then show ?thesis by (simp add: register_def)
qed

lemma dyn_NewHooks_ok: "dyn_ok dyn_NewHooks"
  by (simp add: dyn_ok_def dyn_NewHooks_def dyn_store_def)

section \<open>Dispatch survives panics\<close>

definition panics :: "(unit, 'v) outcome \<Rightarrow> 'v option" where
  "panics r = (case r of Ret _ \<Rightarrow> None | Panic v \<Rightarrow> Some v)"

fun hook_trace :: "('k, 'c, 'v, 'p, 'w) hook_run \<Rightarrow> ('c, 'v, 'p) hook_arg \<Rightarrow> 'k list \<Rightarrow> 'w \<Rightarrow> ('k \<times> 'v option) list" where
  "hook_trace run arg [] w = []"
| "hook_trace run arg (fn # fns) w =
     (fn, panics (fst (run fn arg w))) # hook_trace run arg fns (snd (run fn arg w))"

text \<open>
  Whatever the callbacks do, each one runs, in the world its predecessors left, and the
  log gains one entry for each that panicked, in order.
\<close>

lemma dispatch_all_complete:
  "dispatch_all run name arg fns (w, lg) =
     (fold (\<lambda>fn w. snd (run fn arg w)) fns w,
      lg @ map (\<lambda>v. HookPanicked name v) (List.map_filter snd (hook_trace run arg fns w)))"
proof (induction fns arbitrary: w lg)
  case (Cons fn fns)
  obtain r w' where r: "run fn arg w = (r, w')" by fastforce
  show ?case
    using Cons by (cases r) (simp_all add: invoke_def r panics_def List.map_filter_simps)
qed (simp add: List.map_filter_simps)

lemma hook_trace_fst: "map fst (hook_trace run arg fns w) = fns"
  by (induction fns arbitrary: w) simp_all

lemma dyn_invoke_eq: "dyn_invoke = invoke"
  by (simp add: dyn_invoke_def invoke_def fun_eq_iff)

lemma dyn_dispatch_all_eq: "dyn_dispatch_all run name arg fns st = dispatch_all run name arg fns st"
  by (induction fns arbitrary: st) (simp_all add: dyn_invoke_eq)

section \<open>Properties\<close>

text \<open>
  A panicking callback affects neither the dispatcher nor the other callbacks: a
  dispatch runs every registered callback once, in registration order, each in the world
  its predecessors left, and logs exactly one entry per panic, in order.
\<close>

theorem dispatch_runs_every_callback:
  "DispatchTaskCompleted run h ctx rec (w, lg) =
     (fold (\<lambda>fn w. snd (run fn (ArgCompleted ctx rec) w)) (taskCompleted h) w,
      lg @ map (HookPanicked OnTaskCompleted)
             (List.map_filter snd (hook_trace run (ArgCompleted ctx rec) (taskCompleted h) w))) \<and>
   map fst (hook_trace run (ArgCompleted ctx rec) (taskCompleted h) w) = taskCompleted h"
  by (simp add: DispatchTaskCompleted_def dispatch_all_complete hook_trace_fst)

text \<open>
  C34. The dynamic dispatcher is a drop-in replacement for the bundled one: after the same
  registrations, in any order over the events, both dispatch the same callbacks in the same
  order with the same effects and logs, for every event.
\<close>

theorem dynamic_hooks_equivalent:
  "dyn_DispatchTaskSubmitted run (register dyn_Add regs dyn_NewHooks) ctx st =
     DispatchTaskSubmitted run (register hook_Add regs NewHooks) ctx st \<and>
   dyn_DispatchTaskEnqueued run (register dyn_Add regs dyn_NewHooks) ctx st =
     DispatchTaskEnqueued run (register hook_Add regs NewHooks) ctx st \<and>
   dyn_DispatchTaskStarted run (register dyn_Add regs dyn_NewHooks) ctx st =
     DispatchTaskStarted run (register hook_Add regs NewHooks) ctx st \<and>
   dyn_DispatchTaskCompleted run (register dyn_Add regs dyn_NewHooks) ctx rec st =
     DispatchTaskCompleted run (register hook_Add regs NewHooks) ctx rec st \<and>
   dyn_DispatchPoolClosed run (register dyn_Add regs dyn_NewHooks) pool st =
     DispatchPoolClosed run (register hook_Add regs NewHooks) pool st"
proof -
  have "callbacks_of (snapshot (register dyn_Add regs dyn_NewHooks)) e = callbacks_of (register hook_Add regs NewHooks) e" for e
    unfolding dyn_hooks.registered_register static_hooks.registered_register ..
  from this [of OnTaskSubmitted] this [of OnTaskEnqueued] this [of OnTaskStarted] this [of OnTaskCompleted]
    this [of OnPoolClosed] show ?thesis
    by (simp add: dyn_DispatchTaskSubmitted_def DispatchTaskSubmitted_def dyn_DispatchTaskEnqueued_def
        DispatchTaskEnqueued_def dyn_DispatchTaskStarted_def DispatchTaskStarted_def
        dyn_DispatchTaskCompleted_def DispatchTaskCompleted_def dyn_DispatchPoolClosed_def DispatchPoolClosed_def
        dyn_dispatch_all_eq split: option.split)
qed

text \<open>
  A published snapshot is immutable: whatever is registered after a dispatch has taken
  its snapshot, the callbacks of that snapshot stay the same, so a registration made during
  a dispatch applies to later dispatches only.
\<close>

theorem published_snapshot_immutable:
  assumes "h = register dyn_Add regs dyn_NewHooks" and "snapshots h = Some a"
  shows "snapMem (register dyn_Add later h) a = Some (snapshot h)"
proof -
  have inv: "dyn_ok (register dyn_Add rs g) \<and> snapMem (register dyn_Add rs g) (the (snapshots (register dyn_Add rs g))) \<noteq> None"
    if "dyn_ok g" "snapMem g (the (snapshots g)) \<noteq> None" for rs and g :: "'a DynHooks"
    using that
  proof (induction rs arbitrary: g)
    case Nil
    then show ?case by (simp add: register_def)
  next
    case (Cons r rs)
    obtain e fn where r: "r = (e, fn)" by fastforce
    obtain s where s: "dyn_Add e fn g = dyn_store s g" using dyn_Add_store [of e fn g] by blast
    have "dyn_ok (dyn_store s g)" using Cons.prems(1) by (fastforce simp: dyn_ok_def dyn_store_def less_Suc_eq)
    moreover have "snapMem (dyn_store s g) (the (snapshots (dyn_store s g))) \<noteq> None" by (simp add: dyn_store_def)
    ultimately show ?case using Cons.IH [of "dyn_store s g"] by (simp add: register_def r s)
  qed
  have "dyn_ok h" "snapMem h (the (snapshots h)) \<noteq> None"
    using inv [OF dyn_NewHooks_ok, of regs] unfolding assms(1) by (simp_all add: dyn_NewHooks_def dyn_store_def)
  then have "snapMem h a = Some (snapshot h)" using assms(2) by (auto simp: snapshot_def)
  then show ?thesis by (rule register_keeps [OF \<open>dyn_ok h\<close>])
qed

theorem published_snapshot_immutable_witness:
  "snapMem (register dyn_Add [(OnTaskStarted, ''b'')] (register dyn_Add [(OnTaskStarted, ''a'')] dyn_NewHooks)) 1 =
     Some (NewHooks\<lparr>taskStarted := [''a'']\<rparr>)"
proof -
  have "snapshots (register dyn_Add [(OnTaskStarted, ''a'')] dyn_NewHooks) = Some 1"
    by (simp add: register_def dyn_AddTaskStarted_def dyn_store_def dyn_NewHooks_def Let_def)
  moreover have "snapshot (register dyn_Add [(OnTaskStarted, ''a'')] dyn_NewHooks) = NewHooks\<lparr>taskStarted := [''a'']\<rparr>"
    by (simp add: register_def dyn_AddTaskStarted_def dyn_NewHooks_def Let_def appendCallback_snoc NewHooks_def)
  ultimately show ?thesis
    using published_snapshot_immutable [OF refl, of "[(OnTaskStarted, ''a'')]" 1 "[(OnTaskStarted, ''b'')]"]
    by (simp only:)
qed

end
