(* ===== verification/Histogram.thy ===== *)
theory Histogram
  imports Go_Float
begin

text \<open>
  \<^verbatim>\<open>histogram.go\<close>: the fixed-bucket histograms over a sliding window of samples
  from which the scaler reads its median rates. The window is a ring buffer of bucket
  indices; the counters are kept incrementally. The refinement relation \<open>hist_rep\<close>
  ties a histogram to the list of bucket indices in its window, oldest first, and the
  main theorem relates \<open>median\<close> to the true median of the sampled values.
\<close>

section \<open>Data and operations\<close>

record bucketDef =
  low :: int
  high :: int

record histogram =
  buckets :: "bucketDef list"
  counts :: "int list"
  total :: int
  samples :: "int list"
  pos :: nat
  filled :: bool

definition newHistogram :: "bucketDef list \<Rightarrow> nat \<Rightarrow> histogram" where
  "newHistogram bs windowSize =
     \<lparr>buckets = bs, counts = replicate (length bs) 0, total = 0,
      samples = replicate windowSize 0, pos = 0, filled = False\<rparr>"

definition in_bucket :: "int \<Rightarrow> bucketDef \<Rightarrow> bool" where
  "in_bucket value b \<longleftrightarrow> low b \<le> value \<and> (high b = - 1 \<or> value \<le> high b)"

fun bucket_scan :: "int \<Rightarrow> nat \<Rightarrow> bucketDef list \<Rightarrow> int option" where
  "bucket_scan value i [] = None"
| "bucket_scan value i (b # bs) =
     (if in_bucket value b then Some (int i) else bucket_scan value (Suc i) bs)"

definition bucket_of :: "bucketDef list \<Rightarrow> int \<Rightarrow> int" where
  "bucket_of bs value =
     (case bucket_scan value 0 bs of
        Some i \<Rightarrow> i
      | None \<Rightarrow> int (length bs) - 1)"

definition bucketIndex :: "histogram \<Rightarrow> int \<Rightarrow> int" where
  "bucketIndex h value = bucket_of (buckets h) value"

text \<open>Access to a slice by an \<^verbatim>\<open>int\<close> index; \<open>None\<close> is the index panic.\<close>

definition idx_ok :: "int \<Rightarrow> 'a list \<Rightarrow> bool" where
  "idx_ok i xs \<longleftrightarrow> 0 \<le> i \<and> i < int (length xs)"

definition bump :: "int list \<Rightarrow> int \<Rightarrow> int \<Rightarrow> int list option" where
  "bump xs i d = (if idx_ok i xs then Some (xs[nat i := xs ! nat i + d]) else None)"

definition hist_evict :: "histogram \<Rightarrow> histogram option" where
  "hist_evict h =
     (if filled h then
        if pos h < length (samples h) then
          (case bump (counts h) (samples h ! pos h) (- 1) of
             None \<Rightarrow> None
           | Some cs \<Rightarrow> Some (h\<lparr>counts := cs, total := total h - 1\<rparr>))
        else None
      else Some h)"

definition hist_record :: "int \<Rightarrow> histogram \<Rightarrow> histogram option" where
  "hist_record idx h =
     (if pos h < length (samples h) then
        (case bump (counts h) idx 1 of
           None \<Rightarrow> None
         | Some cs \<Rightarrow>
             Some (h\<lparr>samples := (samples h)[pos h := idx], counts := cs, total := total h + 1\<rparr>))
      else None)"

definition hist_advance :: "histogram \<Rightarrow> histogram" where
  "hist_advance h =
     (if length (samples h) \<le> pos h + 1 then h\<lparr>pos := 0, filled := True\<rparr>
      else h\<lparr>pos := pos h + 1\<rparr>)"

definition hist_add :: "histogram \<Rightarrow> int \<Rightarrow> histogram option" where
  "hist_add h value =
     (let idx = bucketIndex h value in
      case hist_evict h of
        None \<Rightarrow> None
      | Some h1 \<Rightarrow> map_option hist_advance (hist_record idx h1))"

definition bucket_mid :: "bucketDef \<Rightarrow> float64" where
  "bucket_mid b =
     (if high b = - 1 then f_of_int (low b)
      else f_div (f_of_int (wrap64 (low b + high b))) (Fin 2))"

fun median_scan :: "bucketDef list \<Rightarrow> int \<Rightarrow> int \<Rightarrow> nat \<Rightarrow> int list \<Rightarrow> float64 option" where
  "median_scan bs mid cum i [] = Some (Fin 0)"
| "median_scan bs mid cum i (cnt # cs) =
     (if mid < cum + cnt then (if i < length bs then Some (bucket_mid (bs ! i)) else None)
      else median_scan bs mid (cum + cnt) (Suc i) cs)"

definition median :: "histogram \<Rightarrow> float64 option" where
  "median h =
     (if total h = 0 then Some (Fin 0)
      else median_scan (buckets h) (total h div 2) 0 0 (counts h))"

definition submitBuckets :: "bucketDef list" where
  "submitBuckets =
     [\<lparr>low = 0, high = 0\<rparr>, \<lparr>low = 1, high = 5\<rparr>, \<lparr>low = 6, high = 20\<rparr>, \<lparr>low = 21, high = 100\<rparr>,
      \<lparr>low = 101, high = 500\<rparr>, \<lparr>low = 501, high = 2000\<rparr>, \<lparr>low = 2001, high = 10000\<rparr>,
      \<lparr>low = 10001, high = - 1\<rparr>]"

definition consumeBuckets :: "bucketDef list" where
  "consumeBuckets =
     [\<lparr>low = 0, high = 0\<rparr>, \<lparr>low = 1, high = 5\<rparr>, \<lparr>low = 6, high = 20\<rparr>, \<lparr>low = 21, high = 100\<rparr>,
      \<lparr>low = 101, high = 500\<rparr>, \<lparr>low = 501, high = 2000\<rparr>, \<lparr>low = 2001, high = 10000\<rparr>,
      \<lparr>low = 10001, high = - 1\<rparr>]"

definition exitBuckets :: "bucketDef list" where
  "exitBuckets =
     [\<lparr>low = 0, high = 0\<rparr>, \<lparr>low = 1, high = 2\<rparr>, \<lparr>low = 3, high = 5\<rparr>, \<lparr>low = 6, high = 10\<rparr>,
      \<lparr>low = 11, high = 20\<rparr>, \<lparr>low = 21, high = 50\<rparr>, \<lparr>low = 51, high = 100\<rparr>,
      \<lparr>low = 101, high = - 1\<rparr>]"

text \<open>A sequence of samples, as \<^verbatim>\<open>sampleRates\<close> feeds one histogram over time.\<close>

fun hist_adds :: "histogram \<Rightarrow> int list \<Rightarrow> histogram option" where
  "hist_adds h [] = Some h"
| "hist_adds h (v # vs) = (case hist_add h v of None \<Rightarrow> None | Some h' \<Rightarrow> hist_adds h' vs)"

section \<open>The window a histogram stands for\<close>

definition hist_window :: "histogram \<Rightarrow> int list" where
  "hist_window h =
     (if filled h then drop (pos h) (samples h) @ take (pos h) (samples h)
      else take (pos h) (samples h))"

definition tally :: "nat \<Rightarrow> int list \<Rightarrow> int list" where
  "tally n xs = map (\<lambda>i. int (count_list xs (int i))) [0..<n]"

definition hist_rep :: "bucketDef list \<Rightarrow> nat \<Rightarrow> histogram \<Rightarrow> int list \<Rightarrow> bool" where
  "hist_rep bs w h xs \<longleftrightarrow>
     bs \<noteq> [] \<and> buckets h = bs \<and> length (samples h) = w \<and> pos h < w \<and> xs = hist_window h \<and>
     (\<forall>x\<in>set xs. 0 \<le> x \<and> x < int (length bs)) \<and>
     counts h = tally (length bs) xs \<and> total h = int (length xs)"

lemma bucket_scan_range:
  "bucket_scan v i bs = Some k \<Longrightarrow> int i \<le> k \<and> k < int (i + length bs)"
  by (induction v i bs rule: bucket_scan.induct) (fastforce split: if_splits)+

lemma bucketIndex_range:
  assumes "buckets h \<noteq> []"
  shows "0 \<le> bucketIndex h v \<and> bucketIndex h v < int (length (buckets h))"
proof -
  have "1 \<le> int (length (buckets h))" using assms by (cases "buckets h") auto
  then show ?thesis
    using bucket_scan_range [of v 0 "buckets h"] by (auto simp: bucketIndex_def bucket_of_def split: option.split)
qed

lemma newHistogram_rep: "bs \<noteq> [] \<Longrightarrow> 0 < w \<Longrightarrow> hist_rep bs w (newHistogram bs w) []"
  by (simp add: hist_rep_def newHistogram_def hist_window_def tally_def map_replicate_const)

lemma bump_counts:
  assumes "0 \<le> x" and "x < int n"
  shows "bump (tally n xs) x 1 = Some (tally n (xs @ [x]))"
    and "bump (tally n (x # xs)) x (- 1) = Some (tally n xs)"
  using assms by (auto simp: tally_def bump_def idx_ok_def nth_list_update intro!: nth_equalityI)

text \<open>Eviction drops the oldest sample of a full window; recording appends the newest.\<close>

lemma hist_evict_ok:
  assumes "hist_rep bs w h xs"
  shows "\<exists>h1. hist_evict h = Some h1 \<and> buckets h1 = bs \<and> samples h1 = samples h \<and> pos h1 = pos h \<and>
           filled h1 = filled h \<and>
           counts h1 = tally (length bs) (if filled h then tl xs else xs) \<and>
           total h1 = int (length (if filled h then tl xs else xs))"
proof (cases "filled h")
  case True
  have p: "pos h < length (samples h)" using assms by (simp add: hist_rep_def)
  obtain x ys where x: "x = samples h ! pos h" and xs: "xs = x # ys"
    using assms True p by (simp add: hist_rep_def hist_window_def flip: Cons_nth_drop_Suc)
  have r: "0 \<le> x" "x < int (length bs)" "counts h = tally (length bs) (x # ys)" "total h = 1 + int (length ys)"
    "buckets h = bs"
    using assms xs by (auto simp: hist_rep_def)
  show ?thesis
    unfolding hist_evict_def xs using p True x [symmetric] bump_counts(2) [OF r(1,2), of ys] r(3-) by simp
qed (use assms in \<open>simp add: hist_evict_def hist_rep_def\<close>)

lemma hist_add_rep:
  assumes "hist_rep bs w h xs"
  shows "\<exists>h'. hist_add h v = Some h' \<and> hist_rep bs w h' (last_n w (xs @ [bucketIndex h v]))"
proof -
  let ?i = "bucketIndex h v" and ?ys = "if filled h then tl xs else xs"
  have i: "0 \<le> ?i" "?i < int (length bs)" and w: "pos h < w" "length (samples h) = w" and bs: "bs \<noteq> []"
    and xs: "xs = hist_window h"
    using assms bucketIndex_range [of h v] by (auto simp: hist_rep_def)
  obtain h1 where h1: "hist_evict h = Some h1" "buckets h1 = bs" "samples h1 = samples h" "pos h1 = pos h"
    "filled h1 = filled h" "counts h1 = tally (length bs) ?ys"
    "total h1 = int (length ?ys)"
    using hist_evict_ok [OF assms] by blast
  define h2 where "h2 = h1\<lparr>samples := (samples h)[pos h := ?i],
    counts := tally (length bs) (?ys @ [?i]), total := total h1 + 1\<rparr>"
  have rec: "hist_record ?i h1 = Some h2"
    using h1 w bump_counts(1) [OF i] by (simp add: hist_record_def h2_def)
  have ys: "last_n w (xs @ [?i]) = ?ys @ [?i]"
  proof (cases "filled h")
    case True
    then have "length xs = w" unfolding xs hist_window_def using w by simp
    with w show ?thesis using True by (cases xs) (simp_all add: last_n_def)
  qed (use w in \<open>simp add: xs hist_window_def last_n_short\<close>)
  have win: "hist_window (hist_advance h2) = ?ys @ [?i]"
  proof -
    have t: "take (Suc (pos h)) ((samples h)[pos h := ?i]) = take (pos h) (samples h) @ [?i]"
      using w by (simp add: take_Suc_update)
    moreover have "tl (drop (pos h) (samples h)) = drop (Suc (pos h)) (samples h)"
      by (simp add: drop_Suc tl_drop)
    moreover have "(samples h)[pos h := ?i] = take (pos h) (samples h) @ [?i]" if "w \<le> Suc (pos h)"
      using t w that by simp
    ultimately show ?thesis
      unfolding xs using w h1(4,5) by (auto simp: h2_def hist_advance_def hist_window_def)
  qed
  have "set ?ys \<subseteq> set xs" by (cases xs) auto
  then have "\<forall>x\<in>set (?ys @ [?i]). 0 \<le> x \<and> x < int (length bs)"
    using assms i by (auto simp: hist_rep_def)
  then have "hist_rep bs w (hist_advance h2) (?ys @ [?i])"
    unfolding hist_rep_def win using w h1 bs by (auto simp: h2_def hist_advance_def)
  then show ?thesis
    using h1(1) rec ys by (simp add: hist_add_def Let_def)
qed

lemma bucketIndex_cong: "buckets h = buckets h' \<Longrightarrow> bucketIndex h v = bucketIndex h' v"
  by (simp add: bucketIndex_def)

lemma hist_adds_rep:
  assumes "hist_rep bs w h xs"
  shows "\<exists>h'. hist_adds h vs = Some h' \<and> hist_rep bs w h' (last_n w (xs @ map (bucketIndex h) vs))"
  using assms
proof (induction vs arbitrary: h xs)
  case Nil
  then have "length xs \<le> w" by (auto simp: hist_rep_def hist_window_def)
  with Nil show ?case by (simp add: last_n_short)
next
  case (Cons v vs)
  obtain h1 where h1: "hist_add h v = Some h1" "hist_rep bs w h1 (last_n w (xs @ [bucketIndex h v]))"
    using hist_add_rep [OF Cons.prems] by blast
  have w: "0 < w" and b: "bucketIndex h1 = bucketIndex h"
    using Cons.prems h1(2) bucketIndex_cong [of h1 h] unfolding hist_rep_def by (auto simp: fun_eq_iff)
  have "last_n w (last_n w (xs @ [bucketIndex h v]) @ map (bucketIndex h) vs)
      = last_n w (xs @ bucketIndex h v # map (bucketIndex h) vs)"
    using last_n_append [OF w] by (metis append.assoc append_Cons append_Nil)
  then show ?case using Cons.IH [OF h1(2)] h1(1) b by simp
qed

section \<open>The median\<close>

text \<open>
  The scan stops at the bucket of the element at position \<open>n div 2\<close> of the sorted window.
\<close>

lemma nth_sorted_le_iff:
  assumes "sorted s" and "k < length s"
  shows "s ! k \<le> x \<longleftrightarrow> k < length (filter (\<lambda>y. y \<le> x) s)"
  using assms
proof (induction s arbitrary: k)
  case (Cons a s)
  then show ?case
  proof (cases k)
    case 0
    have "filter (\<lambda>y. y \<le> x) s = []" if "\<not> a \<le> x"
      using Cons.prems(1) that by (auto simp: filter_empty_conv)
    with 0 show ?thesis by auto
  next
    case (Suc j)
    have "filter (\<lambda>y. y \<le> x) s = []" if "\<not> a \<le> x"
      using Cons.prems(1) that by (auto simp: filter_empty_conv)
    moreover have "a \<le> s ! j" using Cons.prems Suc by simp
    ultimately show ?thesis using Cons Suc by auto
  qed
qed simp

lemma length_filter_le_Suc:
  "int (length (filter (\<lambda>y. y < int (Suc i)) xs)) =
     int (length (filter (\<lambda>y. y < int i) xs)) + int (count_list xs (int i))"
  by (induction xs) auto

lemma median_scan_sorted:
  assumes "k < length xs" and "i \<le> length bs" and "\<forall>x\<in>set xs. 0 \<le> x \<and> x < int (length bs)"
    and "int i \<le> sort xs ! k"
  shows "median_scan bs (int k) (int (length (filter (\<lambda>y. y < int i) xs))) i (drop i (tally (length bs) xs))
           = Some (bucket_mid (bs ! nat (sort xs ! k)))"
  using assms(2,4)
proof (induction "length bs - i" arbitrary: i)
  case 0
  moreover have "sort xs ! k < int (length bs)"
    using assms(1,3) by (metis length_sort nth_mem set_sort)
  ultimately show ?case by simp
next
  case (Suc d)
  have i: "i < length bs" using Suc.hyps(2) by simp
  have drop: "drop i (tally (length bs) xs) = int (count_list xs (int i)) # drop (Suc i) (tally (length bs) xs)"
    using i by (simp add: tally_def flip: Cons_nth_drop_Suc)
  have f: "length (filter P (sort xs)) = length (filter P xs)" for P
    by (metis mset_filter mset_sort size_mset)
  have le: "(\<lambda>y. y < int (Suc i)) = (\<lambda>y. y \<le> int i)" by auto
  have "sort xs ! k \<le> int i \<longleftrightarrow> k < length (filter (\<lambda>y. y < int (Suc i)) xs)"
    using nth_sorted_le_iff [of "sort xs" k "int i"] assms(1) f [of "\<lambda>y. y \<le> int i"] le by simp
  then have *: "int k < int (length (filter (\<lambda>y. y < int i) xs)) + int (count_list xs (int i)) \<longleftrightarrow> sort xs ! k = int i"
    using length_filter_le_Suc [of i xs] Suc.prems(2) by linarith
  show ?case
  proof (cases "sort xs ! k = int i")
    case True
    then show ?thesis using i * unfolding drop by simp
  next
    case False
    then have "median_scan bs (int k) (int (length (filter (\<lambda>y. y < int (Suc i)) xs))) (Suc i)
        (drop (Suc i) (tally (length bs) xs)) = Some (bucket_mid (bs ! nat (sort xs ! k)))"
      using Suc.hyps(2) Suc.prems by (intro Suc.hyps(1)) simp_all
    then show ?thesis
      unfolding drop length_filter_le_Suc using False * by simp
  qed
qed

lemma median_window:
  assumes "hist_rep bs w h xs" and "xs \<noteq> []"
  shows "median h = Some (bucket_mid (bs ! nat (sort xs ! (length xs div 2))))"
proof -
  have k: "length xs div 2 < length xs" using assms(2) by simp
  have "0 \<le> sort xs ! (length xs div 2)"
    using assms(1) k by (metis hist_rep_def length_sort nth_mem set_sort)
  moreover have "filter (\<lambda>y. y < 0) xs = []"
    using assms(1) by (auto simp: hist_rep_def filter_empty_conv)
  moreover have r: "\<forall>x\<in>set xs. 0 \<le> x \<and> x < int (length bs)" "buckets h = bs" "counts h = tally (length bs) xs"
    "total h = int (length xs)"
    using assms(1) by (simp_all add: hist_rep_def)
  ultimately show ?thesis
    unfolding median_def r(2-) using median_scan_sorted [OF k _ r(1), of 0] assms(2) by (simp add: zdiv_int)
qed

text \<open>
  Sorting commutes with a monotone bucketing, so for a table whose buckets are adjacent
  the bucket of the median index is the bucket of the median value.
\<close>

lemma sort_map_mono:
  assumes "\<And>x y. x \<in> set xs \<Longrightarrow> y \<in> set xs \<Longrightarrow> x \<le> y \<Longrightarrow> f x \<le> f y"
  shows "sort (map f xs) = map f (sort xs)"
proof (rule properties_for_sort)
  show "sorted (map f (sort xs))"
    unfolding sorted_map
    by (rule sorted_wrt_mono_rel [OF _ sorted_sort [of xs]]) (use assms in simp)
qed simp

definition default_table :: "bucketDef list \<Rightarrow> bool" where
  "default_table bs \<longleftrightarrow> bs = submitBuckets \<or> bs = consumeBuckets \<or> bs = exitBuckets"

lemma bucketIndex_mono:
  assumes "default_table (buckets h)" and "0 \<le> v" and "v \<le> v'"
  shows "bucketIndex h v \<le> bucketIndex h v'"
  using assms unfolding default_table_def
  by (auto simp: bucketIndex_def bucket_of_def submitBuckets_def consumeBuckets_def exitBuckets_def in_bucket_def)

lemma bucket_scan_in_bucket:
  "bucket_scan v i bs = Some k \<Longrightarrow> in_bucket v (bs ! (nat k - i))"
proof (induction v i bs rule: bucket_scan.induct)
  case (2 v i b bs)
  show ?case
  proof (cases "in_bucket v b")
    case False
    with 2 have "in_bucket v (bs ! (nat k - Suc i))" and "int (Suc i) \<le> k"
      using bucket_scan_range [of v "Suc i" bs k] by auto
    moreover from this(2) have "nat k - i = Suc (nat k - Suc i)" by linarith
    ultimately show ?thesis by simp
  qed (use 2 in auto)
qed simp

lemma bucketIndex_in_bucket:
  assumes "default_table (buckets h)" and "0 \<le> v"
  shows "in_bucket v (buckets h ! nat (bucketIndex h v))"
proof -
  have "bucket_scan v 0 (buckets h) \<noteq> None"
    using assms unfolding default_table_def
    by (auto simp: submitBuckets_def consumeBuckets_def exitBuckets_def in_bucket_def)
  then obtain k where "bucket_scan v 0 (buckets h) = Some k" by auto
  with bucket_scan_in_bucket [OF this] show ?thesis by (simp add: bucketIndex_def bucket_of_def)
qed

definition median_value :: "int list \<Rightarrow> int" where
  "median_value vs = sort vs ! (length vs div 2)"

lemma hist_median_last:
  assumes "default_table bs" and "0 < w" and "vs \<noteq> []" and "\<forall>v\<in>set vs. 0 \<le> v"
  shows "\<exists>h b. hist_adds (newHistogram bs w) vs = Some h \<and> b \<in> set bs \<and>
           in_bucket (median_value (last_n w vs)) b \<and> median h = Some (bucket_mid b)"
proof -
  let ?h0 = "newHistogram bs w" and ?L = "last_n w vs"
  have bs: "bs \<noteq> []" using assms(1) by (auto simp: default_table_def submitBuckets_def consumeBuckets_def exitBuckets_def)
  have b0: "buckets ?h0 = bs" by (simp add: newHistogram_def)
  obtain h where h: "hist_adds ?h0 vs = Some h" "hist_rep bs w h (map (bucketIndex ?h0) ?L)"
    using hist_adds_rep [OF newHistogram_rep [OF bs assms(2)], of vs] by (auto simp: last_n_map)
  have L: "?L \<noteq> []" "length ?L div 2 < length ?L" "\<forall>v\<in>set ?L. 0 \<le> v"
    using assms(2-4) set_last_n [of w vs] by (auto simp flip: length_greater_0_conv)
  have "sort (map (bucketIndex ?h0) ?L) = map (bucketIndex ?h0) (sort ?L)"
    by (rule sort_map_mono) (use L(3) assms(1) b0 bucketIndex_mono [of ?h0] in auto)
  then have m: "median h = Some (bucket_mid (bs ! nat (bucketIndex ?h0 (median_value ?L))))"
    using median_window [OF h(2)] L by (simp add: median_value_def)
  have "median_value ?L \<in> set ?L"
    unfolding median_value_def using L(2) by (metis length_sort nth_mem set_sort)
  then have "in_bucket (median_value ?L) (bs ! nat (bucketIndex ?h0 (median_value ?L)))"
    using bucketIndex_in_bucket [of ?h0] assms(1) L(3) b0 by simp
  moreover have "bs ! nat (bucketIndex ?h0 (median_value ?L)) \<in> set bs"
    using bucketIndex_range [of ?h0 "median_value ?L"] b0 bs by (intro nth_mem) (simp add: nat_less_iff)
  ultimately show ?thesis using h(1) m by blast
qed

section \<open>Properties\<close>

text \<open>
  C18. \<^verbatim>\<open>median\<close> is the representative of the bucket of the true median: after any
  non-empty sequence of non-negative samples, a histogram over one of the default tables
  has not panicked, and \<^verbatim>\<open>median()\<close> returns the midpoint of the bucket that contains the
  (upper) median of the last \<^verbatim>\<open>windowSize\<close> samples.
\<close>

theorem median_of_recent_samples:
  assumes "default_table bs" and "0 < w" and "vs \<noteq> []" and "\<forall>v\<in>set vs. 0 \<le> v"
  shows "\<exists>h b. hist_adds (newHistogram bs w) vs = Some h \<and> b \<in> set bs \<and>
           in_bucket (median_value (last_n w vs)) b \<and> median h = Some (bucket_mid b)"
  by (rule hist_median_last [OF assms])

theorem median_of_recent_samples_witness:
  "\<exists>h b. hist_adds (newHistogram submitBuckets 2) [9000, 3, 700] = Some h \<and> b \<in> set submitBuckets \<and>
     in_bucket 700 b \<and> median h = Some (bucket_mid b)"
  using median_of_recent_samples [of submitBuckets 2 "[9000, 3, 700]"]
  by (simp add: default_table_def last_n_def median_value_def)

text \<open>
  The counters of a histogram are exact: after any sequence of samples \<^verbatim>\<open>counts[i]\<close> is
  the number of samples among the last \<^verbatim>\<open>windowSize\<close> that fell into bucket \<open>i\<close>, and
  \<^verbatim>\<open>total\<close> is how many samples are tracked; no index is out of range.
\<close>

theorem histogram_counts_exact:
  assumes "bs \<noteq> []" and "0 < w"
  shows "\<exists>h. hist_adds (newHistogram bs w) vs = Some h \<and> total h = int (min w (length vs)) \<and>
           (\<forall>i<length bs. counts h ! i = int (length (filter (\<lambda>v. bucket_of bs v = int i) (last_n w vs))))"
proof -
  let ?h0 = "newHistogram bs w"
  have b: "bucketIndex ?h0 = bucket_of bs" by (simp add: fun_eq_iff bucketIndex_def newHistogram_def)
  obtain h where h: "hist_adds ?h0 vs = Some h" "hist_rep bs w h (map (bucket_of bs) (last_n w vs))"
    using hist_adds_rep [OF newHistogram_rep [OF assms], of vs] unfolding b by (auto simp: last_n_map)
  have "count_list (map f ys) k = length (filter (\<lambda>v. f v = k) ys)" for f :: "int \<Rightarrow> int" and ys k
    by (induction ys) auto
  then show ?thesis using h by (auto simp: hist_rep_def tally_def)
qed

theorem histogram_counts_exact_witness:
  "\<exists>h. hist_adds (newHistogram exitBuckets 2) [0, 4, 5] = Some h \<and> total h = 2 \<and> counts h ! 2 = 2"
proof -
  have ne: "exitBuckets \<noteq> []" "2 < length exitBuckets" by (simp_all add: exitBuckets_def)
  obtain h where h: "hist_adds (newHistogram exitBuckets 2) [0, 4, 5] = Some h" "total h = int (min 2 3)"
    "\<forall>i<length exitBuckets. counts h ! i =
       int (length (filter (\<lambda>v. bucket_of exitBuckets v = int i) (last_n 2 [0, 4, 5])))"
    using histogram_counts_exact [OF ne(1), of 2 "[0, 4, 5]"] by auto
  have "counts h ! 2 = 2"
    using h(3) ne(2) by (simp add: bucket_of_def exitBuckets_def in_bucket_def last_n_def)
  then show ?thesis using h(1,2) by auto
qed

end
