(* ===== verification/Idle_Slice.thy ===== *)
theory Idle_Slice
  imports Idle_Spec
begin

text \<open>
  \<^verbatim>\<open>idle.Slice\<close> (\<^verbatim>\<open>internal/idle/slice.go\<close>): a Go slice with a separate length
  counter. \<^verbatim>\<open>RemoveExpired\<close> compacts the survivors in place: \<^verbatim>\<open>survivors\<close>
  shares the backing array of \<^verbatim>\<open>s.workers\<close>, so an append writes into the array the loop
  is still reading. The slots are options, \<open>None\<close> for the zero value of \<^verbatim>\<open>T\<close>; calling
  \<^verbatim>\<open>DatedTime\<close> on it panics.
\<close>

section \<open>Model\<close>

record 'a Slice =
  workers :: "'a option list"
  slength :: int

definition NewSlice :: "'a Slice" where
  [idle_defs]: "NewSlice = \<lparr>workers = [], slength = 0\<rparr>"

definition Slice_Len :: "'a Slice \<Rightarrow> int" where
  [idle_defs]: "Slice_Len s = slength s"

definition Slice_Add :: "'a \<Rightarrow> 'a Slice \<Rightarrow> 'a Slice option" where
  [idle_defs]: "Slice_Add w s = Some (s\<lparr>workers := workers s @ [Some w], slength := slength s + 1\<rparr>)"

definition Slice_Pop :: "'a Slice \<Rightarrow> ('a option \<times> 'a Slice) option" where
  [idle_defs]: "Slice_Pop s =
     (if Slice_Len s = 0 then Some (None, s)
      else case workers s of
             [] \<Rightarrow> None \<comment> \<open>index out of range\<close>
           | w # ws \<Rightarrow> Some (w, s\<lparr>workers := ws, slength := slength s - 1\<rparr>))"

text \<open>
  The loop of \<^verbatim>\<open>RemoveExpired\<close>: \<open>i\<close> is the position read, \<open>k\<close> the length of
  \<^verbatim>\<open>survivors\<close>, the list is the shared backing array.
\<close>

function slice_scan ::
  "('a \<Rightarrow> time) \<Rightarrow> time \<Rightarrow> 'a option list \<Rightarrow> nat \<Rightarrow> nat \<Rightarrow> ('a option list \<times> nat) option" where
  "slice_scan DatedTime cutoff arr i k =
     (if i < length arr then
        (case arr ! i of
           None \<Rightarrow> None \<comment> \<open>nil dereference\<close>
         | Some w \<Rightarrow>
             if After (DatedTime w) cutoff
             then slice_scan DatedTime cutoff (arr[k := Some w]) (Suc i) (Suc k)
             else slice_scan DatedTime cutoff arr (Suc i) k)
      else Some (arr, k))"
  by pat_completeness auto
termination
  by (relation "measure (\<lambda>(dt, cutoff, arr, i, k). length arr - i)") auto

definition Slice_RemoveExpired ::
  "('a \<Rightarrow> time) \<Rightarrow> time \<Rightarrow> duration \<Rightarrow> 'a Slice \<Rightarrow> (int \<times> 'a Slice) option" where
  [idle_defs]: "Slice_RemoveExpired DatedTime now expiry s =
     (if Slice_Len s = 0 then Some (0, s)
      else
        let cutoff = time_Add now (neg_duration expiry); originalLen = length (workers s) in
        case slice_scan DatedTime cutoff (workers s) 0 0 of
          None \<Rightarrow> None
        | Some (arr, k) \<Rightarrow>
            let removed = originalLen - k in
            if 0 < removed
            then let zeroed = take k arr @ replicate removed None in
                 Some (int removed, s\<lparr>workers := take k zeroed, slength := slength s - int removed\<rparr>)
            else Some (int removed, s\<lparr>workers := arr\<rparr>))"

section \<open>Contents and invariant\<close>

definition slice_invar :: "'a Slice \<Rightarrow> bool" where
  "slice_invar s \<longleftrightarrow> None \<notin> set (workers s) \<and> slength s = int (length (workers s))"

definition slice_list :: "'a Slice \<Rightarrow> 'a list" where
  "slice_list s = map the (workers s)"

lemma slice_invarE:
  assumes "slice_invar s"
  obtains ws where "workers s = map Some ws" "slength s = int (length ws)" "slice_list s = ws"
proof
  have "Some (the x) = x" if "x \<in> set (workers s)" for x
    using assms that by (cases x) (auto simp: slice_invar_def)
  then show "workers s = map Some (slice_list s)"
    by (simp add: slice_list_def map_idI comp_def)
  then show "slength s = int (length (slice_list s))"
    using assms by (metis slice_invar_def length_map)
qed simp

section \<open>The in-place compaction\<close>

declare slice_scan.simps [simp del]

text \<open>
  The loop invariant: the first \<open>k\<close> slots hold the survivors among the first \<open>i\<close>
  elements, and the slots from \<open>i\<close> on are still the original ones.
\<close>

lemma slice_scan_correct:
  assumes "length arr = length ws" and "i \<le> length ws" and "k \<le> i"
    and "drop i arr = map Some (drop i ws)"
    and "take k arr = map Some (filter (\<lambda>w. After (dt w) c) (take i ws))"
  shows "\<exists>arr'. slice_scan dt c arr i k = Some (arr', length (filter (\<lambda>w. After (dt w) c) ws))
    \<and> length arr' = length ws
    \<and> take (length (filter (\<lambda>w. After (dt w) c) ws)) arr' = map Some (filter (\<lambda>w. After (dt w) c) ws)"
  using assms
proof (induction dt c arr i k rule: slice_scan.induct)
  case (1 dt c arr i k)
  have k: "k = length (filter (\<lambda>w. After (dt w) c) (take i ws))"
    using "1.prems" by (metis length_map length_take min.absorb2 le_trans)
  show ?case
  proof (cases "i < length ws")
    case False
    with "1.prems" k show ?thesis by (subst slice_scan.simps) simp
  next
    case True
    then have next_i: "take (Suc i) ws = take i ws @ [ws ! i]" by (rule take_Suc_conv_app_nth)
    have cell: "arr ! i = Some (ws ! i)" and rest: "drop (Suc i) arr = map Some (drop (Suc i) ws)"
      using "1.prems"(1,4) True by (simp_all add: Cons_nth_drop_Suc [symmetric])
    show ?thesis
    proof (cases "After (dt (ws ! i)) c")
      case keep: True
      let ?arr = "arr[k := Some (ws ! i)]"
      have "take (Suc k) ?arr = map Some (filter (\<lambda>w. After (dt w) c) (take (Suc i) ws))"
        using "1.prems" True keep by (simp add: take_Suc_update next_i)
      moreover have "drop (Suc i) ?arr = map Some (drop (Suc i) ws)"
        using "1.prems"(3) rest by simp
      ultimately show ?thesis
        using "1.IH"(1) [OF _ cell keep] "1.prems" True cell keep
        by (simp add: slice_scan.simps [of _ _ arr i k])
    next
      case False
      with "1.IH"(2) [OF _ cell False] "1.prems" True cell rest show ?thesis
        by (simp add: slice_scan.simps [of _ _ arr i k] next_i)
    qed
  qed
qed

lemma slice_scan_filter:
  "\<exists>arr. slice_scan dt c (map Some ws) 0 0 = Some (arr, length (filter (\<lambda>w. After (dt w) c) ws))
    \<and> length arr = length ws
    \<and> take (length (filter (\<lambda>w. After (dt w) c) ws)) arr = map Some (filter (\<lambda>w. After (dt w) c) ws)"
  by (rule slice_scan_correct) simp_all

lemma slice_RemoveExpired_list:
  assumes "slice_invar s" and "MinInt64 < e"
  shows "\<exists>s'. Slice_RemoveExpired dt now e s
      = Some (int (length (filter (expired dt now e) (slice_list s))), s')
    \<and> slice_invar s' \<and> slice_list s' = filter (\<lambda>w. \<not> expired dt now e w) (slice_list s)"
proof -
  obtain ws where ws: "workers s = map Some ws" "slength s = int (length ws)" "slice_list s = ws"
    using assms(1) by (rule slice_invarE)
  let ?c = "time_Add now (neg_duration e)"
  let ?keep = "filter (\<lambda>w. \<not> expired dt now e w) ws"
  have keep: "filter (\<lambda>w. After (dt w) ?c) ws = ?keep"
    by (simp add: After_cutoff [OF assms(2)])
  obtain arr where scan: "slice_scan dt ?c (map Some ws) 0 0 = Some (arr, length ?keep)"
    and len: "length arr = length ws" and arr: "take (length ?keep) arr = map Some ?keep"
    using slice_scan_filter [of dt ?c ws] unfolding keep by blast
  have cnt: "length ws - length ?keep = length (filter (expired dt now e) ws)"
    using sum_length_filter_compl [of "expired dt now e" ws] by simp
  show ?thesis
  proof (cases "0 < length ws - length ?keep")
    case True
    with ws scan arr len cnt show ?thesis
      by (auto simp: idle_defs Let_def slice_invar_def slice_list_def)
  next
    case False
    then have "length ?keep = length arr" using len length_filter_le le_antisym by fastforce
    with arr have "arr = map Some ?keep" by simp
    with False ws scan cnt len show ?thesis
      by (auto simp: idle_defs Let_def slice_invar_def slice_list_def)
  qed
qed

section \<open>The contract\<close>

interpretation slice: fifo_container NewSlice Slice_Add Slice_Pop "Slice_RemoveExpired dt" Slice_Len
    dt slice_invar slice_list
  for dt :: "'a \<Rightarrow> time"
proof unfold_locales
  show "slice_invar NewSlice \<and> slice_list NewSlice = []"
    by (simp add: NewSlice_def slice_invar_def slice_list_def)
next
  fix s :: "'a Slice" and w :: 'a
  assume "slice_invar s"
  then show "\<exists>s'. Slice_Add w s = Some s' \<and> slice_invar s' \<and> slice_list s' = slice_list s @ [w]"
    by (auto simp: idle_defs slice_invar_def slice_list_def)
next
  fix s :: "'a Slice"
  assume "slice_invar s" and "slice_list s = []"
  then show "Slice_Pop s = Some (None, s)"
    by (auto simp: idle_defs elim: slice_invarE)
next
  fix s :: "'a Slice" and w ws
  assume "slice_invar s" and "slice_list s = w # ws"
  then show "\<exists>s'. Slice_Pop s = Some (Some w, s') \<and> slice_invar s' \<and> slice_list s' = ws"
    by (auto simp: idle_defs slice_list_def slice_invar_def elim!: slice_invarE)
next
  fix s :: "'a Slice" and e :: duration and now :: time
  assume "slice_invar s" and "MinInt64 < e"
  then show "\<exists>s'. Slice_RemoveExpired dt now e s
      = Some (int (length (filter (expired dt now e) (slice_list s))), s')
    \<and> slice_invar s' \<and> slice_list s' = filter (\<lambda>w. \<not> expired dt now e w) (slice_list s)"
    by (rule slice_RemoveExpired_list)
next
  fix s :: "'a Slice"
  assume "slice_invar s"
  then show "Slice_Len s = int (length (slice_list s))"
    by (auto simp: idle_defs elim: slice_invarE)
qed

end
