(* ===== verification/Idle_RingQueue.thy ===== *)
theory Idle_RingQueue
  imports Idle_Slice
begin

text \<open>
  \<^verbatim>\<open>idle.RingQueue\<close> (\<^verbatim>\<open>internal/idle/ring_queue.go\<close>): a circular buffer that
  doubles when it is full. The proofs look at the buffer through \<open>rotate (rhead rq) (buf rq)\<close>,
  the slots in logical order: a write at \<^verbatim>\<open>(head + k) % cap\<close> is a write at position
  \<open>k\<close> of that view, so the compaction of \<^verbatim>\<open>RemoveExpired\<close> is the compaction of the
  slice container on the view.
\<close>

section \<open>Model\<close>

record 'a RingQueue =
  buf :: "'a option list"
  rhead :: nat
  rtail :: nat
  rlength :: int

definition defaultRingQueueCapacity :: nat where
  "defaultRingQueueCapacity = 64"

definition NewRingQueue :: "'a RingQueue" where
  [idle_defs]: "NewRingQueue =
     \<lparr>buf = replicate defaultRingQueueCapacity None, rhead = 0, rtail = 0, rlength = 0\<rparr>"

definition RingQueue_grow :: "'a RingQueue \<Rightarrow> 'a RingQueue" where
  "RingQueue_grow rq =
     (let n = nat (rlength rq); cap = length (buf rq); newCap = cap * 2;
          newBuf = fold (\<lambda>i nb. nb[i := buf rq ! ((rhead rq + i) mod cap)]) [0..<n]
                     (replicate newCap None)
      in rq\<lparr>rhead := 0, rtail := n, buf := newBuf\<rparr>)"

definition RingQueue_Add :: "'a \<Rightarrow> 'a RingQueue \<Rightarrow> 'a RingQueue option" where
  [idle_defs]: "RingQueue_Add w rq0 =
     (let rq = (if int (length (buf rq0)) = rlength rq0 then RingQueue_grow rq0 else rq0) in
      if rtail rq < length (buf rq)
      then Some (rq\<lparr>buf := (buf rq)[rtail rq := Some w],
                    rtail := (rtail rq + 1) mod length (buf rq),
                    rlength := rlength rq + 1\<rparr>)
      else None) \<comment> \<open>index out of range\<close>"

definition RingQueue_Pop :: "'a RingQueue \<Rightarrow> ('a option \<times> 'a RingQueue) option" where
  [idle_defs]: "RingQueue_Pop rq =
     (if rlength rq = 0 then Some (None, rq)
      else if rhead rq < length (buf rq)
      then Some (buf rq ! rhead rq,
             rq\<lparr>buf := (buf rq)[rhead rq := None],
                rhead := (rhead rq + 1) mod length (buf rq),
                rlength := rlength rq - 1\<rparr>)
      else None) \<comment> \<open>index out of range\<close>"

text \<open>The scan of \<^verbatim>\<open>RemoveExpired\<close>: \<open>h\<close> is \<^verbatim>\<open>rq.head\<close>, \<open>wi\<close> is \<^verbatim>\<open>writeIdx\<close>.\<close>

function ring_scan ::
  "('a \<Rightarrow> time) \<Rightarrow> time \<Rightarrow> nat \<Rightarrow> nat \<Rightarrow> 'a option list \<Rightarrow> nat \<Rightarrow> nat \<Rightarrow> ('a option list \<times> nat) option"
where
  "ring_scan DatedTime cutoff h n b i wi =
     (if i < n then
        (case b ! ((h + i) mod length b) of
           None \<Rightarrow> None \<comment> \<open>nil dereference\<close>
         | Some w \<Rightarrow>
             if After (DatedTime w) cutoff
             then ring_scan DatedTime cutoff h n
                    (if wi \<noteq> i then b[(h + wi) mod length b := Some w] else b) (Suc i) (Suc wi)
             else ring_scan DatedTime cutoff h n b (Suc i) wi)
      else Some (b, wi))"
  by pat_completeness auto
termination
  by (relation "measure (\<lambda>(dt, cutoff, h, n, b, i, wi). n - i)") auto

definition RingQueue_RemoveExpired ::
  "('a \<Rightarrow> time) \<Rightarrow> time \<Rightarrow> duration \<Rightarrow> 'a RingQueue \<Rightarrow> (int \<times> 'a RingQueue) option" where
  [idle_defs]: "RingQueue_RemoveExpired DatedTime now expiry rq =
     (let n = nat (rlength rq); cutoff = time_Add now (neg_duration expiry); cap = length (buf rq) in
      if n = 0 then Some (0, rq)
      else
        case ring_scan DatedTime cutoff (rhead rq) n (buf rq) 0 0 of
          None \<Rightarrow> None
        | Some (b, wi) \<Rightarrow>
            let b' = fold (\<lambda>i b. b[(rhead rq + i) mod cap := None]) [wi..<n] b; removed = n - wi in
            Some (int removed,
              rq\<lparr>buf := b', rtail := (rhead rq + wi) mod cap, rlength := rlength rq - int removed\<rparr>))"

definition RingQueue_Len :: "'a RingQueue \<Rightarrow> int" where
  [idle_defs]: "RingQueue_Len rq = rlength rq"

section \<open>The logical view\<close>

definition ring_list :: "'a RingQueue \<Rightarrow> 'a list" where
  "ring_list rq = map the (take (nat (rlength rq)) (rotate (rhead rq) (buf rq)))"

text \<open>
  Invariant: the buffer, read from the head, is the elements followed by cleared slots
  (a removed element is never kept reachable); the tail is one past the last element.
\<close>

definition ring_invar :: "'a RingQueue \<Rightarrow> bool" where
  "ring_invar rq \<longleftrightarrow>
     rhead rq < length (buf rq) \<and>
     rlength rq = int (length (ring_list rq)) \<and>
     rtail rq = (rhead rq + length (ring_list rq)) mod length (buf rq) \<and>
     rotate (rhead rq) (buf rq) =
       map Some (ring_list rq) @ replicate (length (buf rq) - length (ring_list rq)) None"

lemma ring_invarI:
  assumes "rhead rq < length (buf rq)" "rlength rq = int (length ws)"
    "rtail rq = (rhead rq + length ws) mod length (buf rq)"
    "rotate (rhead rq) (buf rq) = map Some ws @ replicate (length (buf rq) - length ws) None"
  shows "ring_invar rq \<and> ring_list rq = ws"
proof -
  have "ring_list rq = ws" using assms by (simp add: ring_list_def)
  with assms show ?thesis by (simp add: ring_invar_def)
qed

lemma ring_invar_length: "ring_invar rq \<Longrightarrow> length (ring_list rq) \<le> length (buf rq)"
  unfolding ring_invar_def ring_list_def by (metis length_map length_rotate length_take min.cobounded1)

lemma rotate_list_update:
  assumes "length b = cap" and "k < cap"
  shows "rotate h (b[(h + k) mod cap := x]) = (rotate h b)[k := x]"
proof (rule nth_equalityI)
  fix j assume "j < length (rotate h (b[(h + k) mod cap := x]))"
  with assms have j: "j < cap" by simp
  then have "(h + k) mod cap = (h + j) mod cap \<longleftrightarrow> k = j" and "(h + k) mod cap < cap"
    using mod_add_left_inj [OF _ assms(2) j] by (blast, simp)
  with assms j show "rotate h (b[(h + k) mod cap := x]) ! j = (rotate h b)[k := x] ! j"
    by (auto simp: nth_rotate nth_list_update)
qed simp

lemma rotate_clear:
  assumes "length b = cap" and "n \<le> cap"
  shows "rotate h (fold (\<lambda>i b. b[(h + i) mod cap := None]) [k..<n] b) =
    take k (rotate h b) @ replicate (n - k) None @ drop (max k n) (rotate h b)"
  using assms
proof (induction n)
  case 0
  then show ?case by simp
next
  case (Suc n)
  let ?f = "\<lambda>i b. b[(h + i) mod cap := None]"
  have len: "length (fold ?f xs c) = length c" for xs and c :: "'a option list"
    by (induction xs arbitrary: c) simp_all
  show ?case
  proof (cases "k \<le> n")
    case True
    have "rotate h (fold ?f [k..<Suc n] b) = (rotate h (fold ?f [k..<n] b))[n := None]"
      using True Suc.prems len by (simp add: rotate_list_update [where cap = cap])
    also have "\<dots> = take k (rotate h b) @ replicate (Suc n - k) None @ drop (Suc n) (rotate h b)"
      using True Suc
      by (intro nth_equalityI) (auto simp: nth_append nth_list_update)
    finally show ?thesis using True by (simp add: max_def)
  next
    case False
    then show ?thesis by simp
  qed
qed

lemma ring_copy:
  assumes "n \<le> m"
  shows "fold (\<lambda>i nb. nb[i := f i]) [0..<n] (replicate m None) = map f [0..<n] @ replicate (m - n) None"
  using assms
proof (induction n)
  case 0
  then show ?case by simp
next
  case (Suc n)
  then have "replicate (m - n) (None :: 'a option) = None # replicate (m - Suc n) None"
    by (simp add: Suc_diff_Suc flip: replicate_Suc)
  with Suc show ?case by (simp add: list_update_append)
qed

section \<open>Each operation on the view\<close>

lemma RingQueue_Add_list:
  assumes "ring_invar rq"
  shows "\<exists>rq'. RingQueue_Add w rq = Some rq' \<and> ring_invar rq' \<and> ring_list rq' = ring_list rq @ [w]"
proof -
  let ?rq = "if int (length (buf rq)) = rlength rq then RingQueue_grow rq else rq"
  let ?ws = "ring_list rq"
  have grown: "ring_invar ?rq \<and> ring_list ?rq = ?ws \<and> length ?ws < length (buf ?rq)"
  proof (cases "int (length (buf rq)) = rlength rq")
    case True
    with assms have len: "length ?ws = length (buf rq)" and n: "nat (rlength rq) = length (buf rq)"
      by (simp_all add: ring_invar_def)
    have "map (\<lambda>i. buf rq ! ((rhead rq + i) mod length (buf rq))) [0..<length (buf rq)]
        = rotate (rhead rq) (buf rq)"
      by (intro nth_equalityI) (simp_all add: nth_rotate)
    also have "\<dots> = map Some ?ws" using assms len by (simp add: ring_invar_def)
    finally have nb: "buf (RingQueue_grow rq) = map Some ?ws @ replicate (length (buf rq)) None"
      by (simp add: RingQueue_grow_def Let_def n ring_copy)
    have "0 < length (buf rq)" using assms by (auto simp: ring_invar_def)
    then have "length (buf rq) mod (length (buf rq) + length (buf rq)) = length (buf rq)" by simp
    then have "ring_invar (RingQueue_grow rq) \<and> ring_list (RingQueue_grow rq) = ?ws"
      using assms len n nb
      by (intro ring_invarI) (auto simp: RingQueue_grow_def Let_def ring_invar_def)
    moreover have "length ?ws < length (buf (RingQueue_grow rq))"
      using assms len nb by (auto simp: ring_invar_def)
    ultimately show ?thesis using True by simp
  next
    case False
    with assms ring_invar_length [OF assms] show ?thesis by (auto simp: ring_invar_def)
  qed
  then have tl: "rtail ?rq < length (buf ?rq)"
    by (metis ring_invar_def mod_less_divisor less_nat_zero_code not_gr_zero)
  let ?rq' = "?rq\<lparr>buf := (buf ?rq)[rtail ?rq := Some w],
      rtail := (rtail ?rq + 1) mod length (buf ?rq), rlength := rlength ?rq + 1\<rparr>"
  have "rotate (rhead ?rq) ((buf ?rq)[rtail ?rq := Some w])
      = map Some (?ws @ [w]) @ replicate (length (buf ?rq) - length (?ws @ [w])) None"
  proof -
    have "replicate (length (buf ?rq) - length ?ws) (None :: 'a option)
        = None # replicate (length (buf ?rq) - length (?ws @ [w])) None"
      using grown by (simp add: Suc_diff_Suc flip: replicate_Suc)
    with grown show ?thesis
      by (simp add: ring_invar_def rotate_list_update list_update_append del: replicate_Suc)
  qed
  then have "ring_invar ?rq' \<and> ring_list ?rq' = ?ws @ [w]"
    using grown by (intro ring_invarI) (auto simp: ring_invar_def mod_simps)
  with tl show ?thesis by (simp add: RingQueue_Add_def Let_def)
qed

lemma RingQueue_Pop_list:
  assumes "ring_invar rq" and "ring_list rq = w # ws"
  shows "\<exists>rq'. RingQueue_Pop rq = Some (Some w, rq') \<and> ring_invar rq' \<and> ring_list rq' = ws"
proof -
  let ?h = "rhead rq" and ?cap = "length (buf rq)"
  let ?pad = "replicate (?cap - Suc (length ws)) (None :: 'a option)"
  let ?rq = "rq\<lparr>buf := (buf rq)[?h := None], rhead := (?h + 1) mod ?cap, rlength := rlength rq - 1\<rparr>"
  have h: "?h < ?cap" and n: "rlength rq = int (Suc (length ws))"
    and tl: "rtail rq = (?h + Suc (length ws)) mod ?cap"
    and view: "rotate ?h (buf rq) = Some w # map Some ws @ ?pad"
    using assms by (auto simp: ring_invar_def)
  have size: "Suc (length ws) \<le> ?cap" using ring_invar_length [OF assms(1)] assms(2) by simp
  have "rotate ?h ((buf rq)[?h := None]) = None # map Some ws @ ?pad"
    using rotate_list_update [of "buf rq" ?cap 0 ?h None] h view by fastforce
  then have "rotate ((?h + 1) mod ?cap) ((buf rq)[?h := None]) = rotate1 (None # map Some ws @ ?pad)"
    using rotate_conv_mod [of "Suc ?h" "(buf rq)[?h := None]"] by (simp add: rotate_Suc)
  also have "\<dots> = map Some ws @ replicate (?cap - length ws) None"
    using size by (simp add: replicate_append_same Suc_diff_Suc flip: replicate_Suc)
  finally have "ring_invar ?rq \<and> ring_list ?rq = ws"
    using h n tl by (intro ring_invarI) (auto simp: mod_simps intro!: mod_less_divisor)
  moreover have "buf rq ! ?h = Some w"
    using view nth_rotate [of 0 "buf rq" ?h] h by fastforce
  ultimately show ?thesis using h n by (simp add: RingQueue_Pop_def)
qed

declare ring_scan.simps [simp del]

text \<open>The scan of the ring is the scan of the slice on the first \<open>n\<close> slots of the view.\<close>

lemma ring_scan_slice_scan:
  assumes "length b = cap" and "n \<le> cap" and "wi \<le> i"
    and "slice_scan dt c (take n (rotate h b)) i wi = Some (arr, k)"
  shows "\<exists>b'. ring_scan dt c h n b i wi = Some (b', k) \<and> length b' = cap
    \<and> take n (rotate h b') = arr \<and> drop n (rotate h b') = drop n (rotate h b)"
  using assms
proof (induction dt c h n b i wi arbitrary: arr rule: ring_scan.induct)
  case (1 dt c h n b i wi)
  let ?v = "take n (rotate h b)"
  note unf = slice_scan.simps [of dt c ?v i wi] and unf' = ring_scan.simps [of dt c h n b i wi]
  show ?case
  proof (cases "i < n")
    case False
    with "1.prems" have "take n (rotate h b) = arr" "wi = k" by (auto simp: unf)
    moreover from False have "ring_scan dt c h n b i wi = Some (b, wi)" by (simp add: unf')
    ultimately show ?thesis using "1.prems"(1) by blast
  next
    case True
    with "1.prems"(1,2) have cell: "?v ! i = b ! ((h + i) mod length b)" by (simp add: nth_rotate)
    with True "1.prems" obtain w where w: "b ! ((h + i) mod length b) = Some w"
      by (auto simp: unf split: option.splits)
    show ?thesis
    proof (cases "After (dt w) c")
      case keep: True
      let ?b = "if wi \<noteq> i then b[(h + wi) mod length b := Some w] else b"
      have "rotate h b ! i = Some w" using "1.prems"(1,2) True w by (simp add: nth_rotate)
      then have "(rotate h b)[i := Some w] = rotate h b" by (metis list_update_id)
      then have "rotate h ?b = (rotate h b)[wi := Some w]"
        using "1.prems"(1-3) True rotate_list_update [of b cap wi h "Some w"] by auto
      moreover have "slice_scan dt c (?v[wi := Some w]) (Suc i) (Suc wi) = Some (arr, k)"
        using "1.prems" True cell w keep by (simp add: unf)
      ultimately show ?thesis
        using "1.IH"(1) [OF True w keep] "1.prems" True w keep
        by (simp add: unf' take_update_swap)
    next
      case False
      with "1.IH"(2) [OF True w False] "1.prems" True cell w show ?thesis
        by (simp add: unf unf')
    qed
  qed
qed

lemma RingQueue_RemoveExpired_list:
  assumes "ring_invar rq" and "MinInt64 < e"
  shows "\<exists>rq'. RingQueue_RemoveExpired dt now e rq
      = Some (int (length (filter (expired dt now e) (ring_list rq))), rq')
    \<and> ring_invar rq' \<and> ring_list rq' = filter (\<lambda>w. \<not> expired dt now e w) (ring_list rq)"
proof (cases "ring_list rq = []")
  case True
  with assms show ?thesis by (simp add: RingQueue_RemoveExpired_def ring_invar_def)
next
  case False
  let ?ws = "ring_list rq" and ?h = "rhead rq" and ?cap = "length (buf rq)"
  let ?n = "length ?ws" and ?c = "time_Add now (neg_duration e)"
  let ?keep = "filter (\<lambda>w. \<not> expired dt now e w) ?ws"
  have n: "nat (rlength rq) = ?n" "rlength rq = int ?n" "?n \<le> ?cap" "?h < ?cap"
    and view: "rotate ?h (buf rq) = map Some ?ws @ replicate (?cap - ?n) None"
    using assms(1) ring_invar_length [OF assms(1)] by (auto simp: ring_invar_def)
  have keep: "filter (\<lambda>w. After (dt w) ?c) ?ws = ?keep" and le: "length ?keep \<le> ?n"
    by (simp_all add: After_cutoff [OF assms(2)])
  obtain arr where scan: "slice_scan dt ?c (take ?n (rotate ?h (buf rq))) 0 0 = Some (arr, length ?keep)"
    and arr: "take (length ?keep) arr = map Some ?keep"
    using slice_scan_filter [of dt ?c ?ws] unfolding keep view by auto
  obtain b where ring: "ring_scan dt ?c ?h ?n (buf rq) 0 0 = Some (b, length ?keep)"
    and b: "length b = ?cap" "take ?n (rotate ?h b) = arr" "drop ?n (rotate ?h b) = replicate (?cap - ?n) None"
    using ring_scan_slice_scan [OF _ n(3) _ scan] view by auto
  let ?b = "fold (\<lambda>i b. b[(?h + i) mod ?cap := None]) [length ?keep..<?n] b"
  have "take (length ?keep) (rotate ?h b) = map Some ?keep"
    using arr b(2) le by (metis min.absorb1 take_take)
  then have "rotate ?h ?b = map Some ?keep @ replicate (?n - length ?keep) None @ replicate (?cap - ?n) None"
    using rotate_clear [OF b(1) n(3), of ?h "length ?keep"] b(3) le by (simp add: max_absorb2)
  then have cleared: "rotate ?h ?b = map Some ?keep @ replicate (?cap - length ?keep) None"
    using le_trans [OF le n(3)] n(3) by (simp flip: replicate_add)
  moreover have "length ?keep \<le> ?cap" by (rule le_trans [OF le n(3)])
  ultimately have "length (rotate ?h ?b) = ?cap" by simp
  then have len: "length ?b = ?cap" by simp
  let ?rq = "rq\<lparr>buf := ?b, rtail := (?h + length ?keep) mod ?cap,
      rlength := rlength rq - int (?n - length ?keep)\<rparr>"
  have "ring_invar ?rq \<and> ring_list ?rq = ?keep"
    using cleared len n le by (intro ring_invarI) auto
  moreover have "RingQueue_RemoveExpired dt now e rq = Some (int (?n - length ?keep), ?rq)"
    using ring n False by (simp add: RingQueue_RemoveExpired_def Let_def)
  moreover have "?n - length ?keep = length (filter (expired dt now e) ?ws)"
    using sum_length_filter_compl [of "expired dt now e" ?ws] by simp
  ultimately show ?thesis by simp
qed

section \<open>The contract\<close>

interpretation ring: fifo_container NewRingQueue RingQueue_Add RingQueue_Pop
    "RingQueue_RemoveExpired dt" RingQueue_Len dt ring_invar ring_list
  for dt :: "'a \<Rightarrow> time"
proof unfold_locales
  show "ring_invar (NewRingQueue :: 'a RingQueue) \<and> ring_list (NewRingQueue :: 'a RingQueue) = []"
    by (rule ring_invarI) (simp_all add: NewRingQueue_def defaultRingQueueCapacity_def)
next
  fix rq :: "'a RingQueue"
  assume "ring_invar rq"
  then have n: "rlength rq = int (length (ring_list rq))" by (simp add: ring_invar_def)
  then show "RingQueue_Len rq = int (length (ring_list rq))" by (simp add: RingQueue_Len_def)
  assume "ring_list rq = []"
  with n show "RingQueue_Pop rq = Some (None, rq)" by (simp add: RingQueue_Pop_def)
qed (rule RingQueue_Add_list RingQueue_Pop_list RingQueue_RemoveExpired_list, assumption+)+

end
