(* ===== verification/Idle_LinkedList.thy ===== *)
theory Idle_LinkedList
  imports Idle_Spec "HOL-Library.Monad_Syntax"
begin

text \<open>
  \<^verbatim>\<open>idle.LinkedList\<close> (\<^verbatim>\<open>internal/idle/linkedlist.go\<close>): a doubly linked list.
  \<^verbatim>\<open>removeNode\<close> relinks both neighbours of a node through its \<^verbatim>\<open>prev\<close> and
  \<^verbatim>\<open>next\<close> pointers, so the nodes live in an explicit store from addresses to node
  records; a dereference of nil (or of an address that is not allocated) is a panic.
  \<open>dll\<close> says which nodes of the store form the list between two outer neighbours.
\<close>

section \<open>Model\<close>

record 'a llNode =
  nval :: 'a
  nnext :: "nat option"
  nprev :: "nat option"

record 'a LinkedList =
  store :: "nat \<rightharpoonup> 'a llNode"
  lhead :: "nat option"
  ltail :: "nat option"
  llen :: int
  fresh :: nat \<comment> \<open>the next address the allocator hands out\<close>

definition newLLNode :: "'a \<Rightarrow> 'a llNode" where
  "newLLNode v = \<lparr>nval = v, nnext = None, nprev = None\<rparr>"

definition NewLinkedList :: "'a LinkedList" where
  "NewLinkedList = \<lparr>store = Map.empty, lhead = None, ltail = None, llen = 0, fresh = 0\<rparr>"

definition LinkedList_Add :: "'a \<Rightarrow> 'a LinkedList \<Rightarrow> 'a LinkedList option" where
  "LinkedList_Add w ll0 =
     (let node = fresh ll0; ll = ll0\<lparr>store := (store ll0)(node \<mapsto> newLLNode w), fresh := Suc node\<rparr> in
      if lhead ll = None \<and> ltail ll = None
      then Some (ll\<lparr>lhead := Some node, ltail := Some node, llen := llen ll + 1\<rparr>)
      else do {
        t \<leftarrow> ltail ll;
        tn \<leftarrow> store ll t;
        let st = (store ll)(t \<mapsto> tn\<lparr>nnext := Some node\<rparr>);
        nn \<leftarrow> st node;
        Some (ll\<lparr>store := st(node \<mapsto> nn\<lparr>nprev := Some t\<rparr>), ltail := Some node, llen := llen ll + 1\<rparr>)
      })"

definition LinkedList_Pop :: "'a LinkedList \<Rightarrow> ('a option \<times> 'a LinkedList) option" where
  "LinkedList_Pop ll =
     (case lhead ll of
        None \<Rightarrow> Some (None, ll)
      | Some a \<Rightarrow> do {
          n \<leftarrow> store ll a;
          if lhead ll = ltail ll
          then Some (Some (nval n), ll\<lparr>lhead := None, ltail := None, llen := llen ll - 1\<rparr>)
          else do {
            b \<leftarrow> nnext n;
            bn \<leftarrow> store ll b;
            Some (Some (nval n),
              ll\<lparr>lhead := Some b, store := (store ll)(b \<mapsto> bn\<lparr>nprev := None\<rparr>), llen := llen ll - 1\<rparr>)
          }
        })"

definition LinkedList_removeNode :: "nat \<Rightarrow> 'a LinkedList \<Rightarrow> 'a LinkedList option" where
  "LinkedList_removeNode node ll = do {
     n \<leftarrow> store ll node;
     ll1 \<leftarrow> (case nprev n of
               Some p \<Rightarrow> do { pn \<leftarrow> store ll p; Some (ll\<lparr>store := (store ll)(p \<mapsto> pn\<lparr>nnext := nnext n\<rparr>)\<rparr>) }
             | None \<Rightarrow> Some (ll\<lparr>lhead := nnext n\<rparr>));
     n1 \<leftarrow> store ll1 node;
     ll2 \<leftarrow> (case nnext n1 of
               Some q \<Rightarrow> do { qn \<leftarrow> store ll1 q; Some (ll1\<lparr>store := (store ll1)(q \<mapsto> qn\<lparr>nprev := nprev n1\<rparr>)\<rparr>) }
             | None \<Rightarrow> Some (ll1\<lparr>ltail := nprev n1\<rparr>));
     n2 \<leftarrow> store ll2 node;
     Some (ll2\<lparr>store := (store ll2)(node \<mapsto> n2\<lparr>nprev := None, nnext := None\<rparr>), llen := llen ll2 - 1\<rparr>)
   }"

text \<open>The traversal of \<^verbatim>\<open>RemoveExpired\<close>; \<open>None\<close> is a panic or an endless walk.\<close>

partial_function (option) ll_scan ::
  "('a \<Rightarrow> time) \<Rightarrow> time \<Rightarrow> duration \<Rightarrow> nat option \<Rightarrow> 'a LinkedList \<Rightarrow> int \<Rightarrow> (int \<times> 'a LinkedList) option"
where
  "ll_scan DatedTime now expiry node ll removed =
     (case node of
        None \<Rightarrow> Some (removed, ll)
      | Some a \<Rightarrow> do {
          n \<leftarrow> store ll a;
          if \<not> After (time_Add (DatedTime (nval n)) expiry) now
          then do {
            ll' \<leftarrow> LinkedList_removeNode a ll;
            ll_scan DatedTime now expiry (nnext n) ll' (removed + 1)
          }
          else ll_scan DatedTime now expiry (nnext n) ll removed
        })"

definition LinkedList_RemoveExpired ::
  "('a \<Rightarrow> time) \<Rightarrow> time \<Rightarrow> duration \<Rightarrow> 'a LinkedList \<Rightarrow> (int \<times> 'a LinkedList) option" where
  "LinkedList_RemoveExpired DatedTime now expiry ll = ll_scan DatedTime now expiry (lhead ll) ll 0"

definition LinkedList_Len :: "'a LinkedList \<Rightarrow> int" where
  "LinkedList_Len ll = llen ll"

section \<open>Lists in the store\<close>

text \<open>
  The list is given by its cells, address and value; \<open>first_addr\<close> and \<open>last_addr\<close>
  are what a pointer at its ends holds.
\<close>

fun first_addr :: "(nat \<times> 'a) list \<Rightarrow> nat option \<Rightarrow> nat option" where
  "first_addr [] q = q"
| "first_addr ((a, _) # _) q = Some a"

fun last_addr :: "nat option \<Rightarrow> (nat \<times> 'a) list \<Rightarrow> nat option" where
  "last_addr p [] = p"
| "last_addr p ((a, _) # xs) = last_addr (Some a) xs"

fun dll :: "(nat \<rightharpoonup> 'a llNode) \<Rightarrow> nat option \<Rightarrow> (nat \<times> 'a) list \<Rightarrow> nat option \<Rightarrow> bool" where
  "dll st p [] q \<longleftrightarrow> True"
| "dll st p ((a, w) # xs) q \<longleftrightarrow>
     st a = Some \<lparr>nval = w, nnext = first_addr xs q, nprev = p\<rparr> \<and> dll st (Some a) xs q"

definition ll_rep :: "'a LinkedList \<Rightarrow> (nat \<times> 'a) list \<Rightarrow> bool" where
  "ll_rep ll xs \<longleftrightarrow>
     dll (store ll) None xs None \<and> distinct (map fst xs) \<and>
     lhead ll = first_addr xs None \<and> ltail ll = last_addr None xs \<and>
     llen ll = int (length xs) \<and> (\<forall>a. store ll a \<noteq> None \<longrightarrow> a < fresh ll)"

definition ll_invar :: "'a LinkedList \<Rightarrow> bool" where
  "ll_invar ll \<longleftrightarrow> (\<exists>xs. ll_rep ll xs)"

fun ll_walk :: "(nat \<rightharpoonup> 'a llNode) \<Rightarrow> nat \<Rightarrow> nat option \<Rightarrow> 'a list" where
  "ll_walk st (Suc n) (Some a) = (case st a of None \<Rightarrow> [] | Some nd \<Rightarrow> nval nd # ll_walk st n (nnext nd))"
| "ll_walk st _ _ = []"

definition ll_list :: "'a LinkedList \<Rightarrow> 'a list" where
  "ll_list ll = ll_walk (store ll) (nat (llen ll)) (lhead ll)"

lemma first_addr_append [simp]: "first_addr (xs @ ys) q = first_addr xs (first_addr ys q)"
  by (cases xs) auto

lemma last_addr_append [simp]: "last_addr p (xs @ ys) = last_addr (last_addr p xs) ys"
  by (induction xs arbitrary: p rule: last_addr.induct) auto

lemma dll_append [simp]:
  "dll st p (xs @ ys) q \<longleftrightarrow> dll st p xs (first_addr ys q) \<and> dll st (last_addr p xs) ys q"
  by (induction xs arbitrary: p) auto

lemma dll_frame [simp]: "a \<notin> fst ` set xs \<Longrightarrow> dll (st(a := n)) p xs q = dll st p xs q"
  by (induction xs arbitrary: p) auto

lemma dll_walk: "dll st p xs None \<Longrightarrow> ll_walk st (length xs) (first_addr xs None) = map snd xs"
  by (induction xs arbitrary: p) auto

lemma ll_rep_list: "ll_rep ll xs \<Longrightarrow> ll_list ll = map snd xs"
  by (auto simp: ll_rep_def ll_list_def dest: dll_walk)

lemma last_addr_in: "last_addr (Some a) xs = Some b \<Longrightarrow> b = a \<or> b \<in> fst ` set xs"
  by (induction "Some a" xs arbitrary: a rule: last_addr.induct) auto

lemma dll_dom: "dll st p xs q \<Longrightarrow> a \<in> fst ` set xs \<Longrightarrow> st a \<noteq> None"
  by (induction xs arbitrary: p) force+

section \<open>Each operation on the cells\<close>

lemma LinkedList_Add_rep:
  assumes "ll_rep ll xs"
  shows "\<exists>ll'. LinkedList_Add w ll = Some ll' \<and> ll_rep ll' (xs @ [(fresh ll, w)])"
proof -
  have fr: "fresh ll \<notin> fst ` set xs"
    using assms dll_dom by (fastforce simp: ll_rep_def)
  show ?thesis
  proof (cases xs rule: rev_cases)
    case Nil
    with assms show ?thesis
      by (auto simp: LinkedList_Add_def ll_rep_def newLLNode_def Let_def less_Suc_eq)
  next
    case (snoc ys c)
    obtain t v where c: "c = (t, v)" by (cases c)
    have "t \<noteq> fresh ll" "store ll t = Some \<lparr>nval = v, nnext = None, nprev = last_addr None ys\<rparr>"
      "ltail ll = Some t"
      using assms fr snoc c by (auto simp: ll_rep_def)
    with assms fr snoc c show ?thesis
      by (auto simp: LinkedList_Add_def ll_rep_def newLLNode_def Let_def image_iff less_Suc_eq)
  qed
qed

lemma LinkedList_Pop_rep:
  assumes "ll_rep ll ((a, w) # xs)"
  shows "\<exists>ll'. LinkedList_Pop ll = Some (Some w, ll') \<and> ll_rep ll' xs"
proof (cases xs)
  case Nil
  with assms show ?thesis by (auto simp: LinkedList_Pop_def ll_rep_def)
next
  case (Cons c ys)
  obtain b v where c: "c = (b, v)" by (cases c)
  have "b \<noteq> a" "last_addr (Some b) ys \<noteq> Some a"
    using assms Cons c by (auto simp: ll_rep_def dest: last_addr_in)
  with assms Cons c show ?thesis
    by (auto simp: LinkedList_Pop_def ll_rep_def image_iff)
qed

text \<open>Unlinking a node in the middle leaves the other cells, in order.\<close>

lemma LinkedList_removeNode_rep:
  assumes "ll_rep ll (xs @ (a, w) # ys)"
  shows "\<exists>ll'. LinkedList_removeNode a ll = Some ll' \<and> ll_rep ll' (xs @ ys)"
proof (cases xs rule: rev_cases)
  case Nil
  show ?thesis
  proof (cases ys)
    case Nil
    with \<open>xs = []\<close> assms show ?thesis by (auto simp: LinkedList_removeNode_def ll_rep_def)
  next
    case (Cons d zs)
    with \<open>xs = []\<close> assms show ?thesis
      by (cases d) (auto simp: LinkedList_removeNode_def ll_rep_def image_iff)
  qed
next
  case (snoc us c)
  obtain p v where c: "c = (p, v)" by (cases c)
  show ?thesis
  proof (cases ys)
    case Nil
    with snoc c assms show ?thesis by (auto simp: LinkedList_removeNode_def ll_rep_def image_iff)
  next
    case (Cons d zs)
    with snoc c assms show ?thesis
      by (cases d) (auto simp: LinkedList_removeNode_def ll_rep_def image_iff)
  qed
qed

lemma ll_scan_rep:
  assumes "ll_rep ll (xs @ ys)"
  shows "\<exists>ll'. ll_scan dt now e (first_addr ys None) ll k
      = Some (k + int (length (filter (expired dt now e) (map snd ys))), ll')
    \<and> ll_rep ll' (xs @ filter (\<lambda>c. \<not> expired dt now e (snd c)) ys)"
  using assms
proof (induction ys arbitrary: ll xs k)
  case Nil
  then show ?case by (simp add: ll_scan.simps)
next
  case (Cons c ys)
  obtain a w where c: "c = (a, w)" by (cases c)
  have node: "store ll a = Some \<lparr>nval = w, nnext = first_addr ys None, nprev = last_addr None xs\<rparr>"
    using Cons.prems c by (simp add: ll_rep_def)
  show ?case
  proof (cases "expired dt now e w")
    case True
    from Cons.prems c obtain ll1 where "LinkedList_removeNode a ll = Some ll1" "ll_rep ll1 (xs @ ys)"
      using LinkedList_removeNode_rep by metis
    with Cons.IH [of ll1 xs "k + 1"] c node True show ?thesis
      by (auto simp: ll_scan.simps [of _ _ _ "Some a"] expired_After)
  next
    case False
    with Cons.IH [of ll "xs @ [c]" k] Cons.prems c node show ?thesis
      by (simp add: ll_scan.simps [of _ _ _ "Some a"] expired_After)
  qed
qed

section \<open>The contract\<close>

interpretation linked: fifo_container NewLinkedList LinkedList_Add LinkedList_Pop
    "LinkedList_RemoveExpired dt" LinkedList_Len dt ll_invar ll_list
  for dt :: "'a \<Rightarrow> time"
proof unfold_locales
  show "ll_invar (NewLinkedList :: 'a LinkedList) \<and> ll_list (NewLinkedList :: 'a LinkedList) = []"
    by (auto simp: ll_invar_def ll_rep_def NewLinkedList_def ll_list_def intro: exI [of _ "[]"])
next
  fix ll :: "'a LinkedList" and w :: 'a
  assume "ll_invar ll"
  then obtain xs where "ll_rep ll xs" by (auto simp: ll_invar_def)
  with LinkedList_Add_rep [OF this, of w]
  show "\<exists>ll'. LinkedList_Add w ll = Some ll' \<and> ll_invar ll' \<and> ll_list ll' = ll_list ll @ [w]"
    by (auto simp: ll_invar_def ll_rep_list)
next
  fix ll :: "'a LinkedList"
  assume "ll_invar ll"
  then obtain xs where xs: "ll_rep ll xs" by (auto simp: ll_invar_def)
  then show "LinkedList_Len ll = int (length (ll_list ll))"
    by (simp add: LinkedList_Len_def ll_rep_list) (simp add: ll_rep_def)
  assume "ll_list ll = []"
  with xs show "LinkedList_Pop ll = Some (None, ll)"
    by (simp add: ll_rep_list) (simp add: ll_rep_def LinkedList_Pop_def)
next
  fix ll :: "'a LinkedList" and w ws
  assume "ll_invar ll" and "ll_list ll = w # ws"
  then obtain a xs where "ll_rep ll ((a, w) # xs)" "map snd xs = ws"
    by (auto simp: ll_invar_def ll_rep_list map_eq_Cons_conv)
  with LinkedList_Pop_rep
  show "\<exists>ll'. LinkedList_Pop ll = Some (Some w, ll') \<and> ll_invar ll' \<and> ll_list ll' = ws"
    by (fastforce simp: ll_invar_def ll_rep_list)
next
  fix ll :: "'a LinkedList" and e :: duration and now :: time
  assume "ll_invar ll"
  then obtain xs where xs: "ll_rep ll ([] @ xs)" by (auto simp: ll_invar_def)
  moreover from xs have "lhead ll = first_addr xs None" by (simp add: ll_rep_def)
  ultimately show "\<exists>ll'. LinkedList_RemoveExpired dt now e ll
      = Some (int (length (filter (expired dt now e) (ll_list ll))), ll')
    \<and> ll_invar ll' \<and> ll_list ll' = filter (\<lambda>w. \<not> expired dt now e w) (ll_list ll)"
    using ll_scan_rep [OF xs, of dt now e 0] unfolding LinkedList_RemoveExpired_def
    by (auto simp: ll_invar_def ll_rep_list filter_map comp_def)
qed

end
