(* ===== verification/Idle_Heap.thy ===== *)
theory Idle_Heap
  imports Idle_Spec "HOL-Library.Monad_Syntax"
begin

text \<open>
  \<^verbatim>\<open>idle.MinHeap\<close> (\<^verbatim>\<open>internal/idle/heap.go\<close>): a binary min-heap on a slice, kept
  by Go's \<^verbatim>\<open>container/heap\<close>, whose \<^verbatim>\<open>Init\<close>, \<^verbatim>\<open>Push\<close>, \<^verbatim>\<open>Pop\<close>,
  \<^verbatim>\<open>up\<close> and \<^verbatim>\<open>down\<close> are modelled here with the \<^verbatim>\<open>Less\<close> and
  \<^verbatim>\<open>Swap\<close> of \<^verbatim>\<open>minHeapInner\<close>. Inside its length the slice never holds the zero
  value: \<^verbatim>\<open>minHeapInner.Pop\<close> zeroes only the slot it cuts off.
\<close>

section \<open>Model\<close>

definition heap_Less :: "('a \<Rightarrow> time) \<Rightarrow> 'a list \<Rightarrow> nat \<Rightarrow> nat \<Rightarrow> bool" where
  "heap_Less DatedTime h i j = Before (DatedTime (h ! i)) (DatedTime (h ! j))"

definition heap_Swap :: "'a list \<Rightarrow> nat \<Rightarrow> nat \<Rightarrow> 'a list" where
  "heap_Swap h i j = h[i := h ! j, j := h ! i]"

definition heap_inner_Push :: "'a list \<Rightarrow> 'a \<Rightarrow> 'a list" where
  "heap_inner_Push h x = h @ [x]"

definition heap_inner_Pop :: "'a list \<Rightarrow> ('a \<times> 'a list) option" where
  "heap_inner_Pop h = (if h = [] then None else Some (last h, butlast h))"

text \<open>\<^verbatim>\<open>container/heap\<close>: for \<open>j = 0\<close> Go's \<^verbatim>\<open>(j - 1) / 2\<close> is 0, as here.\<close>

function heap_up :: "('a \<Rightarrow> time) \<Rightarrow> 'a list \<Rightarrow> nat \<Rightarrow> 'a list" where
  "heap_up dt h j =
     (let i = (j - 1) div 2 in
      if i = j \<or> \<not> heap_Less dt h j i then h else heap_up dt (heap_Swap h i j) i)"
  by pat_completeness auto
termination
  by (relation "measure (\<lambda>(dt, h, j). j)") auto

function heap_down :: "('a \<Rightarrow> time) \<Rightarrow> 'a list \<Rightarrow> nat \<Rightarrow> nat \<Rightarrow> 'a list" where
  "heap_down dt h i n =
     (let j1 = 2 * i + 1 in
      if j1 \<ge> n then h
      else
        let j2 = j1 + 1; j = (if j2 < n \<and> heap_Less dt h j2 j1 then j2 else j1) in
        if \<not> heap_Less dt h j i then h else heap_down dt (heap_Swap h i j) j n)"
  by pat_completeness auto
termination
  by (relation "measure (\<lambda>(dt, h, i, n). n - i)") (auto simp: Let_def)

definition heap_Init :: "('a \<Rightarrow> time) \<Rightarrow> 'a list \<Rightarrow> 'a list" where
  "heap_Init dt h = fold (\<lambda>i h. heap_down dt h i (length h)) (rev [0..<length h div 2]) h"

definition heap_Push :: "('a \<Rightarrow> time) \<Rightarrow> 'a list \<Rightarrow> 'a \<Rightarrow> 'a list" where
  "heap_Push dt h x = (let h' = heap_inner_Push h x in heap_up dt h' (length h' - 1))"

definition heap_Pop :: "('a \<Rightarrow> time) \<Rightarrow> 'a list \<Rightarrow> ('a \<times> 'a list) option" where
  "heap_Pop dt h =
     (if h = [] then None \<comment> \<open>index out of range\<close>
      else let n = length h - 1 in heap_inner_Pop (heap_down dt (heap_Swap h 0 n) 0 n))"

record 'a MinHeap =
  inner :: "'a list"
  hsize :: int

definition NewMinHeap :: "('a \<Rightarrow> time) \<Rightarrow> 'a MinHeap" where
  "NewMinHeap dt = \<lparr>inner = heap_Init dt [], hsize = 0\<rparr>"

definition MinHeap_Add :: "('a \<Rightarrow> time) \<Rightarrow> 'a \<Rightarrow> 'a MinHeap \<Rightarrow> 'a MinHeap option" where
  "MinHeap_Add dt w h = Some (h\<lparr>inner := heap_Push dt (inner h) w, hsize := hsize h + 1\<rparr>)"

definition MinHeap_Pop :: "('a \<Rightarrow> time) \<Rightarrow> 'a MinHeap \<Rightarrow> ('a option \<times> 'a MinHeap) option" where
  "MinHeap_Pop dt h =
     (if inner h = [] then Some (None, h)
      else do {
        (w, xs) \<leftarrow> heap_Pop dt (inner h);
        Some (Some w, h\<lparr>inner := xs, hsize := hsize h - 1\<rparr>)
      })"

partial_function (option) mh_scan ::
  "('a \<Rightarrow> time) \<Rightarrow> time \<Rightarrow> duration \<Rightarrow> 'a MinHeap \<Rightarrow> int \<Rightarrow> (int \<times> 'a MinHeap) option"
where
  "mh_scan dt now expiry h removed =
     (case inner h of
        [] \<Rightarrow> Some (removed, h)
      | root # _ \<Rightarrow>
          if After (time_Add (dt root) expiry) now then Some (removed, h)
          else do {
            (_, h') \<leftarrow> MinHeap_Pop dt h;
            mh_scan dt now expiry h' (removed + 1)
          })"

definition MinHeap_RemoveExpired ::
  "('a \<Rightarrow> time) \<Rightarrow> time \<Rightarrow> duration \<Rightarrow> 'a MinHeap \<Rightarrow> (int \<times> 'a MinHeap) option" where
  "MinHeap_RemoveExpired dt now expiry h = mh_scan dt now expiry h 0"

definition MinHeap_Len :: "'a MinHeap \<Rightarrow> int" where
  "MinHeap_Len h = hsize h"

section \<open>The heap order\<close>

abbreviation parent :: "nat \<Rightarrow> nat" where
  "parent k \<equiv> (k - 1) div 2"

text \<open>
  \<open>heap_below i\<close>: the order holds on every edge but those at \<open>i\<close>'s children, which
  are bounded by \<open>i\<close>'s parent; \<open>heap_above j\<close>: the order holds on every edge but the
  one above \<open>j\<close>. They are what \<open>heap_down\<close> and \<open>heap_up\<close> repair.
\<close>

definition heap_ordered :: "('a \<Rightarrow> time) \<Rightarrow> 'a list \<Rightarrow> nat \<Rightarrow> bool" where
  "heap_ordered dt h n \<longleftrightarrow> (\<forall>k. 0 < k \<and> k < n \<longrightarrow> dt (h ! parent k) \<le> dt (h ! k))"

definition heap_below :: "('a \<Rightarrow> time) \<Rightarrow> 'a list \<Rightarrow> nat \<Rightarrow> nat \<Rightarrow> bool" where
  "heap_below dt h n i \<longleftrightarrow>
     (\<forall>k. 0 < k \<and> k < n \<longrightarrow>
        (if parent k = i then 0 < i \<longrightarrow> dt (h ! parent i) \<le> dt (h ! k) else dt (h ! parent k) \<le> dt (h ! k)))"

definition heap_above :: "('a \<Rightarrow> time) \<Rightarrow> 'a list \<Rightarrow> nat \<Rightarrow> nat \<Rightarrow> bool" where
  "heap_above dt h n j \<longleftrightarrow>
     (\<forall>k. 0 < k \<and> k < n \<longrightarrow>
        (k \<noteq> j \<longrightarrow> dt (h ! parent k) \<le> dt (h ! k)) \<and>
        (parent k = j \<and> 0 < j \<longrightarrow> dt (h ! parent j) \<le> dt (h ! k)))"

lemma parent_le: "parent k \<le> k"
  by simp

lemma parent_less: "0 < k \<Longrightarrow> parent k < k"
  by simp

lemma length_heap_Swap [simp]: "length (heap_Swap h i j) = length h"
  by (simp add: heap_Swap_def)

lemma nth_heap_Swap:
  "i < length h \<Longrightarrow> j < length h \<Longrightarrow>
   heap_Swap h i j ! k = (if k = j then h ! i else if k = i then h ! j else h ! k)"
  by (auto simp: heap_Swap_def nth_list_update)

lemma mset_heap_Swap [simp]:
  "i < length h \<Longrightarrow> j < length h \<Longrightarrow> mset (heap_Swap h i j) = mset h"
  by (simp add: heap_Swap_def mset_swap)

declare heap_up.simps [simp del] heap_down.simps [simp del]

lemma heap_up_mset:
  "j < length h \<Longrightarrow> mset (heap_up dt h j) = mset h"
proof (induction dt h j rule: heap_up.induct)
  case (1 dt h j)
  then show ?case by (subst heap_up.simps) (auto simp: Let_def)
qed

text \<open>One swap, on the keys alone: \<open>pk\<close>, \<open>pi\<close> stand for the parents of \<open>k\<close> and \<open>i\<close>.\<close>

lemma swap_up_keys:
  fixes f :: "nat \<Rightarrow> int"
  assumes "k \<noteq> j \<Longrightarrow> f pk \<le> f k" "pk = j \<Longrightarrow> f i \<le> f k" "0 < i \<Longrightarrow> f pi \<le> f i" "f j < f i"
    and "i < j" "pk < k" "pi \<le> i" "0 < i \<Longrightarrow> pi < i" "k = j \<Longrightarrow> pk = i"
  shows "(k \<noteq> i \<longrightarrow> (f(i := f j, j := f i)) pk \<le> (f(i := f j, j := f i)) k) \<and>
    (pk = i \<and> 0 < i \<longrightarrow> (f(i := f j, j := f i)) pi \<le> (f(i := f j, j := f i)) k)"
  using assms by (auto split: if_splits)

lemma swap_down_keys:
  fixes f :: "nat \<Rightarrow> int"
  assumes "pk \<noteq> i \<Longrightarrow> f pk \<le> f k" "pk = i \<Longrightarrow> 0 < i \<Longrightarrow> f pi \<le> f k" "0 < i \<Longrightarrow> f pi \<le> f j"
    and "pk = i \<Longrightarrow> f j \<le> f k" "f j < f i" "i < j" "pk < k" "k = j \<Longrightarrow> pk = i" "k = i \<Longrightarrow> pk = pi"
  shows "if pk = j then 0 < j \<longrightarrow> (f(i := f j, j := f i)) i \<le> (f(i := f j, j := f i)) k
    else (f(i := f j, j := f i)) pk \<le> (f(i := f j, j := f i)) k"
  using assms by (auto split: if_splits)

lemma heap_up_ordered:
  "heap_above dt h n j \<Longrightarrow> j < n \<Longrightarrow> n \<le> length h \<Longrightarrow> heap_ordered dt (heap_up dt h j) n"
proof (induction dt h j rule: heap_up.induct)
  case (1 dt h j)
  let ?i = "parent j"
  show ?case
  proof (cases "?i = j \<or> \<not> heap_Less dt h j ?i")
    case True
    then have "j = 0 \<or> dt (h ! ?i) \<le> dt (h ! j)"
      by (auto simp: heap_Less_def go_time)
    with "1.prems"(1) True show ?thesis
      by (subst heap_up.simps) (auto simp: heap_ordered_def heap_above_def Let_def)
  next
    case False
    then have lt: "?i < j" and less: "dt (h ! j) < dt (h ! ?i)"
      by (auto simp: heap_Less_def go_time)
    have "heap_above dt (heap_Swap h ?i j) n ?i"
      unfolding heap_above_def
    proof (intro allI impI)
      fix k assume k: "0 < k \<and> k < n"
      with "1.prems"(1) have
        e1: "k \<noteq> j \<Longrightarrow> dt (h ! parent k) \<le> dt (h ! k)" and
        e2: "parent k = j \<Longrightarrow> dt (h ! ?i) \<le> dt (h ! k)"
        using lt by (auto simp: heap_above_def)
      have e3: "0 < ?i \<Longrightarrow> dt (h ! parent ?i) \<le> dt (h ! ?i)"
        using "1.prems"(1,2) lt by (simp add: heap_above_def)
      have nth: "dt (heap_Swap h ?i j ! m) = ((\<lambda>m. dt (h ! m))(?i := dt (h ! j), j := dt (h ! ?i))) m" for m
        using "1.prems"(2,3) lt by (simp add: nth_heap_Swap)
      show "(k \<noteq> ?i \<longrightarrow> dt (heap_Swap h ?i j ! parent k) \<le> dt (heap_Swap h ?i j ! k)) \<and>
          (parent k = ?i \<and> 0 < ?i \<longrightarrow> dt (heap_Swap h ?i j ! parent ?i) \<le> dt (heap_Swap h ?i j ! k))"
        unfolding nth
      proof (rule swap_up_keys)
        show "parent k < k" using k parent_less by blast
        show "parent ?i \<le> ?i" "0 < ?i \<Longrightarrow> parent ?i < ?i" by (rule parent_le, rule parent_less)
      qed (fact e1 e2 e3 less lt | blast)+
    qed
    with "1.IH" [OF refl False] "1.prems" lt False show ?thesis
      by (subst heap_up.simps) (simp add: Let_def)
  qed
qed

lemma heap_down_mset:
  "i < n \<Longrightarrow> n \<le> length h \<Longrightarrow> mset (heap_down dt h i n) = mset h \<and> length (heap_down dt h i n) = length h
     \<and> drop n (heap_down dt h i n) = drop n h"
proof (induction dt h i n rule: heap_down.induct)
  case (1 dt h i n)
  then show ?case
    by (subst (1 2 3) heap_down.simps) (auto simp: Let_def heap_Swap_def mset_swap)
qed

text \<open>One round of \<open>heap_down\<close>: it compares with the smaller child.\<close>

lemma heap_down_child:
  assumes "2 * i + 1 < n"
  obtains j where "j < n" "i < j" "parent j = i"
    "\<forall>k. 0 < k \<and> k < n \<and> parent k = i \<longrightarrow> dt (h ! j) \<le> dt (h ! k)"
    "heap_down dt h i n = (if heap_Less dt h j i then heap_down dt (heap_Swap h i j) j n else h)"
proof
  let ?j1 = "2 * i + 1"
  let ?j = "if ?j1 + 1 < n \<and> heap_Less dt h (?j1 + 1) ?j1 then ?j1 + 1 else ?j1"
  show "?j < n" "i < ?j" "parent ?j = i" using assms by auto
  show "heap_down dt h i n = (if heap_Less dt h ?j i then heap_down dt (heap_Swap h i ?j) ?j n else h)"
    using assms by (subst heap_down.simps) (simp add: Let_def)
  show "\<forall>k. 0 < k \<and> k < n \<and> parent k = i \<longrightarrow> dt (h ! ?j) \<le> dt (h ! k)"
  proof (intro allI impI)
    fix k assume k: "0 < k \<and> k < n \<and> parent k = i"
    then have "k = ?j1 \<or> k = ?j1 + 1" by auto
    with k show "dt (h ! ?j) \<le> dt (h ! k)" by (auto simp: heap_Less_def go_time)
  qed
qed

lemma heap_down_ordered:
  "heap_below dt h n i \<Longrightarrow> i < n \<Longrightarrow> n \<le> length h \<Longrightarrow> heap_ordered dt (heap_down dt h i n) n"
proof (induction "n - i" arbitrary: h i rule: less_induct)
  case less
  show ?case
  proof (cases "2 * i + 1 < n")
    case False
    then have "parent k \<noteq> i" if "0 < k" "k < n" for k using that by auto
    with less.prems(1) False show ?thesis
      by (subst heap_down.simps) (auto simp: heap_ordered_def heap_below_def Let_def)
  next
    case True
    then obtain j where j: "j < n" "i < j" "parent j = i"
      and least: "\<forall>k. 0 < k \<and> k < n \<and> parent k = i \<longrightarrow> dt (h ! j) \<le> dt (h ! k)"
      and unf: "heap_down dt h i n = (if heap_Less dt h j i then heap_down dt (heap_Swap h i j) j n else h)"
      by (rule heap_down_child [where dt = dt and h = h])
    have edge: "parent k \<noteq> i \<Longrightarrow> dt (h ! parent k) \<le> dt (h ! k)"
      and skip: "parent k = i \<Longrightarrow> 0 < i \<Longrightarrow> dt (h ! parent i) \<le> dt (h ! k)" if "0 < k" "k < n" for k
      using less.prems(1) that unfolding heap_below_def by metis+
    show ?thesis
    proof (cases "heap_Less dt h j i")
      case False
      then have "dt (h ! i) \<le> dt (h ! j)" by (simp add: heap_Less_def go_time)
      then have "dt (h ! parent k) \<le> dt (h ! k)" if "0 < k" "k < n" for k
        using that least edge order_trans by metis
      with unf False show ?thesis by (simp add: heap_ordered_def)
    next
      case True
      then have lt: "dt (h ! j) < dt (h ! i)" by (simp add: heap_Less_def go_time)
      have nth: "dt (heap_Swap h i j ! m) = ((\<lambda>m. dt (h ! m))(i := dt (h ! j), j := dt (h ! i))) m" for m
        using less.prems(2,3) j by (simp add: nth_heap_Swap)
      have "heap_below dt (heap_Swap h i j) n j"
        unfolding heap_below_def nth j(3)
      proof (intro allI impI, rule swap_down_keys [where pi = "parent i"])
        fix k assume k: "0 < k \<and> k < n"
        show "parent k < k" using k parent_less by blast
        show "0 < i \<Longrightarrow> dt (h ! parent i) \<le> dt (h ! j)" using skip j by (metis less_trans)
        show "parent k \<noteq> i \<Longrightarrow> dt (h ! parent k) \<le> dt (h ! k)"
          and "parent k = i \<Longrightarrow> 0 < i \<Longrightarrow> dt (h ! parent i) \<le> dt (h ! k)" using edge skip k by blast+
        show "parent k = i \<Longrightarrow> dt (h ! j) \<le> dt (h ! k)" using least k by blast
        show "k = j \<Longrightarrow> parent k = i" using j(3) by blast
      qed (rule lt j(2) | simp)+
      with less.hyps [of j "heap_Swap h i j"] less.prems unf True j show ?thesis by simp
    qed
  qed
qed

section \<open>Push and Pop\<close>

lemma heap_ordered_root:
  assumes "heap_ordered dt h n" and "k < n"
  shows "dt (h ! 0) \<le> dt (h ! k)"
  using assms(2)
proof (induction k rule: less_induct)
  case (less k)
  show ?case
  proof (cases "k = 0")
    case False
    then have "parent k < k" "dt (h ! parent k) \<le> dt (h ! k)"
      using assms(1) less.prems by (simp_all add: heap_ordered_def)
    with less.IH [of "parent k"] less.prems show ?thesis by simp
  qed simp
qed

lemma heap_Push_correct:
  assumes "heap_ordered dt h (length h)"
  shows "heap_ordered dt (heap_Push dt h x) (length (heap_Push dt h x))"
    and "mset (heap_Push dt h x) = add_mset x (mset h)"
proof -
  have above: "heap_above dt (h @ [x]) (Suc (length h)) (length h)"
    unfolding heap_above_def
  proof (intro allI impI conjI)
    fix k assume k: "0 < k \<and> k < Suc (length h)"
    then have par: "parent k < length h" using parent_less [of k] by linarith
    with assms k show "k \<noteq> length h \<Longrightarrow> dt ((h @ [x]) ! parent k) \<le> dt ((h @ [x]) ! k)"
      by (auto simp: heap_ordered_def nth_append)
    from par show "parent k = length h \<and> 0 < length h \<Longrightarrow>
        dt ((h @ [x]) ! parent (length h)) \<le> dt ((h @ [x]) ! k)" by linarith
  qed
  show m: "mset (heap_Push dt h x) = add_mset x (mset h)"
    by (simp add: heap_Push_def heap_inner_Push_def heap_up_mset)
  then have "length (heap_Push dt h x) = Suc (length h)"
    by (metis size_mset size_add_mset)
  with heap_up_ordered [OF above] show "heap_ordered dt (heap_Push dt h x) (length (heap_Push dt h x))"
    by (simp add: heap_Push_def heap_inner_Push_def)
qed

lemma heap_Pop_correct:
  assumes "heap_ordered dt h (length h)" and "h \<noteq> []"
  shows "\<exists>h'. heap_Pop dt h = Some (h ! 0, h') \<and> heap_ordered dt h' (length h') \<and> mset h = add_mset (h ! 0) (mset h')"
proof -
  let ?n = "length h - 1" and ?s = "heap_Swap h 0 (length h - 1)"
  let ?d = "heap_down dt ?s 0 ?n"
  have n: "?n < length h" "0 < length h" using assms(2) by auto
  have sn: "?s ! ?n = h ! 0" using n by (simp add: nth_heap_Swap)
  have d: "mset ?d = mset h \<and> length ?d = length h \<and> drop ?n ?d = drop ?n ?s \<and> heap_ordered dt ?d ?n"
  proof (cases "?n = 0")
    case True
    then show ?thesis using n by (simp add: heap_down.simps heap_ordered_def)
  next
    case False
    have "heap_below dt ?s ?n 0"
      unfolding heap_below_def
    proof (intro allI impI)
      fix k assume k: "0 < k \<and> k < ?n"
      then have "parent k < k" "dt (h ! parent k) \<le> dt (h ! k)"
        using parent_less assms(1) unfolding heap_ordered_def by (blast, force)
      with k show "if parent k = 0 then 0 < (0::nat) \<longrightarrow> dt (?s ! parent 0) \<le> dt (?s ! k)
          else dt (?s ! parent k) \<le> dt (?s ! k)"
        using n by (simp add: nth_heap_Swap)
    qed
    with False n show ?thesis
      using heap_down_mset [of 0 ?n ?s dt] heap_down_ordered [of dt ?s ?n 0] by simp
  qed
  then have "last ?d = h ! 0"
    using sn n by (metis drop_eq_nths hd_drop_conv_nth last_conv_nth length_0_conv length_heap_Swap not_less_zero)
  moreover have ne: "?d \<noteq> []" using d n by auto
  ultimately have split: "?d = butlast ?d @ [h ! 0]" by (metis append_butlast_last_id)
  then have "mset h = add_mset (h ! 0) (mset (butlast ?d))"
    using d by (metis mset.simps(2) mset_append union_mset_add_mset_right add.right_neutral mset.simps(1))
  moreover have "heap_ordered dt (butlast ?d) (length (butlast ?d))"
    using d by (auto simp: heap_ordered_def nth_butlast intro: le_less_trans [OF parent_le])
  ultimately show ?thesis
    using assms(2) ne \<open>last ?d = h ! 0\<close> by (simp add: heap_Pop_def heap_inner_Pop_def Let_def)
qed

section \<open>The contract\<close>

definition mh_invar :: "('a \<Rightarrow> time) \<Rightarrow> 'a MinHeap \<Rightarrow> bool" where
  "mh_invar dt h \<longleftrightarrow> heap_ordered dt (inner h) (length (inner h)) \<and> hsize h = int (length (inner h))"

definition mh_elems :: "'a MinHeap \<Rightarrow> 'a multiset" where
  "mh_elems h = mset (inner h)"

lemma MinHeap_Pop_elems:
  assumes "mh_invar dt h" and "inner h \<noteq> []"
  shows "\<exists>h'. MinHeap_Pop dt h = Some (Some (inner h ! 0), h') \<and> mh_invar dt h'
    \<and> mh_elems h = add_mset (inner h ! 0) (mh_elems h') \<and> length (inner h) = Suc (length (inner h'))"
proof -
  obtain xs where xs: "heap_Pop dt (inner h) = Some (inner h ! 0, xs)" "heap_ordered dt xs (length xs)"
    "mset (inner h) = add_mset (inner h ! 0) (mset xs)"
    using heap_Pop_correct assms unfolding mh_invar_def by blast
  moreover from xs(3) have "length (inner h) = Suc (length xs)" by (metis size_mset size_add_mset)
  ultimately show ?thesis
    using assms by (simp add: MinHeap_Pop_def mh_invar_def mh_elems_def)
qed

lemma mh_root_oldest: "mh_invar dt h \<Longrightarrow> v \<in># mh_elems h \<Longrightarrow> dt (inner h ! 0) \<le> dt v"
  by (auto simp: mh_invar_def mh_elems_def in_set_conv_nth intro: heap_ordered_root)

lemma mh_scan_elems:
  "mh_invar dt h \<Longrightarrow>
   \<exists>h'. mh_scan dt now e h k = Some (k + int (size (filter_mset (expired dt now e) (mh_elems h))), h')
     \<and> mh_invar dt h' \<and> mh_elems h' = filter_mset (\<lambda>w. \<not> expired dt now e w) (mh_elems h)"
proof (induction "length (inner h)" arbitrary: h k)
  case 0
  then show ?case by (auto simp: mh_scan.simps mh_elems_def)
next
  case (Suc n)
  from Suc.hyps(2) obtain r xs where cons: "inner h = r # xs" by (cases "inner h") auto
  show ?case
  proof (cases "expired dt now e r")
    case True
    obtain h1 where h1: "MinHeap_Pop dt h = Some (Some r, h1)" "mh_invar dt h1"
      "mh_elems h = add_mset r (mh_elems h1)" "length (inner h) = Suc (length (inner h1))"
      using MinHeap_Pop_elems [OF Suc.prems] cons by auto
    moreover have "mh_scan dt now e h k = mh_scan dt now e h1 (k + 1)"
      using True cons h1(1) by (subst mh_scan.simps) (simp add: expired_After [symmetric])
    ultimately show ?thesis
      using Suc.hyps(1) [of h1 "k + 1"] Suc.hyps(2) True by auto
  next
    case False
    then have "\<not> expired dt now e v" if "v \<in># mh_elems h" for v
      using mh_root_oldest [OF Suc.prems that] cons by (simp add: expired_def)
    then have "filter_mset (expired dt now e) (mh_elems h) = {#}"
      and "filter_mset (\<lambda>w. \<not> expired dt now e w) (mh_elems h) = mh_elems h"
      by (simp_all add: filter_mset_eq_conv)
    moreover have "mh_scan dt now e h k = Some (k, h)"
      using False cons by (subst mh_scan.simps) (simp add: expired_After [symmetric])
    ultimately show ?thesis using Suc.prems by simp
  qed
qed

interpretation heap: oldest_container "NewMinHeap dt" "MinHeap_Add dt" "MinHeap_Pop dt"
    "MinHeap_RemoveExpired dt" MinHeap_Len dt "mh_invar dt" mh_elems
  for dt :: "'a \<Rightarrow> time"
proof unfold_locales
  show "mh_invar dt (NewMinHeap dt) \<and> mh_elems (NewMinHeap dt) = {#}"
    by (simp add: NewMinHeap_def heap_Init_def mh_invar_def mh_elems_def heap_ordered_def)
next
  fix h :: "'a MinHeap" and w :: 'a
  assume inv: "mh_invar dt h"
  then have "length (heap_Push dt (inner h) w) = Suc (length (inner h))"
    using heap_Push_correct(2) [of dt "inner h" w] unfolding mh_invar_def by (metis size_mset size_add_mset)
  with inv show "\<exists>h'. MinHeap_Add dt w h = Some h' \<and> mh_invar dt h' \<and> mh_elems h' = add_mset w (mh_elems h)"
    using heap_Push_correct [of dt "inner h" w] by (simp add: MinHeap_Add_def mh_invar_def mh_elems_def)
next
  fix h :: "'a MinHeap"
  assume inv: "mh_invar dt h"
  then show "MinHeap_Len h = int (size (mh_elems h))"
    by (simp add: MinHeap_Len_def mh_invar_def mh_elems_def)
  show "mh_elems h = {#} \<Longrightarrow> MinHeap_Pop dt h = Some (None, h)"
    by (simp add: mh_elems_def MinHeap_Pop_def)
  show "mh_elems h \<noteq> {#} \<Longrightarrow>
      \<exists>w h'. MinHeap_Pop dt h = Some (Some w, h') \<and> mh_invar dt h' \<and> mh_elems h = add_mset w (mh_elems h')"
    using MinHeap_Pop_elems [OF inv] by (auto simp: mh_elems_def)
  fix e :: duration and now :: time
  show "\<exists>h'. MinHeap_RemoveExpired dt now e h
      = Some (int (size (filter_mset (expired dt now e) (mh_elems h))), h')
    \<and> mh_invar dt h' \<and> mh_elems h' = filter_mset (\<lambda>w. \<not> expired dt now e w) (mh_elems h)"
    using mh_scan_elems [OF inv, of now e 0] by (simp add: MinHeap_RemoveExpired_def)
next
  fix h h' :: "'a MinHeap" and w v
  assume inv: "mh_invar dt h" and pop: "MinHeap_Pop dt h = Some (Some w, h')" and v: "v \<in># mh_elems h"
  have "inner h \<noteq> []" using pop by (auto simp: MinHeap_Pop_def)
  with MinHeap_Pop_elems [OF inv] pop have "w = inner h ! 0" by auto
  with mh_root_oldest [OF inv v] show "dt w \<le> dt v" by simp
qed

end
