(* ===== verification/Idle_Treap.thy ===== *)
theory Idle_Treap
  imports Idle_Spec
begin

text \<open>
  \<^verbatim>\<open>idle.Treap\<close> (\<^verbatim>\<open>internal/idle/treap.go\<close>): a search tree on \<^verbatim>\<open>DatedTime\<close>
  that is a min-heap on random priorities, with split and merge. Nodes are recycled through
  a \<^verbatim>\<open>sync.Pool\<close>: \<^verbatim>\<open>Add\<close> overwrites the value and the priority of a recycled node
  but not its children, so a pooled node is modelled by the children it still points to,
  and the invariant says that every pooled node has none. \<^verbatim>\<open>rand.Int()\<close> and the pool's
  choice are arguments of \<open>Treap_Add\<close>.
\<close>

section \<open>Model\<close>

datatype 'a treapNode = TNil | TNode "'a treapNode" 'a int "'a treapNode"

record 'a Treap =
  root :: "'a treapNode"
  tsize :: int
  tpool :: "('a treapNode \<times> 'a treapNode) list" \<comment> \<open>left and right of each pooled node\<close>

definition NewTreap :: "'a Treap" where
  "NewTreap = \<lparr>root = TNil, tsize = 0, tpool = []\<rparr>"

fun treap_split :: "('a \<Rightarrow> time) \<Rightarrow> 'a treapNode \<Rightarrow> time \<Rightarrow> 'a treapNode \<times> 'a treapNode" where
  "treap_split dt TNil k = (TNil, TNil)"
| "treap_split dt (TNode l v p r) k =
     (if After (dt v) k
      then let (a, b) = treap_split dt l k in (a, TNode b v p r)
      else let (a, b) = treap_split dt r k in (TNode l v p a, b))"

fun treap_merge :: "'a treapNode \<Rightarrow> 'a treapNode \<Rightarrow> 'a treapNode" where
  "treap_merge TNil r = r"
| "treap_merge l TNil = l"
| "treap_merge (TNode l1 v1 p1 r1) (TNode l2 v2 p2 r2) =
     (if p1 < p2 then TNode l1 v1 p1 (treap_merge r1 (TNode l2 v2 p2 r2))
      else TNode (treap_merge (TNode l1 v1 p1 r1) l2) v2 p2 r2)"

text \<open>\<^verbatim>\<open>removeTree\<close> clears both children of a node before it puts the node into the pool.\<close>

fun treap_removeTree ::
  "'a treapNode \<Rightarrow> ('a treapNode \<times> 'a treapNode) list \<times> int \<Rightarrow>
   ('a treapNode \<times> 'a treapNode) list \<times> int"
where
  "treap_removeTree TNil st = st"
| "treap_removeTree (TNode l v p r) st =
     (let (pool, n) = treap_removeTree r (treap_removeTree l st)
      in (sync_Pool_Put (TNil, TNil) pool, n - 1))"

definition Treap_Add :: "('a \<Rightarrow> time) \<Rightarrow> int \<Rightarrow> nat option \<Rightarrow> 'a \<Rightarrow> 'a Treap \<Rightarrow> 'a Treap option" where
  "Treap_Add dt priority pick work t =
     (let ((nl, nr), pool) = sync_Pool_Get pick (TNil, TNil) (tpool t);
          node = TNode nl work priority nr;
          (left, right) = treap_split dt (root t) (dt work)
      in Some (t\<lparr>root := treap_merge left (treap_merge node right), tsize := tsize t + 1, tpool := pool\<rparr>))"

text \<open>
  The loop of \<^verbatim>\<open>Pop\<close>: from a node with a left child down to the last node that has one,
  whose left child is unlinked. The result is the value, the children left in the unlinked
  node, and the tree.
\<close>

fun treap_unlink ::
  "'a treapNode \<Rightarrow> 'a \<Rightarrow> int \<Rightarrow> 'a treapNode \<Rightarrow>
   ('a \<times> ('a treapNode \<times> 'a treapNode) \<times> 'a treapNode) option"
where
  "treap_unlink (TNode TNil v' p' r') v p r = Some (v', (TNil, TNil), TNode r' v p r)"
| "treap_unlink (TNode (TNode l2 v2 p2 r2) v' p' r') v p r =
     map_option (\<lambda>(x, node, t). (x, node, TNode t v p r)) (treap_unlink (TNode l2 v2 p2 r2) v' p' r')"
| "treap_unlink TNil v p r = None"

definition Treap_Pop :: "'a Treap \<Rightarrow> ('a option \<times> 'a Treap) option" where
  "Treap_Pop t =
     (case root t of
        TNil \<Rightarrow> Some (None, t)
      | TNode TNil v p r \<Rightarrow>
          Some (Some v, t\<lparr>root := r, tpool := sync_Pool_Put (TNil, TNil) (tpool t), tsize := tsize t - 1\<rparr>)
      | TNode l v p r \<Rightarrow>
          map_option
            (\<lambda>(x, node, u). (Some x, t\<lparr>root := u, tpool := sync_Pool_Put node (tpool t), tsize := tsize t - 1\<rparr>))
            (treap_unlink l v p r))"

definition Treap_RemoveExpired ::
  "('a \<Rightarrow> time) \<Rightarrow> time \<Rightarrow> duration \<Rightarrow> 'a Treap \<Rightarrow> (int \<times> 'a Treap) option" where
  "Treap_RemoveExpired dt now expiry t =
     (let oriCount = tsize t;
          removeTime = time_Add now (neg_duration expiry);
          (leftTree, rest) = treap_split dt (root t) removeTime;
          (pool, n) = treap_removeTree leftTree (tpool t, tsize t)
      in Some (oriCount - n, t\<lparr>root := rest, tpool := pool, tsize := n\<rparr>))"

definition Treap_Len :: "'a Treap \<Rightarrow> int" where
  "Treap_Len t = tsize t"

section \<open>Order, priorities and contents\<close>

fun treap_inorder :: "'a treapNode \<Rightarrow> 'a list" where
  "treap_inorder TNil = []"
| "treap_inorder (TNode l v p r) = treap_inorder l @ v # treap_inorder r"

fun treap_prios :: "'a treapNode \<Rightarrow> int set" where
  "treap_prios TNil = {}"
| "treap_prios (TNode l v p r) = insert p (treap_prios l \<union> treap_prios r)"

fun prio_heap :: "'a treapNode \<Rightarrow> bool" where
  "prio_heap TNil \<longleftrightarrow> True"
| "prio_heap (TNode l v p r) \<longleftrightarrow>
     (\<forall>q \<in> treap_prios l \<union> treap_prios r. p \<le> q) \<and> prio_heap l \<and> prio_heap r"

definition treap_invar :: "('a \<Rightarrow> time) \<Rightarrow> 'a Treap \<Rightarrow> bool" where
  "treap_invar dt t \<longleftrightarrow>
     sorted (map dt (treap_inorder (root t))) \<and> prio_heap (root t) \<and>
     tsize t = int (length (treap_inorder (root t))) \<and> set (tpool t) \<subseteq> {(TNil, TNil)}"

definition treap_elems :: "'a Treap \<Rightarrow> 'a multiset" where
  "treap_elems t = mset (treap_inorder (root t))"

lemma treap_split_inorder:
  "treap_split dt t k = (a, b) \<Longrightarrow> treap_inorder a @ treap_inorder b = treap_inorder t"
  by (induction t arbitrary: a b) (auto split: prod.splits if_splits)

lemma treap_split_sep:
  "treap_split dt t k = (a, b) \<Longrightarrow> sorted (map dt (treap_inorder t)) \<Longrightarrow>
   (\<forall>x \<in> set (treap_inorder a). dt x \<le> k) \<and> (\<forall>x \<in> set (treap_inorder b). k < dt x)"
proof (induction t arbitrary: a b)
  case (TNode l v p r)
  have sl: "sorted (map dt (treap_inorder l))" and sr: "sorted (map dt (treap_inorder r))"
    and lv: "\<forall>x \<in> set (treap_inorder l). dt x \<le> dt v" and rv: "\<forall>x \<in> set (treap_inorder r). dt v \<le> dt x"
    using TNode.prems(2) by (auto simp: sorted_append)
  show ?case
  proof (cases "After (dt v) k")
    case True
    obtain c d where cd: "treap_split dt l k = (c, d)" by (metis surj_pair)
    with TNode.prems(1) True have "a = c" "b = TNode d v p r" by auto
    with TNode.IH(1) [OF cd sl] rv True show ?thesis by (force simp: go_time)
  next
    case False
    obtain c d where cd: "treap_split dt r k = (c, d)" by (metis surj_pair)
    with TNode.prems(1) False have "a = TNode l v p c" "b = d" by auto
    with TNode.IH(2) [OF cd sr] lv False show ?thesis by (force simp: go_time)
  qed
qed simp

lemma treap_split_filter:
  assumes "treap_split dt t k = (a, b)" and "sorted (map dt (treap_inorder t))"
  shows "treap_inorder a = filter (\<lambda>v. \<not> After (dt v) k) (treap_inorder t)"
    and "treap_inorder b = filter (\<lambda>v. After (dt v) k) (treap_inorder t)"
  using treap_split_sep [OF assms] unfolding treap_split_inorder [OF assms(1), symmetric]
  by (auto simp: go_time filter_empty_conv filter_id_conv not_less)

lemma treap_merge_inorder:
  "treap_inorder (treap_merge l r) = treap_inorder l @ treap_inorder r"
  by (induction l r rule: treap_merge.induct) auto

lemma treap_split_prios:
  "treap_split dt t k = (a, b) \<Longrightarrow> treap_prios t = treap_prios a \<union> treap_prios b"
  by (induction t arbitrary: a b) (auto split: prod.splits if_splits)

lemma treap_split_heap:
  "treap_split dt t k = (a, b) \<Longrightarrow> prio_heap t \<Longrightarrow> prio_heap a \<and> prio_heap b"
  by (induction t arbitrary: a b) (fastforce dest: treap_split_prios split: prod.splits if_splits)+

lemma treap_merge_prios: "treap_prios (treap_merge l r) = treap_prios l \<union> treap_prios r"
  by (induction l r rule: treap_merge.induct) auto

lemma treap_merge_heap: "prio_heap l \<Longrightarrow> prio_heap r \<Longrightarrow> prio_heap (treap_merge l r)"
proof (induction l r rule: treap_merge.induct)
  case (3 l1 v1 p1 r1 l2 v2 p2 r2)
  then show ?case
    by (cases "p1 < p2") (force simp: treap_merge_prios)+
qed auto

lemma treap_removeTree_pool:
  "treap_removeTree u (pool, n) = (pool', n') \<Longrightarrow>
   set pool' \<subseteq> insert (TNil, TNil) (set pool) \<and> n' = n - int (length (treap_inorder u))"
proof (induction u arbitrary: pool n pool' n')
  case (TNode l v p r)
  obtain pl nl where l: "treap_removeTree l (pool, n) = (pl, nl)" by (metis surj_pair)
  obtain pr nr where r: "treap_removeTree r (pl, nl) = (pr, nr)" by (metis surj_pair)
  from TNode.IH(1) [OF l] TNode.IH(2) [OF r] TNode.prems l r show ?case
    by (auto simp: sync_Pool_Put_def)
qed auto

lemma treap_unlink_correct:
  assumes "l \<noteq> TNil" and "prio_heap (TNode l v p r)"
  shows "\<exists>x t. treap_unlink l v p r = Some (x, (TNil, TNil), t) \<and>
    treap_inorder (TNode l v p r) = x # treap_inorder t \<and> prio_heap t \<and>
    treap_prios t \<subseteq> treap_prios (TNode l v p r)"
  using assms
proof (induction l v p r rule: treap_unlink.induct)
  case (2 l2 v2 p2 r2 v' p' r' v p r)
  then obtain x t where
    t: "treap_unlink (TNode l2 v2 p2 r2) v' p' r' = Some (x, (TNil, TNil), t)"
      "treap_inorder (TNode (TNode l2 v2 p2 r2) v' p' r') = x # treap_inorder t" "prio_heap t"
      "treap_prios t \<subseteq> treap_prios (TNode (TNode l2 v2 p2 r2) v' p' r')"
    by auto
  then have "prio_heap (TNode t v p r)" using "2.prems"(2) by auto
  with t show ?case by auto
qed auto

section \<open>The contract\<close>

lemma Treap_Add_elems:
  assumes "treap_invar dt t"
  shows "\<exists>t'. Treap_Add dt priority pick w t = Some t' \<and> treap_invar dt t' \<and>
    treap_elems t' = add_mset w (treap_elems t)"
proof -
  obtain nl nr pool where get: "sync_Pool_Get pick (TNil, TNil) (tpool t) = ((nl, nr), pool)"
    by (metis surj_pair)
  have pool: "nl = TNil" "nr = TNil" "set pool \<subseteq> {(TNil, TNil)}"
    using get assms set_take_drop_Suc [of _ "tpool t"] nth_mem
    by (fastforce simp: treap_invar_def elim!: sync_Pool_Get_cases)+
  obtain a b where ab: "treap_split dt (root t) (dt w) = (a, b)" by (metis surj_pair)
  let ?r = "treap_merge a (treap_merge (TNode TNil w priority TNil) b)"
  have "sorted (map dt (treap_inorder (root t)))" using assms by (simp add: treap_invar_def)
  note sep = treap_split_sep [OF ab this] and whole = treap_split_inorder [OF ab]
  have ino: "treap_inorder ?r = treap_inorder a @ w # treap_inorder b"
    by (simp add: treap_merge_inorder)
  moreover have "sorted (map dt (treap_inorder ?r))"
    unfolding ino using assms sep unfolding treap_invar_def whole [symmetric]
    by (auto simp: sorted_append)
  moreover have "prio_heap ?r"
    using assms treap_split_heap [OF ab] by (auto simp: treap_invar_def intro!: treap_merge_heap)
  ultimately show ?thesis
    using assms get pool ab unfolding treap_invar_def treap_elems_def whole [symmetric]
    by (auto simp: Treap_Add_def Let_def)
qed

lemma Treap_Pop_elems:
  assumes "treap_invar dt t" and "root t \<noteq> TNil"
  shows "\<exists>x t'. Treap_Pop t = Some (Some x, t') \<and> treap_invar dt t' \<and>
    treap_inorder (root t) = x # treap_inorder (root t')"
proof -
  obtain l v p r where root: "root t = TNode l v p r" using assms(2) by (cases "root t") auto
  show ?thesis
  proof (cases l)
    case TNil
    with root assms(1) show ?thesis by (auto simp: Treap_Pop_def treap_invar_def sync_Pool_Put_def)
  next
    case (TNode l2 v2 p2 r2)
    with root assms(1) obtain x u where
      "treap_unlink l v p r = Some (x, (TNil, TNil), u)"
      "treap_inorder (TNode l v p r) = x # treap_inorder u" "prio_heap u"
      using treap_unlink_correct [of l v p r] by (auto simp: treap_invar_def)
    moreover from this(2) root assms(1) have "sorted (map dt (x # treap_inorder u))"
      "tsize t = int (length (x # treap_inorder u))"
      by (simp_all add: treap_invar_def)
    ultimately show ?thesis
      using root TNode assms(1) by (auto simp: Treap_Pop_def treap_invar_def sync_Pool_Put_def)
  qed
qed

lemma Treap_RemoveExpired_elems:
  assumes "treap_invar dt t" and "MinInt64 < e"
  shows "\<exists>t'. Treap_RemoveExpired dt now e t
      = Some (int (size (filter_mset (expired dt now e) (treap_elems t))), t')
    \<and> treap_invar dt t' \<and> treap_elems t' = filter_mset (\<lambda>w. \<not> expired dt now e w) (treap_elems t)"
proof -
  let ?k = "time_Add now (neg_duration e)"
  obtain a b where ab: "treap_split dt (root t) ?k = (a, b)" by (metis surj_pair)
  have srt: "sorted (map dt (treap_inorder (root t)))" using assms by (simp add: treap_invar_def)
  note split = treap_split_filter [OF ab srt, unfolded After_cutoff [OF assms(2)], simplified]
  have "sorted (map dt (treap_inorder b))"
    using srt treap_split_inorder [OF ab] by (metis map_append sorted_append)
  moreover obtain pool n where rem: "treap_removeTree a (tpool t, tsize t) = (pool, n)" by (metis surj_pair)
  moreover have "n = int (length (filter (\<lambda>w. \<not> expired dt now e w) (treap_inorder (root t))))"
    using treap_removeTree_pool [OF rem] assms(1) split
    by (simp add: treap_invar_def flip: int_length_filter_not)
  ultimately show ?thesis
    using treap_removeTree_pool [OF rem] assms(1) ab split treap_split_heap [OF ab]
    by (auto simp: Treap_RemoveExpired_def treap_invar_def treap_elems_def simp flip: mset_filter)
qed

interpretation treap: oldest_container NewTreap "Treap_Add dt priority pick" Treap_Pop
    "Treap_RemoveExpired dt" Treap_Len dt "treap_invar dt" treap_elems
  for dt :: "'a \<Rightarrow> time" and priority :: int and pick :: "nat option"
proof unfold_locales
  show "treap_invar dt (NewTreap :: 'a Treap) \<and> treap_elems (NewTreap :: 'a Treap) = {#}"
    by (simp add: NewTreap_def treap_invar_def treap_elems_def)
next
  fix t :: "'a Treap" and w :: 'a
  assume "treap_invar dt t"
  then show "\<exists>t'. Treap_Add dt priority pick w t = Some t' \<and> treap_invar dt t' \<and>
      treap_elems t' = add_mset w (treap_elems t)"
    by (rule Treap_Add_elems)
next
  fix t :: "'a Treap"
  assume inv: "treap_invar dt t"
  then show "Treap_Len t = int (size (treap_elems t))"
    by (simp add: Treap_Len_def treap_invar_def treap_elems_def)
  have leaf: "treap_elems t = {#} \<longleftrightarrow> root t = TNil"
    by (cases "root t") (auto simp: treap_elems_def)
  then show "treap_elems t = {#} \<Longrightarrow> Treap_Pop t = Some (None, t)"
    by (simp add: Treap_Pop_def)
  show "treap_elems t \<noteq> {#} \<Longrightarrow>
      \<exists>w t'. Treap_Pop t = Some (Some w, t') \<and> treap_invar dt t' \<and> treap_elems t = add_mset w (treap_elems t')"
    using Treap_Pop_elems [OF inv] leaf by (fastforce simp: treap_elems_def)
  fix e :: duration and now :: time
  assume "MinInt64 < e"
  with inv show "\<exists>t'. Treap_RemoveExpired dt now e t
      = Some (int (size (filter_mset (expired dt now e) (treap_elems t))), t')
    \<and> treap_invar dt t' \<and> treap_elems t' = filter_mset (\<lambda>w. \<not> expired dt now e w) (treap_elems t)"
    by (rule Treap_RemoveExpired_elems)
next
  fix t t' :: "'a Treap" and w v
  assume inv: "treap_invar dt t" and pop: "Treap_Pop t = Some (Some w, t')" and v: "v \<in># treap_elems t"
  have "root t \<noteq> TNil" using pop by (auto simp: Treap_Pop_def)
  with Treap_Pop_elems [OF inv] pop have "treap_inorder (root t) = w # treap_inorder (root t')" by auto
  with inv v show "dt w \<le> dt v" by (auto simp: treap_invar_def treap_elems_def)
qed

end
