(* ===== verification/Idle_Works.thy ===== *)
theory Idle_Works
  imports Idle_Slice Idle_RingQueue Idle_LinkedList Idle_Heap Idle_Treap
begin

text \<open>
  The field \<^verbatim>\<open>idleWorks\<close> of the pool: an \<^verbatim>\<open>IdleContainer\<close> interface value holding
  one of the five implementations, chosen by \<^verbatim>\<open>NewPool\<close>'s switch. Method calls dispatch on
  the dynamic type, and the contract holds whichever it is.

  A parked worker is stored by value: nothing writes its fields while it is parked.
\<close>

record worker =
  wid :: nat
  lastActiveAt :: time
  cursor :: "64 word"

definition DatedTime :: "worker \<Rightarrow> time" where
  "DatedTime w = lastActiveAt w"

datatype idle_works =
    IdleLinkedList "worker LinkedList"
  | IdleMinHeap "worker MinHeap"
  | IdleSlice "worker Slice"
  | IdleRingQueue "worker RingQueue"
  | IdleTreap "worker Treap"

fun new_idleWorks :: "IdleContainerType \<Rightarrow> idle_works" where
  "new_idleWorks MinHeapType = IdleMinHeap (NewMinHeap DatedTime)"
| "new_idleWorks SliceType = IdleSlice NewSlice"
| "new_idleWorks RingQueueType = IdleRingQueue NewRingQueue"
| "new_idleWorks TreapType = IdleTreap NewTreap"
| "new_idleWorks LinkedListType = IdleLinkedList NewLinkedList"

text \<open>The treap draws a priority and a recycled node; the other containers do not use them.\<close>

fun idle_Add :: "int \<Rightarrow> nat option \<Rightarrow> worker \<Rightarrow> idle_works \<Rightarrow> idle_works option" where
  "idle_Add priority pick w (IdleLinkedList c) = map_option IdleLinkedList (LinkedList_Add w c)"
| "idle_Add priority pick w (IdleMinHeap c) = map_option IdleMinHeap (MinHeap_Add DatedTime w c)"
| "idle_Add priority pick w (IdleSlice c) = map_option IdleSlice (Slice_Add w c)"
| "idle_Add priority pick w (IdleRingQueue c) = map_option IdleRingQueue (RingQueue_Add w c)"
| "idle_Add priority pick w (IdleTreap c) = map_option IdleTreap (Treap_Add DatedTime priority pick w c)"

fun idle_Pop :: "idle_works \<Rightarrow> (worker option \<times> idle_works) option" where
  "idle_Pop (IdleLinkedList c) = map_option (\<lambda>(w, c). (w, IdleLinkedList c)) (LinkedList_Pop c)"
| "idle_Pop (IdleMinHeap c) = map_option (\<lambda>(w, c). (w, IdleMinHeap c)) (MinHeap_Pop DatedTime c)"
| "idle_Pop (IdleSlice c) = map_option (\<lambda>(w, c). (w, IdleSlice c)) (Slice_Pop c)"
| "idle_Pop (IdleRingQueue c) = map_option (\<lambda>(w, c). (w, IdleRingQueue c)) (RingQueue_Pop c)"
| "idle_Pop (IdleTreap c) = map_option (\<lambda>(w, c). (w, IdleTreap c)) (Treap_Pop c)"

fun idle_RemoveExpired :: "time \<Rightarrow> duration \<Rightarrow> idle_works \<Rightarrow> (int \<times> idle_works) option" where
  "idle_RemoveExpired now e (IdleLinkedList c) =
     map_option (\<lambda>(n, c). (n, IdleLinkedList c)) (LinkedList_RemoveExpired DatedTime now e c)"
| "idle_RemoveExpired now e (IdleMinHeap c) =
     map_option (\<lambda>(n, c). (n, IdleMinHeap c)) (MinHeap_RemoveExpired DatedTime now e c)"
| "idle_RemoveExpired now e (IdleSlice c) =
     map_option (\<lambda>(n, c). (n, IdleSlice c)) (Slice_RemoveExpired DatedTime now e c)"
| "idle_RemoveExpired now e (IdleRingQueue c) =
     map_option (\<lambda>(n, c). (n, IdleRingQueue c)) (RingQueue_RemoveExpired DatedTime now e c)"
| "idle_RemoveExpired now e (IdleTreap c) =
     map_option (\<lambda>(n, c). (n, IdleTreap c)) (Treap_RemoveExpired DatedTime now e c)"

fun idle_Len :: "idle_works \<Rightarrow> int" where
  "idle_Len (IdleLinkedList c) = LinkedList_Len c"
| "idle_Len (IdleMinHeap c) = MinHeap_Len c"
| "idle_Len (IdleSlice c) = Slice_Len c"
| "idle_Len (IdleRingQueue c) = RingQueue_Len c"
| "idle_Len (IdleTreap c) = Treap_Len c"

fun idle_invar :: "idle_works \<Rightarrow> bool" where
  "idle_invar (IdleLinkedList c) \<longleftrightarrow> ll_invar c"
| "idle_invar (IdleMinHeap c) \<longleftrightarrow> mh_invar DatedTime c"
| "idle_invar (IdleSlice c) \<longleftrightarrow> slice_invar c"
| "idle_invar (IdleRingQueue c) \<longleftrightarrow> ring_invar c"
| "idle_invar (IdleTreap c) \<longleftrightarrow> treap_invar DatedTime c"

fun idle_elems :: "idle_works \<Rightarrow> worker multiset" where
  "idle_elems (IdleLinkedList c) = mset (ll_list c)"
| "idle_elems (IdleMinHeap c) = mh_elems c"
| "idle_elems (IdleSlice c) = mset (slice_list c)"
| "idle_elems (IdleRingQueue c) = mset (ring_list c)"
| "idle_elems (IdleTreap c) = treap_elems c"

interpretation works: idle_container "new_idleWorks ty" "idle_Add priority pick" idle_Pop idle_RemoveExpired
    idle_Len DatedTime idle_invar idle_elems
  for ty :: IdleContainerType and priority :: int and pick :: "nat option"
proof unfold_locales
  show "idle_invar (new_idleWorks ty) \<and> idle_elems (new_idleWorks ty) = {#}"
    using linked.empty_ok heap.empty_ok slice.empty_ok ring.empty_ok treap.empty_ok by (cases ty) auto
next
  fix c w
  assume "idle_invar c"
  then show "\<exists>c'. idle_Add priority pick w c = Some c' \<and> idle_invar c' \<and> idle_elems c' = add_mset w (idle_elems c)"
    using linked.add_ok heap.add_ok slice.add_ok ring.add_ok treap.add_ok by (cases c) fastforce+
next
  fix c
  assume *: "idle_invar c" "idle_elems c = {#}"
  show "idle_Pop c = Some (None, c)"
  proof (cases c)
    case (IdleLinkedList x)
    then show ?thesis using * linked.pop_none [of x] by simp
  next
    case (IdleMinHeap x)
    then show ?thesis using * heap.pop_none [of DatedTime x] by simp
  next
    case (IdleSlice x)
    then show ?thesis using * slice.pop_none [of x] by simp
  next
    case (IdleRingQueue x)
    then show ?thesis using * ring.pop_none [of x] by simp
  next
    case (IdleTreap x)
    then show ?thesis using * treap.pop_none [of DatedTime x] by simp
  qed
next
  fix c
  assume *: "idle_invar c" "idle_elems c \<noteq> {#}"
  show "\<exists>w c'. idle_Pop c = Some (Some w, c') \<and> idle_invar c' \<and> idle_elems c = add_mset w (idle_elems c')"
  proof (cases c)
    case (IdleLinkedList x)
    then show ?thesis using * linked.pop_some [of x] by fastforce
  next
    case (IdleMinHeap x)
    then show ?thesis using * heap.pop_some [of DatedTime x] by fastforce
  next
    case (IdleSlice x)
    then show ?thesis using * slice.pop_some [of x] by fastforce
  next
    case (IdleRingQueue x)
    then show ?thesis using * ring.pop_some [of x] by fastforce
  next
    case (IdleTreap x)
    then show ?thesis using * treap.pop_some [of DatedTime x] by fastforce
  qed
next
  fix c e now
  assume "idle_invar c" "MinInt64 < e"
  then show "\<exists>c'. idle_RemoveExpired now e c =
        Some (int (size (filter_mset (expired DatedTime now e) (idle_elems c))), c') \<and> idle_invar c' \<and>
        idle_elems c' = filter_mset (\<lambda>w. \<not> expired DatedTime now e w) (idle_elems c)"
    using linked.rem_ok heap.rem_ok slice.rem_ok ring.rem_ok treap.rem_ok by (cases c) fastforce+
next
  fix c
  assume "idle_invar c"
  then show "idle_Len c = int (size (idle_elems c))"
    using linked.len_ok heap.len_ok slice.len_ok ring.len_ok treap.len_ok by (cases c) fastforce+
qed

section \<open>The containers ordered by age\<close>

fun idle_ordered :: "idle_works \<Rightarrow> bool" where
  "idle_ordered (IdleMinHeap c) \<longleftrightarrow> True"
| "idle_ordered (IdleTreap c) \<longleftrightarrow> True"
| "idle_ordered _ \<longleftrightarrow> False"

lemma idle_ordered_keep:
  shows "idle_Add priority pick w c = Some c' \<Longrightarrow> idle_ordered c' \<longleftrightarrow> idle_ordered c"
    and "idle_Pop c = Some (r, c') \<Longrightarrow> idle_ordered c' \<longleftrightarrow> idle_ordered c"
    and "idle_RemoveExpired now e c = Some (n, c') \<Longrightarrow> idle_ordered c' \<longleftrightarrow> idle_ordered c"
  by (cases c; auto)+

interpretation ordered_works: oldest_container "new_idleWorks (if h then MinHeapType else TreapType)"
    "idle_Add priority pick" idle_Pop idle_RemoveExpired idle_Len DatedTime
    "\<lambda>c. idle_invar c \<and> idle_ordered c" idle_elems
  for h :: bool and priority :: int and pick :: "nat option"
proof unfold_locales
  show "(idle_invar (new_idleWorks (if h then MinHeapType else TreapType)) \<and>
      idle_ordered (new_idleWorks (if h then MinHeapType else TreapType))) \<and>
      idle_elems (new_idleWorks (if h then MinHeapType else TreapType)) = {#}"
    using works.empty_ok [of MinHeapType] works.empty_ok [of TreapType] by simp
next
  fix c w
  assume "idle_invar c \<and> idle_ordered c"
  then show "\<exists>c'. idle_Add priority pick w c = Some c' \<and> (idle_invar c' \<and> idle_ordered c') \<and>
      idle_elems c' = add_mset w (idle_elems c)"
    using works.add_ok [of c priority pick w] idle_ordered_keep(1) by blast
next
  fix c
  assume "idle_invar c \<and> idle_ordered c" "idle_elems c = {#}"
  then show "idle_Pop c = Some (None, c)" using works.pop_none by blast
next
  fix c
  assume "idle_invar c \<and> idle_ordered c" "idle_elems c \<noteq> {#}"
  then show "\<exists>w c'. idle_Pop c = Some (Some w, c') \<and> (idle_invar c' \<and> idle_ordered c') \<and>
      idle_elems c = add_mset w (idle_elems c')"
    using works.pop_some [of c] idle_ordered_keep(2) by blast
next
  fix c e now
  assume "idle_invar c \<and> idle_ordered c" "MinInt64 < e"
  then show "\<exists>c'. idle_RemoveExpired now e c =
      Some (int (size (filter_mset (expired DatedTime now e) (idle_elems c))), c') \<and>
      (idle_invar c' \<and> idle_ordered c') \<and>
      idle_elems c' = filter_mset (\<lambda>w. \<not> expired DatedTime now e w) (idle_elems c)"
    using works.rem_ok [of c e now] idle_ordered_keep(3) by blast
next
  fix c
  assume "idle_invar c \<and> idle_ordered c"
  then show "idle_Len c = int (size (idle_elems c))" using works.len_ok by blast
next
  fix c w c' v
  assume *: "idle_invar c \<and> idle_ordered c" "idle_Pop c = Some (Some w, c')" "v \<in># idle_elems c"
  show "DatedTime w \<le> DatedTime v"
  proof (cases c)
    case (IdleMinHeap x)
    then obtain x' where "MinHeap_Pop DatedTime x = Some (Some w, x')" using *(2) by auto
    then show ?thesis using heap.pop_oldest [of DatedTime x w x' v] * IdleMinHeap by simp
  next
    case (IdleTreap x)
    then obtain x' where "Treap_Pop x = Some (Some w, x')" using *(2) by auto
    then show ?thesis using treap.pop_oldest [of DatedTime x w x' v] * IdleTreap by simp
  qed (use * in simp_all)
qed

section \<open>Histories of the idle container of a pool\<close>

datatype works_op = WAdd int "nat option" worker | WPop | WRemove time duration

fun works_run :: "works_op list \<Rightarrow> idle_works \<Rightarrow> (worker list \<times> idle_works) option" where
  "works_run [] c = Some ([], c)"
| "works_run (WAdd priority pick w # xs) c =
     (case idle_Add priority pick w c of None \<Rightarrow> None | Some c' \<Rightarrow> works_run xs c')"
| "works_run (WPop # xs) c =
     (case idle_Pop c of
        None \<Rightarrow> None
      | Some (r, c') \<Rightarrow>
          map_option (\<lambda>(ws, c''). ((case r of None \<Rightarrow> ws | Some w \<Rightarrow> w # ws), c'')) (works_run xs c'))"
| "works_run (WRemove now e # xs) c =
     (case idle_RemoveExpired now e c of None \<Rightarrow> None | Some (n, c') \<Rightarrow> works_run xs c')"

fun works_added :: "works_op list \<Rightarrow> worker multiset" where
  "works_added [] = {#}"
| "works_added (WAdd priority pick w # xs) = add_mset w (works_added xs)"
| "works_added (_ # xs) = works_added xs"

fun works_op_ok :: "works_op \<Rightarrow> bool" where
  "works_op_ok (WRemove now e) \<longleftrightarrow> MinInt64 < e"
| "works_op_ok _ \<longleftrightarrow> True"

lemma works_run_ok:
  assumes "idle_invar c" and "list_all works_op_ok xs"
  shows "\<exists>ws c'. works_run xs c = Some (ws, c') \<and> idle_invar c' \<and> (idle_ordered c' \<longleftrightarrow> idle_ordered c) \<and>
           mset ws + idle_elems c' \<subseteq># idle_elems c + works_added xs"
  using assms
proof (induction xs arbitrary: c)
  case (Cons x xs)
  show ?case
  proof (cases x)
    case (WAdd priority pick w)
    obtain c1 where c1: "idle_Add priority pick w c = Some c1" "idle_invar c1" "idle_elems c1 = add_mset w (idle_elems c)"
      using works.add_ok [OF Cons.prems(1)] by blast
    then show ?thesis using Cons.IH [OF c1(2)] Cons.prems(2) WAdd idle_ordered_keep(1) [OF c1(1)] by auto
  next
    case WPop
    show ?thesis
    proof (cases "idle_elems c = {#}")
      case True
      then show ?thesis using works.pop_none [OF Cons.prems(1) True] Cons.IH [OF Cons.prems(1)] Cons.prems(2) WPop by auto
    next
      case False
      then obtain w c1 where c1: "idle_Pop c = Some (Some w, c1)" "idle_invar c1" "idle_elems c = add_mset w (idle_elems c1)"
        using works.pop_some [OF Cons.prems(1)] by blast
      then show ?thesis using Cons.IH [OF c1(2)] Cons.prems(2) WPop idle_ordered_keep(2) [OF c1(1)] by auto
    qed
  next
    case (WRemove now e)
    then obtain c1 where c1: "idle_RemoveExpired now e c = Some (int (size (filter_mset (expired DatedTime now e) (idle_elems c))), c1)"
        "idle_invar c1" "idle_elems c1 = filter_mset (\<lambda>w. \<not> expired DatedTime now e w) (idle_elems c)"
      using works.rem_ok [OF Cons.prems(1), of e now] Cons.prems(2) by auto
    then obtain ws c' where r: "works_run xs c1 = Some (ws, c')" "idle_invar c'" "idle_ordered c' \<longleftrightarrow> idle_ordered c1"
        "mset ws + idle_elems c' \<subseteq># idle_elems c1 + works_added xs"
      using Cons.IH [OF c1(2)] Cons.prems(2) by auto
    have "idle_elems c1 + works_added xs \<subseteq># idle_elems c + works_added xs"
      unfolding c1(3) by (simp add: multiset_filter_subset)
    then show ?thesis
      using r WRemove c1(1) idle_ordered_keep(3) [OF c1(1)] subset_mset.order_trans by fastforce
  qed
qed simp

section \<open>Properties\<close>

text \<open>
  C27. The three queue-like idle containers are interchangeable: the slice, the ring queue
  and the linked list return the same results on every history of calls, namely those of a
  plain first-in first-out list.
\<close>

theorem fifo_containers_agree:
  assumes "list_all op_ok xs"
  shows "\<exists>rs. map_option fst (idle_run Slice_Add Slice_Pop (Slice_RemoveExpired dt) Slice_Len NewSlice xs) = Some rs \<and>
          map_option fst (idle_run RingQueue_Add RingQueue_Pop (RingQueue_RemoveExpired dt) RingQueue_Len NewRingQueue xs) = Some rs \<and>
          map_option fst (idle_run LinkedList_Add LinkedList_Pop (LinkedList_RemoveExpired dt) LinkedList_Len NewLinkedList xs) = Some rs \<and>
          map_option fst (idle_run fifo_add fifo_pop (fifo_remove dt) fifo_len [] xs) = Some rs"
  using slice.run_refines [of NewSlice xs dt] ring.run_refines [of NewRingQueue xs dt]
    linked.run_refines [of NewLinkedList xs dt] slice.fifo_empty ring.fifo_empty linked.fifo_empty assms
  by fastforce

theorem fifo_containers_agree_witness:
  "map_option fst (idle_run RingQueue_Add RingQueue_Pop (RingQueue_RemoveExpired id) RingQueue_Len NewRingQueue
      [DoAdd 5, DoAdd 2, DoRemoveExpired 3 1, DoPop, DoLen]) =
     Some [OutUnit, OutUnit, OutCount 1, OutElem (Some (5::int)), OutCount 0]"
proof -
  let ?xs = "[DoAdd 5, DoAdd 2, DoRemoveExpired 3 1, DoPop, DoLen] :: int idle_op list"
  have "list_all op_ok ?xs" by simp
  from fifo_containers_agree [OF this, of id] show ?thesis
    by (auto simp: fifo_defs expired_def)
qed

text \<open>
  C29. Whichever container is configured, no history of calls panics or hangs, every worker
  handed out was parked and is handed out at most once, and \<^verbatim>\<open>Len\<close> is the number parked.
\<close>

theorem idle_container_sound:
  assumes "list_all works_op_ok xs"
  shows "\<exists>ws c. works_run xs (new_idleWorks ty) = Some (ws, c) \<and> mset ws + idle_elems c \<subseteq># works_added xs \<and>
           idle_Len c = int (size (idle_elems c))"
proof -
  have "idle_invar (new_idleWorks ty)" "idle_elems (new_idleWorks ty) = {#}" using works.empty_ok by auto
  then show ?thesis using works_run_ok [OF _ assms, of "new_idleWorks ty"] works.len_ok by fastforce
qed

abbreviation example_worker :: "nat \<Rightarrow> time \<Rightarrow> worker" where
  "example_worker i t \<equiv> \<lparr>wid = i, lastActiveAt = t, cursor = 0\<rparr>"

theorem idle_container_sound_witness:
  "\<exists>ws c. works_run [WAdd 3 None (example_worker 0 5), WAdd 1 None (example_worker 1 2), WRemove 4 1, WPop]
       (new_idleWorks TreapType) = Some (ws, c) \<and>
     mset ws + idle_elems c \<subseteq># {#example_worker 0 5, example_worker 1 2#}"
  using idle_container_sound [of "[WAdd 3 None (example_worker 0 5), WAdd 1 None (example_worker 1 2), WRemove 4 1, WPop]" TreapType]
  by auto

text \<open>
  C28. The heap and the treap hand out the longest-idle worker first: after any history,
  popping everything returns exactly the parked workers, from the oldest \<^verbatim>\<open>lastActiveAt\<close> to
  the youngest.
\<close>

theorem ordered_containers_pop_oldest_first:
  assumes "ty = MinHeapType \<or> ty = TreapType" and "list_all works_op_ok xs"
    and "works_run xs (new_idleWorks ty) = Some (ws, c)"
  shows "\<exists>vs c'. pop_all idle_Pop (nat (idle_Len c)) c = Some (vs, c') \<and> mset vs = idle_elems c \<and>
           sorted (map lastActiveAt vs)"
proof -
  have "idle_invar (new_idleWorks ty)" "idle_ordered (new_idleWorks ty)" using works.empty_ok assms(1) by auto
  then have c: "idle_invar c \<and> idle_ordered c"
    using works_run_ok [OF _ assms(2), of "new_idleWorks ty"] assms(3) by auto
  then have n: "size (idle_elems c) = nat (idle_Len c)" using works.len_ok by simp
  obtain vs c' where "pop_all idle_Pop (nat (idle_Len c)) c = Some (vs, c')" "mset vs = idle_elems c"
    using works.drain_ok [of c] c n by blast
  moreover from this(1) have "sorted (map DatedTime vs)"
    using ordered_works.drain_sorted [OF c _ n] by blast
  moreover have "DatedTime = lastActiveAt" by (simp add: fun_eq_iff DatedTime_def)
  ultimately show ?thesis by auto
qed

theorem ordered_containers_pop_oldest_first_witness:
  "\<exists>ws c vs c'. works_run [WAdd 3 None (example_worker 0 5), WAdd 1 None (example_worker 1 2)] (new_idleWorks MinHeapType) = Some (ws, c) \<and>
     pop_all idle_Pop (nat (idle_Len c)) c = Some (vs, c') \<and> mset vs = idle_elems c \<and> sorted (map lastActiveAt vs)"
proof -
  let ?xs = "[WAdd 3 None (example_worker 0 5), WAdd 1 None (example_worker 1 2)]"
  have ok: "list_all works_op_ok ?xs" by simp
  obtain ws c where "works_run ?xs (new_idleWorks MinHeapType) = Some (ws, c)"
    using works_run_ok [OF _ ok, of "new_idleWorks MinHeapType"] works.empty_ok by blast
  with ordered_containers_pop_oldest_first [OF _ ok this] show ?thesis by blast
qed

end
