(* ===== verification/Pool.thy ===== *)
theory Pool
  imports Shards Task_Buffer Hooks Histogram Idle_Works
begin

text \<open>
  \<^verbatim>\<open>pool.go\<close>: the state of the pool, \<^verbatim>\<open>NewPool\<close>, the submission path, the
  accounting of pending tasks, \<^verbatim>\<open>Close\<close> and the getters. Each function is given as one
  uninterrupted run of the code; the places where the runtime chooses (which ready case a
  \<^verbatim>\<open>select\<close> takes, which object a \<^verbatim>\<open>sync.Pool\<close> returns) are arguments. The
  interleavings that matter are the subject of the theories \<open>Drain\<close>, \<open>Spin_Lock\<close> and
  \<open>Concurrent_Pool\<close>.
\<close>

section \<open>State\<close>

text \<open>
  An implementation of the interface \<^verbatim>\<open>Hooks\<close> of \<^verbatim>\<open>hook.go\<close>: its five dispatch
  methods, which may panic.
\<close>

record ('c, 'v, 'w) hooks_iface =
  iTaskSubmitted :: "'c \<Rightarrow> 'w \<Rightarrow> (unit, 'v) outcome \<times> 'w"
  iTaskEnqueued :: "'c \<Rightarrow> 'w \<Rightarrow> (unit, 'v) outcome \<times> 'w"
  iTaskStarted :: "'c \<Rightarrow> 'w \<Rightarrow> (unit, 'v) outcome \<times> 'w"
  iTaskCompleted :: "'c \<Rightarrow> 'v option \<Rightarrow> 'w \<Rightarrow> (unit, 'v) outcome \<times> 'w"
  iPoolClosed :: "'w \<Rightarrow> (unit, 'v) outcome \<times> 'w"

datatype 'v pool_log = HookDispatchPanicked 'v | WorkerPanic 'v | PanicHandlerPanicked 'v

type_synonym ('f, 'b, 'c, 'v, 'w) PanicHandler =
  "('f, 'b, 'c) Task option \<Rightarrow> 'v \<Rightarrow> 'w \<Rightarrow> (unit, 'v) outcome \<times> 'w"

type_synonym ('f, 'b, 'c) shards = "('f, 'b, 'c) Task option chan list"

text \<open>
  The fields of \<^verbatim>\<open>Pool\<close>. \<open>drainCh\<close> says whether a waiter has published the drain
  channel and \<open>drainSignals\<close> counts how often it was closed; \<open>started\<close> lists the worker
  goroutines launched; \<open>poolLog\<close> and \<open>world\<close> are the effects outside the pool.
\<close>

record ('f, 'b, 'c, 'v, 'w) Pool =
  taskQueues :: "('f, 'b, 'c) shards"
  shardMask :: "64 word"
  sendSeq :: "64 word"
  workerSeq :: "64 word"
  queueSize :: int
  closePoolCn :: bool
  capacity :: int
  runningWorkersNum :: int
  closed :: bool
  idleWorks :: idle_works
  config :: "('f, 'b, 'c, 'v, 'w) PanicHandler Config"
  drainCh :: bool
  drainSignals :: nat
  workerCreateCount :: int
  taskBuf :: "('f, 'b, 'c) Task chunkedTaskBuffer"
  pendingTasks :: int
  submitCount :: int
  consumeCount :: int
  exitCount :: int
  submitHist :: histogram
  consumeHist :: histogram
  exitHist :: histogram
  lastZeroConsumeScale :: time
  hooks :: "('c, 'v, 'w) hooks_iface option"
  started :: "worker list"
  poolLog :: "'v pool_log list"
  world :: 'w

text \<open>
  \<^verbatim>\<open>NewPool\<close>; \<open>None\<close> when \<^verbatim>\<open>resolveTaskQueueShards\<close> does not return. The
  background goroutines are modelled by the operations they call.
\<close>

definition NewPool ::
  "int \<Rightarrow> ('f, 'b, 'c, 'v, 'w) PanicHandler Config option \<Rightarrow> 'w \<Rightarrow> ('f, 'b, 'c, 'v, 'w) Pool option" where
  "NewPool GOMAXPROCS cfg w =
     (let c = (case cfg of None \<Rightarrow> NewConfig [] | Some c \<Rightarrow> c) in
      case resolveTaskQueueShards GOMAXPROCS c of
        None \<Rightarrow> None
      | Some shardCount \<Rightarrow>
          Some \<lparr>taskQueues = make_shards shardCount (perShardCap (taskQueueSize c) shardCount),
                shardMask = shard_mask shardCount, sendSeq = 0, workerSeq = 0,
                queueSize = taskQueueSize c, closePoolCn = False, capacity = workerNumCapacity c,
                runningWorkersNum = 0, closed = False, idleWorks = new_idleWorks (idleContainerType c),
                config = c, drainCh = False, drainSignals = 0, workerCreateCount = 0,
                taskBuf = newChunkedTaskBuffer, pendingTasks = 0, submitCount = 0, consumeCount = 0,
                exitCount = 0, submitHist = newHistogram submitBuckets (nat (statsWindowSize c)),
                consumeHist = newHistogram consumeBuckets (nat (statsWindowSize c)),
                exitHist = newHistogram exitBuckets (nat (statsWindowSize c)),
                lastZeroConsumeScale = 0, hooks = None, started = [], poolLog = [], world = w\<rparr>)"

section \<open>Hooks and panic handlers\<close>

definition SetHook :: "('c, 'v, 'w) hooks_iface option \<Rightarrow> ('f, 'b, 'c, 'v, 'w) Pool \<Rightarrow> ('f, 'b, 'c, 'v, 'w) Pool" where
  "SetHook hs p = p\<lparr>hooks := hs\<rparr>"

definition dispatchHook ::
  "(('c, 'v, 'w) hooks_iface \<Rightarrow> 'w \<Rightarrow> (unit, 'v) outcome \<times> 'w) \<Rightarrow>
   ('f, 'b, 'c, 'v, 'w) Pool \<Rightarrow> ('f, 'b, 'c, 'v, 'w) Pool" where
  "dispatchHook fn p =
     (case hooks p of
        None \<Rightarrow> p
      | Some h \<Rightarrow>
          (case fn h (world p) of
             (Ret _, w) \<Rightarrow> p\<lparr>world := w\<rparr>
           | (Panic v, w) \<Rightarrow> p\<lparr>world := w, poolLog := poolLog p @ [HookDispatchPanicked v]\<rparr>))"

definition handlePanic ::
  "('f, 'b, 'c) Task option \<Rightarrow> 'v \<Rightarrow> ('f, 'b, 'c, 'v, 'w) Pool \<Rightarrow> ('f, 'b, 'c, 'v, 'w) Pool" where
  "handlePanic task recovered p =
     (case panicHandler (config p) of
        None \<Rightarrow> p\<lparr>poolLog := poolLog p @ [WorkerPanic recovered]\<rparr>
      | Some handler \<Rightarrow>
          (case handler task recovered (world p) of
             (Ret _, w) \<Rightarrow> p\<lparr>world := w\<rparr>
           | (Panic v, w) \<Rightarrow> p\<lparr>world := w, poolLog := poolLog p @ [PanicHandlerPanicked v]\<rparr>))"

text \<open>
  The context a hook sees: that of a \<^verbatim>\<open>contextTask\<close>, else the background context. A nil
  \<^verbatim>\<open>*contextTask\<close>, whose context cannot be read, is a panic in the callers
  \<^verbatim>\<open>submit\<close> and \<^verbatim>\<open>runTask\<close>, before they use this context.
\<close>

definition hook_ctx :: "('f, 'b, 'c, 'v, 'w) task_env \<Rightarrow> ('f, 'b, 'c) Task \<Rightarrow> 'c" where
  "hook_ctx env task =
     (case task of ContextTask (Some (ctx, _)) \<Rightarrow> ctx | _ \<Rightarrow> Background env)"

definition dispatchTaskEnqueuedFor ::
  "('f, 'b, 'c, 'v, 'w) task_env \<Rightarrow> ('f, 'b, 'c) Task \<Rightarrow> ('f, 'b, 'c, 'v, 'w) Pool \<Rightarrow> ('f, 'b, 'c, 'v, 'w) Pool" where
  "dispatchTaskEnqueuedFor env task p = dispatchHook (\<lambda>h. iTaskEnqueued h (hook_ctx env task)) p"

section \<open>Pending tasks\<close>

definition pool_addPending :: "('f, 'b, 'c, 'v, 'w) Pool \<Rightarrow> ('f, 'b, 'c, 'v, 'w) Pool" where
  "pool_addPending p = p\<lparr>pendingTasks := pendingTasks p + 1\<rparr>"

definition pool_done :: "('f, 'b, 'c, 'v, 'w) Pool \<Rightarrow> ('f, 'b, 'c, 'v, 'w) Pool" where
  "pool_done p =
     (let p1 = p\<lparr>pendingTasks := pendingTasks p - 1\<rparr> in
      if pendingTasks p1 \<noteq> 0 then p1
      else if drainCh p1 then p1\<lparr>drainCh := False, drainSignals := drainSignals p1 + 1\<rparr>
      else p1)"

text \<open>\<^verbatim>\<open>Wait\<close> up to its receive; the result says whether it has to wait.\<close>

definition pool_Wait :: "('f, 'b, 'c, 'v, 'w) Pool \<Rightarrow> bool \<times> ('f, 'b, 'c, 'v, 'w) Pool" where
  "pool_Wait p = (if pendingTasks p = 0 then (False, p) else (True, p\<lparr>drainCh := True\<rparr>))"

section \<open>Workers\<close>

text \<open>
  \<^verbatim>\<open>workerPool.Get()\<close>: nothing is ever put back into \<^verbatim>\<open>workerPool\<close>, so it always
  calls \<^verbatim>\<open>New\<close>, which counts the allocation; the count names the new worker.
\<close>

definition workerPool_Get :: "('f, 'b, 'c, 'v, 'w) Pool \<Rightarrow> worker \<times> ('f, 'b, 'c, 'v, 'w) Pool" where
  "workerPool_Get p =
     (\<lparr>wid = nat (workerCreateCount p), lastActiveAt = 0, cursor = 0\<rparr>,
      p\<lparr>workerCreateCount := workerCreateCount p + 1\<rparr>)"

definition startWorker :: "worker \<Rightarrow> ('f, 'b, 'c, 'v, 'w) Pool \<Rightarrow> ('f, 'b, 'c, 'v, 'w) Pool" where
  "startWorker w p =
     (let seq = workerSeq p + 1
      in p\<lparr>workerSeq := seq, started := started p @ [w\<lparr>cursor := seq AND shardMask p\<rparr>]\<rparr>)"

definition addToIdle :: "int \<Rightarrow> nat option \<Rightarrow> worker \<Rightarrow> ('f, 'b, 'c, 'v, 'w) Pool \<Rightarrow> ('f, 'b, 'c, 'v, 'w) Pool option" where
  "addToIdle priority pick w p =
     map_option (\<lambda>c. p\<lparr>idleWorks := c\<rparr>) (idle_Add priority pick w (idleWorks p))"

definition addRunningWorkersNum :: "int \<Rightarrow> ('f, 'b, 'c, 'v, 'w) Pool \<Rightarrow> ('f, 'b, 'c, 'v, 'w) Pool" where
  "addRunningWorkersNum n p = p\<lparr>runningWorkersNum := runningWorkersNum p + n\<rparr>"

text \<open>One tick of \<^verbatim>\<open>expiredWorkerCleaner\<close>.\<close>

definition expiredWorkerCleaner :: "time \<Rightarrow> ('f, 'b, 'c, 'v, 'w) Pool \<Rightarrow> ('f, 'b, 'c, 'v, 'w) Pool option" where
  "expiredWorkerCleaner now p =
     (if closePoolCn p then Some p
      else map_option (\<lambda>(_, c). p\<lparr>idleWorks := c\<rparr>) (idle_RemoveExpired now Second (idleWorks p)))"

section \<open>Submission\<close>

definition cold_start :: "('f, 'b, 'c, 'v, 'w) Pool \<Rightarrow> ('f, 'b, 'c, 'v, 'w) Pool" where
  "cold_start p =
     (if runningWorkersNum p = 0 then
        (let (w, p1) = workerPool_Get (p\<lparr>runningWorkersNum := 1\<rparr>) in startWorker w p1)
      else p)"

text \<open>A non-blocking send to the next shard, on the cursor and the shards.\<close>

definition try_send ::
  "64 word \<Rightarrow> ('f, 'b, 'c) Task option \<Rightarrow> 64 word \<times> ('f, 'b, 'c) shards \<Rightarrow> bool \<times> 64 word \<times> ('f, 'b, 'c) shards" where
  "try_send msk t s =
     (case s of (seq0, qs) \<Rightarrow>
        let (i, seq) = nextShard msk seq0 in
        if chan_room (qs ! i) then (True, seq, qs[i := chan_send t (qs ! i)]) else (False, seq, qs))"

definition try_shard ::
  "('f, 'b, 'c) Task option \<Rightarrow> ('f, 'b, 'c, 'v, 'w) Pool \<Rightarrow> bool \<times> ('f, 'b, 'c, 'v, 'w) Pool" where
  "try_shard t p =
     (let (ok, seq, qs) = try_send (shardMask p) t (sendSeq p, taskQueues p)
      in (ok, p\<lparr>sendSeq := seq, taskQueues := qs\<rparr>))"

datatype submit_end = Accepted | Rejected | Waiting nat

text \<open>
  The last \<^verbatim>\<open>select\<close> of \<^verbatim>\<open>submit\<close>, on shard \<open>i\<close>: \<open>sel\<close> picks among the ready cases;
  with none ready the submitter waits.
\<close>

definition submit_select ::
  "('f, 'b, 'c, 'v, 'w) task_env \<Rightarrow> nat \<Rightarrow> 'c \<Rightarrow> ('f, 'b, 'c) Task \<Rightarrow> nat \<Rightarrow>
   ('f, 'b, 'c, 'v, 'w) Pool \<Rightarrow> submit_end \<times> ('f, 'b, 'c, 'v, 'w) Pool" where
  "submit_select env sel ctx task i p =
     (let ready = (if chan_room (taskQueues p ! i) then [0::nat] else []) @
                  (if ctxErr env ctx (world p) then [1] else []) @ (if closePoolCn p then [2] else [])
      in if ready = [] then (Waiting i, p)
         else if ready ! (sel mod length ready) = 0 then
           (Accepted,
            dispatchTaskEnqueuedFor env task
              (p\<lparr>taskQueues := (taskQueues p)[i := chan_send (Some task) (taskQueues p ! i)]\<rparr>))
         else (Rejected, pool_done p))"

definition submit_buffer ::
  "('f, 'b, 'c, 'v, 'w) task_env \<Rightarrow> nat option \<Rightarrow> nat \<Rightarrow> 'c \<Rightarrow> ('f, 'b, 'c) Task \<Rightarrow>
   ('f, 'b, 'c, 'v, 'w) Pool \<Rightarrow> (submit_end \<times> ('f, 'b, 'c, 'v, 'w) Pool) option" where
  "submit_buffer env pick sel ctx task p =
     (case PushAndForward pick (Some task) (try_send (shardMask p)) (taskBuf p, sendSeq p, taskQueues p) of
        None \<Rightarrow> None
      | Some (result, b, seq, qs) \<Rightarrow>
          (let p1 = p\<lparr>taskBuf := b, sendSeq := seq, taskQueues := qs\<rparr> in
           case result of
             taskBufferClosed \<Rightarrow> Some (Rejected, pool_done p1)
           | taskBufferFull \<Rightarrow>
               (let (i, seq') = nextShard (shardMask p1) (sendSeq p1)
                in Some (submit_select env sel ctx task i (p1\<lparr>sendSeq := seq'\<rparr>)))
           | taskBufferAccepted \<Rightarrow> Some (Accepted, dispatchTaskEnqueuedFor env task p1)))"

definition submit_enter ::
  "('f, 'b, 'c, 'v, 'w) task_env \<Rightarrow> ('f, 'b, 'c) Task \<Rightarrow> ('f, 'b, 'c, 'v, 'w) Pool \<Rightarrow> ('f, 'b, 'c, 'v, 'w) Pool" where
  "submit_enter env task p =
     dispatchHook (\<lambda>h. iTaskSubmitted h (hook_ctx env task)) (cold_start (p\<lparr>submitCount := submitCount p + 1\<rparr>))"

text \<open>\<^verbatim>\<open>submit\<close>; \<open>None\<close> is a panic: the context of a nil \<^verbatim>\<open>*contextTask\<close> is read.\<close>

definition submit ::
  "('f, 'b, 'c, 'v, 'w) task_env \<Rightarrow> nat option \<Rightarrow> nat \<Rightarrow> 'c \<Rightarrow> ('f, 'b, 'c) Task \<Rightarrow>
   ('f, 'b, 'c, 'v, 'w) Pool \<Rightarrow> (submit_end \<times> ('f, 'b, 'c, 'v, 'w) Pool) option" where
  "submit env pick sel ctx task p =
     (let p1 = pool_addPending p in
      if closed p1 then Some (Rejected, pool_done p1)
      else if task = ContextTask None then None
      else
        (let p2 = submit_enter env task p1; (ok, p3) = try_shard (Some task) p2 in
         if workMode (config p2) = NONBLOCK then
           (if ok then Some (Accepted, dispatchTaskEnqueuedFor env task p3) else Some (Rejected, pool_done p3))
         else if ok then Some (Accepted, dispatchTaskEnqueuedFor env task p3)
         else submit_buffer env pick sel ctx task p3))"

text \<open>The exported entry points; a nil task is ignored.\<close>

definition Submit ::
  "('f, 'b, 'c, 'v, 'w) task_env \<Rightarrow> nat option \<Rightarrow> nat \<Rightarrow> ('f, 'b, 'c) Task option \<Rightarrow>
   ('f, 'b, 'c, 'v, 'w) Pool \<Rightarrow> (submit_end \<times> ('f, 'b, 'c, 'v, 'w) Pool) option" where
  "Submit env pick sel task p =
     (if isNilTask task then Some (Rejected, p) else submit env pick sel (Background env) (the task) p)"

definition TrySubmit ::
  "('f, 'b, 'c, 'v, 'w) task_env \<Rightarrow> nat option \<Rightarrow> nat \<Rightarrow> ('f, 'b, 'c) Task option \<Rightarrow>
   ('f, 'b, 'c, 'v, 'w) Pool \<Rightarrow> (bool option \<times> ('f, 'b, 'c, 'v, 'w) Pool) option" where
  "TrySubmit env pick sel task p =
     (if isNilTask task then Some (Some False, p)
      else map_option
             (\<lambda>(r, p'). (case r of Accepted \<Rightarrow> Some True | Rejected \<Rightarrow> Some False | Waiting _ \<Rightarrow> None, p'))
             (submit env pick sel (Background env) (the task) p))"

definition SubmitCtx ::
  "('f, 'b, 'c, 'v, 'w) task_env \<Rightarrow> nat option \<Rightarrow> nat \<Rightarrow> 'c option \<Rightarrow> ('f, 'b, 'c) Task option \<Rightarrow>
   ('f, 'b, 'c, 'v, 'w) Pool \<Rightarrow> (submit_end \<times> ('f, 'b, 'c, 'v, 'w) Pool) option" where
  "SubmitCtx env pick sel ctx task p =
     (if isNilTask task then Some (Rejected, p)
      else
        (let c = (case ctx of None \<Rightarrow> Background env | Some c \<Rightarrow> c) in
         if ctxErr env c (world p) then Some (Rejected, p)
         else submit env pick sel c (ContextTask (Some (c, task))) p))"

text \<open>\<^verbatim>\<open>SubmitBefore\<close>; \<open>deadline\<close> is the context that \<^verbatim>\<open>context.WithTimeout\<close> returns.\<close>

definition SubmitBefore ::
  "('f, 'b, 'c, 'v, 'w) task_env \<Rightarrow> nat option \<Rightarrow> nat \<Rightarrow> 'c \<Rightarrow> ('f, 'b, 'c) Task option \<Rightarrow>
   ('f, 'b, 'c, 'v, 'w) Pool \<Rightarrow> (submit_end \<times> ('f, 'b, 'c, 'v, 'w) Pool) option" where
  "SubmitBefore env pick sel deadline task p =
     (if isNilTask task then Some (Rejected, p)
      else
        map_option
          (\<lambda>(r, p'). (r, if r = Rejected then p'\<lparr>world := ctxCancel env deadline (world p')\<rparr> else p'))
          (submit env pick sel deadline (BeforeTask deadline (the task)) p))"

section \<open>Close and the getters\<close>

definition Close :: "('f, 'b, 'c, 'v, 'w) Pool \<Rightarrow> ('f, 'b, 'c, 'v, 'w) Pool" where
  "Close p =
     (if closed p then p
      else dispatchHook iPoolClosed (p\<lparr>closed := True, taskBuf := buffer_Close (taskBuf p), closePoolCn := True\<rparr>))"

definition GetRunningWorkersNum :: "('f, 'b, 'c, 'v, 'w) Pool \<Rightarrow> int" where
  "GetRunningWorkersNum p = runningWorkersNum p"

definition GetWorkerCreateCount :: "('f, 'b, 'c, 'v, 'w) Pool \<Rightarrow> int" where
  "GetWorkerCreateCount p = workerCreateCount p"

definition GetTaskQueueLen :: "('f, 'b, 'c, 'v, 'w) Pool \<Rightarrow> int" where
  "GetTaskQueueLen p = int (sum_list (map (\<lambda>q. length (chanItems q)) (taskQueues p)))"

definition GetTaskQueueCapacity :: "('f, 'b, 'c, 'v, 'w) Pool \<Rightarrow> int" where
  "GetTaskQueueCapacity p = queueSize p"

definition GetIdleWorkerCount :: "('f, 'b, 'c, 'v, 'w) Pool \<Rightarrow> int" where
  "GetIdleWorkerCount p = idle_Len (idleWorks p)"

definition GetCapacity :: "('f, 'b, 'c, 'v, 'w) Pool \<Rightarrow> int" where
  "GetCapacity p = capacity p"

definition queuedTasks :: "('f, 'b, 'c, 'v, 'w) Pool \<Rightarrow> int" where
  "queuedTasks p = GetTaskQueueLen p + buffer_Len (taskBuf p)"

section \<open>What the operations leave alone\<close>

lemma dispatchHook_simps [simp]:
  shows "taskQueues (dispatchHook fn p) = taskQueues p"
  and "shardMask (dispatchHook fn p) = shardMask p"
  and "sendSeq (dispatchHook fn p) = sendSeq p"
  and "workerSeq (dispatchHook fn p) = workerSeq p"
  and "queueSize (dispatchHook fn p) = queueSize p"
  and "closePoolCn (dispatchHook fn p) = closePoolCn p"
  and "capacity (dispatchHook fn p) = capacity p"
  and "runningWorkersNum (dispatchHook fn p) = runningWorkersNum p"
  and "closed (dispatchHook fn p) = closed p"
  and "idleWorks (dispatchHook fn p) = idleWorks p"
  and "config (dispatchHook fn p) = config p"
  and "drainCh (dispatchHook fn p) = drainCh p"
  and "drainSignals (dispatchHook fn p) = drainSignals p"
  and "workerCreateCount (dispatchHook fn p) = workerCreateCount p"
  and "taskBuf (dispatchHook fn p) = taskBuf p"
  and "pendingTasks (dispatchHook fn p) = pendingTasks p"
  and "submitCount (dispatchHook fn p) = submitCount p"
  and "consumeCount (dispatchHook fn p) = consumeCount p"
  and "exitCount (dispatchHook fn p) = exitCount p"
  and "submitHist (dispatchHook fn p) = submitHist p"
  and "consumeHist (dispatchHook fn p) = consumeHist p"
  and "exitHist (dispatchHook fn p) = exitHist p"
  and "lastZeroConsumeScale (dispatchHook fn p) = lastZeroConsumeScale p"
  and "hooks (dispatchHook fn p) = hooks p"
  and "started (dispatchHook fn p) = started p"
  by (auto simp: dispatchHook_def split: option.splits prod.splits outcome.splits)

lemma pool_done_simps [simp]:
  shows "taskQueues (pool_done p) = taskQueues p"
  and "shardMask (pool_done p) = shardMask p"
  and "sendSeq (pool_done p) = sendSeq p"
  and "workerSeq (pool_done p) = workerSeq p"
  and "queueSize (pool_done p) = queueSize p"
  and "closePoolCn (pool_done p) = closePoolCn p"
  and "capacity (pool_done p) = capacity p"
  and "runningWorkersNum (pool_done p) = runningWorkersNum p"
  and "closed (pool_done p) = closed p"
  and "idleWorks (pool_done p) = idleWorks p"
  and "config (pool_done p) = config p"
  and "workerCreateCount (pool_done p) = workerCreateCount p"
  and "taskBuf (pool_done p) = taskBuf p"
  and "submitCount (pool_done p) = submitCount p"
  and "consumeCount (pool_done p) = consumeCount p"
  and "exitCount (pool_done p) = exitCount p"
  and "submitHist (pool_done p) = submitHist p"
  and "consumeHist (pool_done p) = consumeHist p"
  and "exitHist (pool_done p) = exitHist p"
  and "lastZeroConsumeScale (pool_done p) = lastZeroConsumeScale p"
  and "hooks (pool_done p) = hooks p"
  and "started (pool_done p) = started p"
  and "poolLog (pool_done p) = poolLog p"
  and "world (pool_done p) = world p"
  by (simp_all add: pool_done_def Let_def)

lemma cold_start_simps [simp]:
  shows "taskQueues (cold_start p) = taskQueues p"
  and "shardMask (cold_start p) = shardMask p"
  and "sendSeq (cold_start p) = sendSeq p"
  and "queueSize (cold_start p) = queueSize p"
  and "closePoolCn (cold_start p) = closePoolCn p"
  and "capacity (cold_start p) = capacity p"
  and "closed (cold_start p) = closed p"
  and "idleWorks (cold_start p) = idleWorks p"
  and "config (cold_start p) = config p"
  and "drainCh (cold_start p) = drainCh p"
  and "drainSignals (cold_start p) = drainSignals p"
  and "taskBuf (cold_start p) = taskBuf p"
  and "pendingTasks (cold_start p) = pendingTasks p"
  and "submitCount (cold_start p) = submitCount p"
  and "consumeCount (cold_start p) = consumeCount p"
  and "exitCount (cold_start p) = exitCount p"
  and "submitHist (cold_start p) = submitHist p"
  and "consumeHist (cold_start p) = consumeHist p"
  and "exitHist (cold_start p) = exitHist p"
  and "lastZeroConsumeScale (cold_start p) = lastZeroConsumeScale p"
  and "hooks (cold_start p) = hooks p"
  and "poolLog (cold_start p) = poolLog p"
  and "world (cold_start p) = world p"
  by (simp_all add: cold_start_def workerPool_Get_def startWorker_def Let_def)

lemma pool_done_pending [simp]: "pendingTasks (pool_done p) = pendingTasks p - 1"
  by (simp add: pool_done_def Let_def)

lemma dispatchTaskEnqueuedFor_dispatch: "\<exists>fn. dispatchTaskEnqueuedFor env task = dispatchHook fn"
  by (auto simp: dispatchTaskEnqueuedFor_def fun_eq_iff)

text \<open>The parts that only construction and the sampler write, and the workers launched.\<close>

definition static ::
  "('f, 'b, 'c, 'v, 'w) Pool \<Rightarrow> int \<times> ('f, 'b, 'c, 'v, 'w) PanicHandler Config \<times> histogram \<times> histogram \<times> histogram" where
  "static p = (capacity p, config p, submitHist p, consumeHist p, exitHist p)"

definition crew :: "('f, 'b, 'c, 'v, 'w) Pool \<Rightarrow> int \<times> worker list" where
  "crew p = (runningWorkersNum p, started p)"

lemma static_simps [simp]:
  "static (dispatchHook fn p) = static p" "static (pool_done p) = static p" "static (cold_start p) = static p"
  "static (dispatchTaskEnqueuedFor env task p) = static p"
  by (simp_all add: static_def dispatchTaskEnqueuedFor_def)

lemma crew_simps [simp]:
  "crew (dispatchHook fn p) = crew p" "crew (pool_done p) = crew p"
  "crew (dispatchTaskEnqueuedFor env task p) = crew p"
  by (simp_all add: crew_def dispatchTaskEnqueuedFor_def)

section \<open>The tasks a pool holds\<close>

definition shards_mset :: "'a chan list \<Rightarrow> 'a multiset" where
  "shards_mset qs = sum_list (map (\<lambda>q. mset (chanItems q)) qs)"

lemma sum_list_map_update:
  fixes f :: "'a \<Rightarrow> 'b::cancel_comm_monoid_add"
  shows "i < length qs \<Longrightarrow> sum_list (map f (qs[i := q])) + f (qs ! i) = sum_list (map f qs) + f q"
proof (induction qs arbitrary: i)
  case (Cons a qs)
  then show ?case by (cases i) (auto simp: ac_simps)
qed simp

lemma shards_mset_send:
  assumes "i < length qs"
  shows "shards_mset (qs[i := chan_send t (qs ! i)]) = add_mset t (shards_mset qs)"
  using sum_list_map_update [OF assms, of "\<lambda>q. mset (chanItems q)" "chan_send t (qs ! i)"]
  by (simp add: shards_mset_def chan_send_def)

text \<open>
  The invariant: \<open>2^m\<close> shards within their capacity, the mask that belongs to them, an
  overflow buffer that represents the queue \<open>xs\<close>, a sound idle container, and the three
  places that record the closing of the pool in agreement.
\<close>

definition shards_ok :: "nat \<Rightarrow> 64 word \<Rightarrow> 'a chan list \<Rightarrow> bool" where
  "shards_ok m msk qs \<longleftrightarrow>
     m \<le> 62 \<and> length qs = 2 ^ m \<and> msk = shard_mask (2 ^ m) \<and> (\<forall>q\<in>set qs. chan_ok q)"

definition pool_inv :: "nat \<Rightarrow> ('f, 'b, 'c) Task option list \<Rightarrow> ('f, 'b, 'c, 'v, 'w) Pool \<Rightarrow> bool" where
  "pool_inv m xs p \<longleftrightarrow>
     shards_ok m (shardMask p) (taskQueues p) \<and> buf_rep (taskBuf p) xs \<and> idle_invar (idleWorks p) \<and>
     closePoolCn p = closed p \<and> overflowClosed (taskBuf p) = closed p"

definition held :: "('f, 'b, 'c) Task option list \<Rightarrow> ('f, 'b, 'c, 'v, 'w) Pool \<Rightarrow> ('f, 'b, 'c) Task option multiset" where
  "held xs p = shards_mset (taskQueues p) + mset xs"

lemma shards_ok_send:
  assumes "shards_ok m msk qs" and "i < 2 ^ m" and "chan_room (qs ! i)"
  shows "shards_ok m msk (qs[i := chan_send t (qs ! i)])"
  using assms chan_send_ok [OF assms(3)] set_update_subset_insert [of qs i] by (fastforce simp: shards_ok_def)

lemma try_send_ok:
  assumes "shards_ok m msk qs" and "try_send msk t (seq, qs) = (ok, seq', qs')"
  shows "shards_ok m msk qs' \<and> shards_mset qs' = (if ok then add_mset t (shards_mset qs) else shards_mset qs)"
proof -
  obtain i s where n: "nextShard msk seq = (i, s)" by fastforce
  then have i: "i < 2 ^ m" using nextShard_range [of m seq] assms(1) by (simp add: shards_ok_def)
  then have "i < length qs" using assms(1) by (simp add: shards_ok_def)
  then show ?thesis
    using assms n i shards_ok_send [OF assms(1) i] shards_mset_send [of i qs t]
    by (auto simp: try_send_def split: if_splits)
qed

lemma size_shards_mset: "size (shards_mset qs) = sum_list (map (\<lambda>q. length (chanItems q)) qs)"
  by (induction qs) (simp_all add: shards_mset_def)

lemma queuedTasks_held:
  assumes "pool_inv m xs p"
  shows "queuedTasks p = int (size (held xs p))"
proof -
  have "chunkLen (taskBuf p) = int (length xs)" using assms buf_rep_len by (auto simp: pool_inv_def)
  then show ?thesis
    by (simp add: queuedTasks_def GetTaskQueueLen_def buffer_Len_def held_def size_shards_mset)
qed

end
