(* ===== verification/Submission.thy ===== *)
theory Submission
  imports Pool
begin

text \<open>
  What a submission does to the pool: on every path of \<^verbatim>\<open>submit\<close> the invariant is kept,
  the task is held exactly once if it is accepted and not at all otherwise, the pending
  count says which, and the hooks see each submission and each acceptance once.
\<close>

section \<open>The invariant and the simple updates\<close>

lemma pool_inv_dispatchHook [simp]: "pool_inv m xs (dispatchHook fn p) \<longleftrightarrow> pool_inv m xs p"
  by (simp add: pool_inv_def)

lemma pool_inv_enqueued [simp]: "pool_inv m xs (dispatchTaskEnqueuedFor env task p) \<longleftrightarrow> pool_inv m xs p"
  by (simp add: dispatchTaskEnqueuedFor_def)

lemma pool_inv_done [simp]: "pool_inv m xs (pool_done p) \<longleftrightarrow> pool_inv m xs p"
  by (simp add: pool_inv_def)

lemma held_simps [simp]:
  "held xs (dispatchHook fn p) = held xs p" "held xs (dispatchTaskEnqueuedFor env task p) = held xs p"
  "held xs (pool_done p) = held xs p"
  by (simp_all add: held_def dispatchTaskEnqueuedFor_def)

lemma pending_enqueued [simp]: "pendingTasks (dispatchTaskEnqueuedFor env task p) = pendingTasks p"
  by (simp add: dispatchTaskEnqueuedFor_def)

lemma submit_enter_frame:
  "taskQueues (submit_enter env task p) = taskQueues p" "shardMask (submit_enter env task p) = shardMask p"
  "taskBuf (submit_enter env task p) = taskBuf p" "idleWorks (submit_enter env task p) = idleWorks p"
  "closed (submit_enter env task p) = closed p" "closePoolCn (submit_enter env task p) = closePoolCn p"
  "pendingTasks (submit_enter env task p) = pendingTasks p" "config (submit_enter env task p) = config p"
  "sendSeq (submit_enter env task p) = sendSeq p" "hooks (submit_enter env task p) = hooks p"
  by (simp_all add: submit_enter_def)

section \<open>The outcome of each part\<close>

definition gained :: "submit_end \<Rightarrow> ('f, 'b, 'c) Task \<Rightarrow> ('f, 'b, 'c) Task option multiset" where
  "gained r task = (if r = Accepted then {#Some task#} else {#})"

definition submit_post ::
  "nat \<Rightarrow> ('f, 'b, 'c) Task option list \<Rightarrow> ('f, 'b, 'c) Task \<Rightarrow> ('f, 'b, 'c, 'v, 'w) Pool \<Rightarrow>
   submit_end \<Rightarrow> ('f, 'b, 'c, 'v, 'w) Pool \<Rightarrow> bool" where
  "submit_post m xs task p r p' \<longleftrightarrow>
     (\<exists>xs'. pool_inv m xs' p' \<and> held xs' p' = held xs p + gained r task) \<and>
     pendingTasks p' = pendingTasks p - (if r = Rejected then 1 else 0)"

lemma submit_postI:
  assumes "pool_inv m xs' p'" and "held xs' p' = held xs p + gained r task"
    and "pendingTasks p' = pendingTasks p - (if r = Rejected then 1 else 0)"
  shows "submit_post m xs task p r p'"
  using assms by (auto simp: submit_post_def)

lemma submit_select_cases:
  assumes "submit_select env sel ctx task i p = (r, p')"
  obtains (waiting) "r = Waiting i" "p' = p"
    | (accepted) "chan_room (taskQueues p ! i)" "r = Accepted"
        "p' = dispatchTaskEnqueuedFor env task (p\<lparr>taskQueues := (taskQueues p)[i := chan_send (Some task) (taskQueues p ! i)]\<rparr>)"
    | (rejected) "ctxErr env ctx (world p) \<or> closePoolCn p" "r = Rejected" "p' = pool_done p"
proof -
  define ready where "ready = (if chan_room (taskQueues p ! i) then [0::nat] else []) @
      (if ctxErr env ctx (world p) then [1] else []) @ (if closePoolCn p then [2] else [])"
  let ?k = "ready ! (sel mod length ready)"
  have sel: "(r, p') =
      (if ready = [] then (Waiting i, p)
       else if ?k = 0 then
         (Accepted, dispatchTaskEnqueuedFor env task (p\<lparr>taskQueues := (taskQueues p)[i := chan_send (Some task) (taskQueues p ! i)]\<rparr>))
       else (Rejected, pool_done p))"
    unfolding assms [symmetric] submit_select_def Let_def ready_def [symmetric] ..
  have mem: "ready \<noteq> [] \<Longrightarrow> ?k \<in> set ready" by (intro nth_mem) simp
  consider "ready = []" | "ready \<noteq> []" "?k = 0" | "ready \<noteq> []" "?k \<noteq> 0" by blast
  then show thesis
  proof cases
    case 1
    then show ?thesis using sel waiting by simp
  next
    case 2
    then have "chan_room (taskQueues p ! i)" using mem by (auto simp: ready_def split: if_splits)
    then show ?thesis using sel 2 accepted by simp
  next
    case 3
    then have "ctxErr env ctx (world p) \<or> closePoolCn p" using mem by (auto simp: ready_def split: if_splits)
    then show ?thesis using sel 3 rejected by simp
  qed
qed

lemma submit_select_post:
  assumes "pool_inv m xs p" and "i < 2 ^ m" and "submit_select env sel ctx task i p = (r, p')"
  shows "submit_post m xs task p r p'"
  using assms(3)
proof (cases rule: submit_select_cases)
  case accepted
  let ?q = "p\<lparr>taskQueues := (taskQueues p)[i := chan_send (Some task) (taskQueues p ! i)]\<rparr>"
  have s: "shards_ok m (shardMask p) (taskQueues p)" using assms(1) by (simp add: pool_inv_def)
  then have i: "i < length (taskQueues p)" using assms(2) by (simp add: shards_ok_def)
  have "pool_inv m xs ?q" "held xs ?q = held xs p + {#Some task#}"
    using assms(1) shards_ok_send [OF s assms(2) accepted(1), of "Some task"] shards_mset_send [OF i, of "Some task"]
    by (simp_all add: pool_inv_def held_def)
  then show ?thesis using accepted by (intro submit_postI [of m xs]) (simp_all add: gained_def)
qed (use assms(1) in \<open>simp_all add: gained_def submit_postI [of m xs]\<close>)

lemma submit_select_rejects:
  assumes "submit_select env sel ctx task i p = (Rejected, p')"
  shows "ctxErr env ctx (world p') \<or> closePoolCn p"
  using assms by (cases rule: submit_select_cases) auto

text \<open>
  In \<^verbatim>\<open>BLOCK\<close> mode an open pool refuses a task only because its context is done, and
  accepts it outright while the overflow buffer has room.
\<close>

definition block_promise :: "('f, 'b, 'c, 'v, 'w) task_env \<Rightarrow> 'c \<Rightarrow> int \<Rightarrow> submit_end \<Rightarrow> ('f, 'b, 'c, 'v, 'w) Pool \<Rightarrow> bool" where
  "block_promise env ctx len r p' \<longleftrightarrow>
     (r = Rejected \<longrightarrow> ctxErr env ctx (world p')) \<and> (len < maxChunkLen \<longrightarrow> r = Accepted)"

text \<open>The push to the overflow buffer, with the forwarding of its oldest task.\<close>

lemma push_ok:
  assumes s: "shards_ok m msk qs" and b: "buf_rep b xs"
  obtains r b' seq' qs' xs' where "PushAndForward pick t (try_send msk) (b, seq, qs) = Some (r, b', seq', qs')"
    and "buf_rep b' xs'" and "overflowClosed b' = overflowClosed b" and "shards_ok m msk qs'"
    and "shards_mset qs' + mset xs' = shards_mset qs + mset xs + (if r = taskBufferAccepted then {#t#} else {#})"
    and "overflowClosed b \<longleftrightarrow> r = taskBufferClosed" and "r = taskBufferFull \<longrightarrow> maxChunkLen \<le> int (length xs)"
proof -
  let ?fwd = "try_send msk"
  obtain r xs' seq' qs' where q: "queue_push t ?fwd (overflowClosed b) xs (seq, qs) = (r, xs', seq', qs')"
    by (metis prod_cases4)
  obtain b' where b': "PushAndForward pick t ?fwd (b, seq, qs) = Some (r, b', seq', qs')" "buf_rep b' xs'"
      "overflowClosed b' = overflowClosed b"
    using PushAndForward_ok [OF b q] by blast
  have "shards_ok m msk qs' \<and>
      shards_mset qs' + mset xs' = shards_mset qs + mset xs + (if r = taskBufferAccepted then {#t#} else {#}) \<and>
      (overflowClosed b \<longleftrightarrow> r = taskBufferClosed) \<and> (r = taskBufferFull \<longrightarrow> maxChunkLen \<le> int (length xs))"
  proof (cases "overflowClosed b \<or> maxChunkLen \<le> int (length xs)")
    case True
    then show ?thesis using q s by (auto split: if_splits)
  next
    case False
    obtain sent s1 q1 where f: "?fwd (hd (xs @ [t])) (seq, qs) = (sent, s1, q1)" by (metis prod_cases3)
    have e: "r = taskBufferAccepted" "qs' = q1" "xs' = (if sent then tl (xs @ [t]) else xs @ [t])"
      using q False f by (auto simp: Let_def)
    have "mset (xs @ [t]) = add_mset (hd (xs @ [t])) (mset (tl (xs @ [t])))" by (cases xs) auto
    then show ?thesis using try_send_ok [OF s f] False e by auto
  qed
  then show thesis using that b' by blast
qed

lemma submit_buffer_post:
  assumes inv: "pool_inv m xs p"
  shows "\<exists>r p'. submit_buffer env pick sel ctx task p = Some (r, p') \<and> submit_post m xs task p r p' \<and>
           (\<not> closed p \<longrightarrow> block_promise env ctx (int (length xs)) r p')"
proof -
  have s: "shards_ok m (shardMask p) (taskQueues p)" and b: "buf_rep (taskBuf p) xs"
    and cl: "overflowClosed (taskBuf p) = closed p"
    using inv by (simp_all add: pool_inv_def)
  obtain res b' seq qs xs' where
    b': "PushAndForward pick (Some task) (try_send (shardMask p)) (taskBuf p, sendSeq p, taskQueues p) = Some (res, b', seq, qs)"
      "buf_rep b' xs'" "overflowClosed b' = overflowClosed (taskBuf p)"
    and shards: "shards_ok m (shardMask p) qs"
      "shards_mset qs + mset xs' = shards_mset (taskQueues p) + mset xs + (if res = taskBufferAccepted then {#Some task#} else {#})"
      "overflowClosed (taskBuf p) \<longleftrightarrow> res = taskBufferClosed" "res = taskBufferFull \<longrightarrow> maxChunkLen \<le> int (length xs)"
    by (rule push_ok [OF s b])
  define p1 where "p1 = p\<lparr>taskBuf := b', sendSeq := seq, taskQueues := qs\<rparr>"
  have inv1: "pool_inv m xs' p1" using inv shards b' by (simp add: pool_inv_def p1_def)
  have h1: "held xs' p1 = held xs p + (if res = taskBufferAccepted then {#Some task#} else {#})"
    using shards by (simp add: held_def p1_def)
  have pend: "pendingTasks p1 = pendingTasks p" by (simp add: p1_def)
  show ?thesis
  proof (cases res)
    case taskBufferAccepted
    then have "submit_buffer env pick sel ctx task p = Some (Accepted, dispatchTaskEnqueuedFor env task p1)"
      using b'(1) by (simp add: submit_buffer_def p1_def Let_def)
    then show ?thesis
      using inv1 h1 pend shards taskBufferAccepted
      by (auto simp: gained_def block_promise_def intro!: submit_postI)
  next
    case taskBufferClosed
    then have "submit_buffer env pick sel ctx task p = Some (Rejected, pool_done p1)"
      using b'(1) by (simp add: submit_buffer_def p1_def Let_def)
    then show ?thesis
      using inv1 h1 pend shards cl taskBufferClosed by (auto simp: gained_def intro!: submit_postI)
  next
    case taskBufferFull
    obtain i seq' where n: "nextShard (shardMask p1) (sendSeq p1) = (i, seq')" by fastforce
    then have i: "i < 2 ^ m"
      using nextShard_range [of m "sendSeq p1"] s by (simp add: shards_ok_def p1_def)
    obtain r p' where r: "submit_select env sel ctx task i (p1\<lparr>sendSeq := seq'\<rparr>) = (r, p')" by fastforce
    have "submit_buffer env pick sel ctx task p = Some (r, p')"
      using b'(1) taskBufferFull n r by (simp add: submit_buffer_def p1_def Let_def)
    moreover have "submit_post m xs' task (p1\<lparr>sendSeq := seq'\<rparr>) r p'"
      by (rule submit_select_post [OF _ i r]) (use inv1 in \<open>simp add: pool_inv_def\<close>)
    then have "submit_post m xs task p r p'"
      using h1 pend taskBufferFull by (simp add: submit_post_def held_def)
    moreover have "\<not> closePoolCn p1" "maxChunkLen \<le> int (length xs)"
      using shards taskBufferFull inv by (simp_all add: p1_def pool_inv_def)
    then have "block_promise env ctx (int (length xs)) r p'"
      using submit_select_rejects [of env sel ctx task i "p1\<lparr>sendSeq := seq'\<rparr>" p'] r by (auto simp: block_promise_def)
    ultimately show ?thesis by blast
  qed
qed

lemma submit_closed:
  assumes "pool_inv m xs p" and "closed p"
  shows "submit env pick sel ctx task p = Some (Rejected, pool_done (pool_addPending p))"
    and "submit_post m xs task (pool_addPending p) Rejected (pool_done (pool_addPending p))"
  using assms by (auto simp: submit_def pool_addPending_def gained_def pool_inv_def held_def intro!: submit_postI)

text \<open>The first attempt of an open pool, on the shard whose turn it is.\<close>

lemma submit_first:
  assumes inv: "pool_inv m xs p"
  obtains ok p3 where "try_shard (Some task) (submit_enter env task (pool_addPending p)) = (ok, p3)"
    and "pool_inv m xs p3"
    and "held xs p3 = held xs p + (if ok then {#Some task#} else {#})"
    and "pendingTasks p3 = pendingTasks p + 1" and "closed p3 = closed p" and "taskBuf p3 = taskBuf p"
    and "ok \<longleftrightarrow> chan_room (taskQueues p ! fst (nextShard (shardMask p) (sendSeq p)))"
proof -
  define p2 where "p2 = submit_enter env task (pool_addPending p)"
  have eq: "taskQueues p2 = taskQueues p" "shardMask p2 = shardMask p" "sendSeq p2 = sendSeq p"
    "taskBuf p2 = taskBuf p" "pendingTasks p2 = pendingTasks p + 1" "closed p2 = closed p"
    by (simp_all add: p2_def submit_enter_frame pool_addPending_def)
  obtain ok seq qs where e: "try_send (shardMask p) (Some task) (sendSeq p, taskQueues p) = (ok, seq, qs)"
    by (metis prod_cases3)
  have inv2: "pool_inv m xs p2" using inv by (simp add: pool_inv_def p2_def submit_enter_frame pool_addPending_def)
  have "shards_ok m (shardMask p) (taskQueues p)" using inv by (simp add: pool_inv_def)
  from try_send_ok [OF this e] have "shards_ok m (shardMask p) qs"
    and "shards_mset qs = (if ok then add_mset (Some task) (shards_mset (taskQueues p)) else shards_mset (taskQueues p))"
    by auto
  moreover have "ok \<longleftrightarrow> chan_room (taskQueues p ! fst (nextShard (shardMask p) (sendSeq p)))"
    using e by (auto simp: try_send_def split: prod.splits if_splits)
  ultimately show thesis
    using e eq inv2 by (intro that [of ok "p2\<lparr>sendSeq := seq, taskQueues := qs\<rparr>"])
      (simp_all add: try_shard_def pool_inv_def held_def flip: p2_def)
qed

lemma submit_ok:
  assumes inv: "pool_inv m xs p" and task: "\<not> isNilTask (Some task)"
  shows "\<exists>r p'. submit env pick sel ctx task p = Some (r, p') \<and> submit_post m xs task (pool_addPending p) r p' \<and>
           (closed p \<longrightarrow> r = Rejected) \<and>
           (\<not> closed p \<and> workMode (config p) = BLOCK \<longrightarrow> block_promise env ctx (int (length xs)) r p') \<and>
           (\<not> closed p \<and> workMode (config p) = NONBLOCK \<longrightarrow>
              r = (if chan_room (taskQueues p ! fst (nextShard (shardMask p) (sendSeq p))) then Accepted else Rejected) \<and>
              taskBuf p' = taskBuf p)"
proof (cases "closed p")
  case True
  then show ?thesis using submit_closed [OF inv] by blast
next
  case False
  let ?p2 = "submit_enter env task (pool_addPending p)"
  obtain ok p3 where t: "try_shard (Some task) ?p2 = (ok, p3)" and inv3: "pool_inv m xs p3"
    and h: "held xs p3 = held xs p + (if ok then {#Some task#} else {#})"
    and st: "pendingTasks p3 = pendingTasks p + 1" "closed p3 = closed p" "taskBuf p3 = taskBuf p"
    and ok: "ok \<longleftrightarrow> chan_room (taskQueues p ! fst (nextShard (shardMask p) (sendSeq p)))"
    by (rule submit_first [OF inv])
  have nil: "task \<noteq> ContextTask None" using task by auto
  have sub: "submit env pick sel ctx task p =
      (if ok then Some (Accepted, dispatchTaskEnqueuedFor env task p3)
       else if workMode (config p) = NONBLOCK then Some (Rejected, pool_done p3)
       else submit_buffer env pick sel ctx task p3)"
    using False t nil by (simp add: submit_def Let_def submit_enter_frame) (simp add: pool_addPending_def)
  have hp: "held xs (pool_addPending p) = held xs p" "pendingTasks (pool_addPending p) = pendingTasks p + 1"
    by (simp_all add: held_def pool_addPending_def)
  consider "ok" | "\<not> ok" "workMode (config p) = NONBLOCK" | "\<not> ok" "workMode (config p) = BLOCK"
    by (cases "workMode (config p)") auto
  then show ?thesis
  proof cases
    case 1
    then have "submit_post m xs task (pool_addPending p) Accepted (dispatchTaskEnqueuedFor env task p3)"
      using inv3 h st hp by (intro submit_postI) (auto simp: gained_def)
    then show ?thesis using sub 1 False ok st by (auto simp: block_promise_def dispatchTaskEnqueuedFor_def)
  next
    case 2
    then have "submit_post m xs task (pool_addPending p) Rejected (pool_done p3)"
      using inv3 h st hp by (intro submit_postI) (auto simp: gained_def)
    then show ?thesis using sub 2 False ok st by auto
  next
    case 3
    obtain r p' where "submit_buffer env pick sel ctx task p3 = Some (r, p')" "submit_post m xs task p3 r p'"
      "block_promise env ctx (int (length xs)) r p'"
      using submit_buffer_post [OF inv3] False st by blast
    moreover from this(2) have "submit_post m xs task (pool_addPending p) r p'"
      using h st hp 3 by (simp add: submit_post_def)
    ultimately show ?thesis using sub 3 False by auto
  qed
qed

section \<open>Observing the hooks\<close>

text \<open>
  A hook implementation that records every dispatch in the first component of the world
  and panics whenever \<open>faulty\<close> says so.
\<close>

datatype ('c, 'v) hook_event = Submitted 'c | Enqueued 'c | Started 'c | Completed 'c "'v option" | PoolClosed

definition observe ::
  "(('c, 'v) hook_event \<Rightarrow> 'v option) \<Rightarrow> ('c, 'v) hook_event \<Rightarrow>
   ('c, 'v) hook_event list \<times> 's \<Rightarrow> (unit, 'v) outcome \<times> ('c, 'v) hook_event list \<times> 's" where
  "observe faulty e w =
     (case faulty e of None \<Rightarrow> Ret () | Some v \<Rightarrow> Panic v, fst w @ [e], snd w)"

definition observer ::
  "(('c, 'v) hook_event \<Rightarrow> 'v option) \<Rightarrow> ('c, 'v, ('c, 'v) hook_event list \<times> 's) hooks_iface" where
  "observer faulty =
     \<lparr>iTaskSubmitted = \<lambda>c. observe faulty (Submitted c), iTaskEnqueued = \<lambda>c. observe faulty (Enqueued c),
      iTaskStarted = \<lambda>c. observe faulty (Started c),
      iTaskCompleted = \<lambda>c r. observe faulty (Completed c r), iPoolClosed = observe faulty PoolClosed\<rparr>"

lemma observer_simps [simp]:
  "iTaskSubmitted (observer faulty) c = observe faulty (Submitted c)"
  "iTaskEnqueued (observer faulty) c = observe faulty (Enqueued c)"
  "iTaskStarted (observer faulty) c = observe faulty (Started c)"
  "iTaskCompleted (observer faulty) c r = observe faulty (Completed c r)"
  "iPoolClosed (observer faulty) = observe faulty PoolClosed"
  by (simp_all add: observer_def)

lemma dispatchHook_observer:
  assumes "hooks p = Some (observer faulty)" and "\<And>w. fn (observer faulty) w = observe faulty e w"
  shows "world (dispatchHook fn p) = (fst (world p) @ [e], snd (world p))"
  using assms by (simp add: dispatchHook_def observe_def split: option.splits)

lemma enqueued_observer:
  assumes "hooks p = Some (observer faulty)"
  shows "world (dispatchTaskEnqueuedFor env task p) =
           (fst (world p) @ [Enqueued (hook_ctx env task)], snd (world p))"
  unfolding dispatchTaskEnqueuedFor_def by (rule dispatchHook_observer [OF assms]) simp

definition enqueued_events :: "submit_end \<Rightarrow> 'c \<Rightarrow> ('c, 'v) hook_event list" where
  "enqueued_events r c = (if r = Accepted then [Enqueued c] else [])"

definition add_events :: "('c, 'v) hook_event list \<Rightarrow> ('c, 'v) hook_event list \<times> 's \<Rightarrow> ('c, 'v) hook_event list \<times> 's" where
  "add_events es w = (fst w @ es, snd w)"

lemma submit_select_events:
  assumes "hooks p = Some (observer faulty)" and "submit_select env sel ctx task i p = (r, p')"
  shows "world p' = add_events (enqueued_events r (hook_ctx env task)) (world p)"
  using assms(2)
proof (cases rule: submit_select_cases)
  case accepted
  then show ?thesis
    using assms(1) by (simp add: enqueued_observer [where faulty = faulty] add_events_def enqueued_events_def)
qed (simp_all add: add_events_def enqueued_events_def)

lemma submit_buffer_events:
  assumes "hooks p = Some (observer faulty)" and "submit_buffer env pick sel ctx task p = Some (r, p')"
  shows "world p' = add_events (enqueued_events r (hook_ctx env task)) (world p)"
proof -
  obtain result b seq qs where f:
    "PushAndForward pick (Some task) (try_send (shardMask p)) (taskBuf p, sendSeq p, taskQueues p) = Some (result, b, seq, qs)"
    using assms(2) by (auto simp: submit_buffer_def split: option.splits)
  define p1 where "p1 = p\<lparr>taskBuf := b, sendSeq := seq, taskQueues := qs\<rparr>"
  have p1: "hooks p1 = Some (observer faulty)" "world p1 = world p" using assms(1) by (simp_all add: p1_def)
  show ?thesis
  proof (cases result)
    case taskBufferAccepted
    then have "r = Accepted" "p' = dispatchTaskEnqueuedFor env task p1"
      using assms(2) f by (simp_all add: submit_buffer_def p1_def)
    then show ?thesis using p1 by (simp add: enqueued_observer [OF p1(1)] enqueued_events_def add_events_def)
  next
    case taskBufferClosed
    then have "r = Rejected" "p' = pool_done p1" using assms(2) f by (simp_all add: submit_buffer_def p1_def)
    then show ?thesis using p1 by (simp add: enqueued_events_def add_events_def)
  next
    case taskBufferFull
    then have "submit_select env sel ctx task (fst (nextShard (shardMask p1) (sendSeq p1)))
        (p1\<lparr>sendSeq := snd (nextShard (shardMask p1) (sendSeq p1))\<rparr>) = (r, p')"
      using assms(2) f by (simp add: submit_buffer_def p1_def split: prod.splits)
    from submit_select_events [OF _ this, of faulty] show ?thesis using p1 by simp
  qed
qed

lemma submit_enter_events:
  assumes "hooks p = Some (observer faulty)"
  shows "world (submit_enter env task p) = add_events [Submitted (hook_ctx env task)] (world p)"
proof -
  let ?q = "cold_start (p\<lparr>submitCount := submitCount p + 1\<rparr>)"
  have "hooks ?q = Some (observer faulty)" "world ?q = world p" using assms by simp_all
  then show ?thesis
    unfolding submit_enter_def by (subst dispatchHook_observer [where faulty = faulty]) (simp_all add: add_events_def)
qed

lemma submit_events:
  assumes h: "hooks p = Some (observer faulty)" and s: "submit env pick sel ctx task p = Some (r, p')"
  shows "world p' = add_events (if closed p then [] else Submitted (hook_ctx env task) # enqueued_events r (hook_ctx env task)) (world p)"
proof (cases "closed p")
  case True
  then show ?thesis using s by (auto simp: submit_def pool_addPending_def add_events_def)
next
  case False
  then have nil: "task \<noteq> ContextTask None" using s by (auto simp: submit_def pool_addPending_def)
  let ?c = "hook_ctx env task"
  let ?p2 = "submit_enter env task (pool_addPending p)"
  obtain ok p3 where t: "try_shard (Some task) ?p2 = (ok, p3)" by fastforce
  have "hooks ?p2 = Some (observer faulty)" using h by (simp add: submit_enter_frame pool_addPending_def)
  moreover have "world ?p2 = add_events [Submitted ?c] (world p)"
    using submit_enter_events [of "pool_addPending p" faulty] h by (simp add: pool_addPending_def)
  ultimately have p3: "hooks p3 = Some (observer faulty)" "world p3 = add_events [Submitted ?c] (world p)"
    using t by (auto simp: try_shard_def split: prod.splits)
  have add: "add_events es (add_events [Submitted ?c] (world p)) = add_events (Submitted ?c # es) (world p)" for es
    by (simp add: add_events_def)
  have sub: "submit env pick sel ctx task p =
      (if ok then Some (Accepted, dispatchTaskEnqueuedFor env task p3)
       else if workMode (config ?p2) = NONBLOCK then Some (Rejected, pool_done p3)
       else submit_buffer env pick sel ctx task p3)"
    using False t nil by (simp add: submit_def Let_def) (simp add: pool_addPending_def)
  consider "r = Accepted" "p' = dispatchTaskEnqueuedFor env task p3" | "r = Rejected" "p' = pool_done p3"
    | "submit_buffer env pick sel ctx task p3 = Some (r, p')"
    using s unfolding sub by (cases ok; cases "workMode (config ?p2) = NONBLOCK") simp_all
  then have "world p' = add_events (enqueued_events r ?c) (world p3)"
  proof cases
    case 3
    then show ?thesis by (rule submit_buffer_events [OF p3(1)])
  qed (simp_all add: enqueued_observer [OF p3(1)] add_events_def enqueued_events_def)
  then show ?thesis using False p3 add by simp
qed

section \<open>A new pool\<close>

lemma sum_list_replicate_empty [simp]: "sum_list (replicate n {#}) = {#}"
  by (induction n) simp_all

lemma NewPool_ok:
  fixes w :: 'w and c :: "('f, 'b, 'c, 'v, 'w) PanicHandler Config"
  assumes "0 < taskQueueSize c" and "taskQueueSize c < 2 ^ 62" and "shards_want procs c \<le> 2 ^ 62"
  shows "\<exists>m p. NewPool procs (Some c) w = Some p \<and> pool_inv m [] p \<and> held [] p = {#} \<and> pendingTasks p = 0 \<and>
           \<not> closed p \<and> config p = c \<and> hooks p = None \<and> runningWorkersNum p = 0 \<and>
           taskQueueSize c \<le> int (sum_list (map chanCap (taskQueues p)))"
proof -
  obtain m where m: "m \<le> 62" "resolveTaskQueueShards procs c = Some (2 ^ m)" "2 ^ m \<le> taskQueueSize c"
    using resolve_power [OF assms(1,3)] by blast
  let ?cap = "perShardCap (taskQueueSize c) (2 ^ m)"
  have cover: "taskQueueSize c \<le> 2 ^ m * ?cap" "1 \<le> ?cap"
    using perShardCap_covers [of "taskQueueSize c" "2 ^ m"] assms m(3) by simp_all
  have "(2::nat) ^ m = nat (2 ^ m)" by (simp add: nat_power_eq)
  then have "shards_ok m (shard_mask (2 ^ m)) (make_shards (2 ^ m) ?cap)"
    using m(1) by (auto simp: shards_ok_def make_shards_def chan_ok_def make_chan_def perShardCap_def Let_def)
  moreover have "shards_mset (make_shards (2 ^ m) ?cap :: ('f, 'b, 'c) shards) = {#}"
    by (simp add: shards_mset_def make_shards_def make_chan_def)
  moreover have "int (sum_list (map chanCap (make_shards (2 ^ m) ?cap :: ('f, 'b, 'c) shards))) = 2 ^ m * ?cap"
    using cover(2) by (simp add: make_shards_def make_chan_def sum_list_replicate)
  moreover have "overflowClosed newChunkedTaskBuffer = False" by (simp add: newChunkedTaskBuffer_def)
  ultimately show ?thesis
    using m(2) cover(1) works.empty_ok new_rep
    by (auto simp: NewPool_def pool_inv_def held_def)
qed

lemma NewPool_default:
  fixes w :: 'w
  shows "\<exists>m (p :: ('f, 'b, 'c, 'v, 'w) Pool). NewPool 8 None w = Some p \<and> pool_inv m [] p \<and> held [] p = {#} \<and> pendingTasks p = 0 \<and>
     \<not> closed p \<and> config p = NewConfig [] \<and> hooks p = None \<and> runningWorkersNum p = 0"
proof -
  let ?c = "NewConfig [] :: ('f, 'b, 'c, 'v, 'w) PanicHandler Config"
  have "0 < taskQueueSize ?c" "taskQueueSize ?c < 2 ^ 62" "shards_want 8 ?c \<le> 2 ^ 62"
    by (simp_all add: NewConfig_def config_consts shards_want_def maxAutoShards_def Let_def)
  from NewPool_ok [OF this, of w] show ?thesis by (auto simp: NewPool_def)
qed

section \<open>Nil tasks\<close>

text \<open>No entry point lets a nil task into the queues.\<close>

definition tasks_ok :: "('f, 'b, 'c) Task option list \<Rightarrow> ('f, 'b, 'c, 'v, 'w) Pool \<Rightarrow> bool" where
  "tasks_ok xs p \<longleftrightarrow> (\<forall>t\<in>#held xs p. \<not> isNilTask t)"

lemma submit_tasks_ok:
  assumes "held xs' p' = held xs p + gained r task" and "tasks_ok xs p" and "\<not> isNilTask (Some task)"
  shows "tasks_ok xs' p'"
  using assms by (auto simp: tasks_ok_def gained_def split: if_splits)

section \<open>Properties\<close>

text \<open>
  \<^verbatim>\<open>NewPool\<close> with a queue size between 1 and \<open>2^62\<close> and at most \<open>2^62\<close> shards returns
  a pool in the invariant, empty and open, whose shards together hold at least the
  configured number of tasks.
\<close>

theorem NewPool_ready:
  assumes "0 < taskQueueSize c" and "taskQueueSize c < 2 ^ 62" and "shards_want procs c \<le> 2 ^ 62"
  shows "\<exists>m p. NewPool procs (Some c) w = Some p \<and> pool_inv m [] p \<and> queuedTasks p = 0 \<and> pendingTasks p = 0 \<and>
           \<not> closed p \<and> taskQueueSize c \<le> int (sum_list (map chanCap (taskQueues p)))"
  using NewPool_ok [OF assms, of w] queuedTasks_held by fastforce

theorem NewPool_ready_witness:
  "\<exists>m p. NewPool 8 (Some (NewConfig [WithTaskQueueSize 5000] :: (unit, unit, unit, unit, unit) PanicHandler Config)) () = Some p \<and>
     pool_inv m [] p \<and> 5000 \<le> int (sum_list (map chanCap (taskQueues p)))"
  using NewPool_ready [of "NewConfig [WithTaskQueueSize 5000] :: (unit, unit, unit, unit, unit) PanicHandler Config" 8 "()"]
  by (fastforce simp: NewConfig_def WithTaskQueueSize_def config_consts shards_want_def maxAutoShards_def)

text \<open>
  C11. Every submission of a task that is not nil to a pool in the invariant returns without panic and leaves a pool
  in the invariant. An accepted task is added to the tasks the pool holds, in exactly one
  copy, and to the pending count; a rejected one changes neither; a submitter that waits is
  counted as pending while its task is not yet held. A closed pool rejects.
\<close>

theorem submit_conserves_tasks:
  assumes "pool_inv m xs p" and "\<not> isNilTask (Some task)"
  shows "\<exists>r p' xs'. submit env pick sel ctx task p = Some (r, p') \<and> pool_inv m xs' p' \<and>
           held xs' p' = held xs p + (if r = Accepted then {#Some task#} else {#}) \<and>
           queuedTasks p' = queuedTasks p + (if r = Accepted then 1 else 0) \<and>
           pendingTasks p' = pendingTasks p + (if r = Rejected then 0 else 1) \<and>
           (closed p \<longrightarrow> r = Rejected)"
proof -
  obtain r p' xs' where s: "submit env pick sel ctx task p = Some (r, p')" "closed p \<longrightarrow> r = Rejected"
    and q: "pool_inv m xs' p'" "held xs' p' = held xs (pool_addPending p) + gained r task"
      "pendingTasks p' = pendingTasks (pool_addPending p) - (if r = Rejected then 1 else 0)"
    using submit_ok [OF assms, of env pick sel ctx] by (auto simp: submit_post_def)
  moreover have "held xs (pool_addPending p) = held xs p" by (simp add: held_def pool_addPending_def)
  ultimately show ?thesis
    using queuedTasks_held [OF assms(1)] queuedTasks_held [OF q(1)]
    by (intro exI [of _ r] exI [of _ p'] exI [of _ xs']) (auto simp: gained_def pool_addPending_def)
qed

type_synonym example_world = "(nat, nat) hook_event list \<times> nat list"

type_synonym example_pool = "(nat, unit, nat, nat, example_world) Pool"

definition example_env :: "(nat, unit, nat, nat, example_world) task_env" where
  "example_env =
     \<lparr>execFn = \<lambda>f w. (if f = 13 then Panic f else Ret False, fst w, snd w @ [f]),
      backOffFn = \<lambda>b mn mx n w. (Ret mn, w), Sleep = \<lambda>d w. w, ctxErr = \<lambda>c w. c = 99,
      ctxCancel = \<lambda>c w. w, Background = 0, nilPanic = 7, convert = \<lambda>x. 0\<rparr>"

theorem submit_conserves_tasks_witness:
  "\<exists>p r p'. NewPool 8 None ([], []) = Some p \<and> submit example_env None 0 0 (TaskFunc (Some 1)) p = Some (r, p') \<and>
     pendingTasks p' = (if r = Rejected then 0 else 1)"
proof -
  obtain m and p :: example_pool where p: "NewPool 8 None ([], []) = Some p" "pool_inv m [] p" "pendingTasks p = 0"
    using NewPool_default [of "([], []) :: example_world", where 'f = nat and 'b = unit and 'c = nat and 'v = nat] by auto
  then show ?thesis
    using submit_conserves_tasks [OF p(2), of "TaskFunc (Some 1)" example_env None 0 0] by auto
qed

text \<open>
  C19. In \<^verbatim>\<open>BLOCK\<close> mode an open pool accepts every task while the overflow buffer is
  below its bound; it makes the submitter wait only beyond that, and turns a task away only
  when the submitter's context is done.
\<close>

theorem block_mode_only_context_rejects:
  assumes "pool_inv m xs p" and "\<not> isNilTask (Some task)" and "\<not> closed p" and "workMode (config p) = BLOCK"
  shows "\<exists>r p'. submit env pick sel ctx task p = Some (r, p') \<and>
           (buffer_Len (taskBuf p) < maxChunkLen \<longrightarrow> r = Accepted) \<and>
           (r = Rejected \<longrightarrow> ctxErr env ctx (world p'))"
proof -
  have "buffer_Len (taskBuf p) = int (length xs)"
    using assms(1) buf_rep_len by (auto simp: pool_inv_def buffer_Len_def)
  then show ?thesis using submit_ok [OF assms(1,2), of env pick sel ctx] assms(3,4) by (auto simp: block_promise_def)
qed

theorem block_mode_only_context_rejects_witness:
  "\<exists>p p'. NewPool 8 None ([], []) = Some p \<and> submit example_env None 0 0 (TaskFunc (Some 1)) p = Some (Accepted, p')"
proof -
  obtain m and p :: example_pool where p: "NewPool 8 None ([], []) = Some p" "pool_inv m [] p" "\<not> closed p" "config p = NewConfig []"
    using NewPool_default [of "([], []) :: example_world", where 'f = nat and 'b = unit and 'c = nat and 'v = nat] by auto
  moreover from this have "workMode (config p) = BLOCK" by (simp add: NewConfig_def config_consts)
  moreover have "buffer_Len (taskBuf p) < maxChunkLen"
    using p(2) buf_rep_len [of "taskBuf p" "[]"] by (simp add: pool_inv_def buffer_Len_def maxChunkLen_def)
  ultimately show ?thesis
    using block_mode_only_context_rejects [of m "[]" p "TaskFunc (Some 1)" example_env None 0 0] by auto
qed

text \<open>
  C20. In \<^verbatim>\<open>NONBLOCK\<close> mode an open pool answers at once, from the shard whose turn it is
  alone: it accepts exactly when that shard has room, whatever room the other shards and
  the overflow buffer have, and never touches the overflow buffer.
\<close>

theorem nonblock_mode_decided_by_one_shard:
  assumes "pool_inv m xs p" and "\<not> closed p" and "workMode (config p) = NONBLOCK"
  shows "\<exists>p'. TrySubmit env pick sel (Some task) p =
           Some (Some (\<not> isNilTask (Some task) \<and> chan_room (taskQueues p ! fst (nextShard (shardMask p) (sendSeq p)))), p') \<and>
           taskBuf p' = taskBuf p"
proof (cases "isNilTask (Some task)")
  case False
  then show ?thesis using submit_ok [OF assms(1), of task env pick sel "Background env"] assms(2,3) by (auto simp: TrySubmit_def)
qed (simp add: TrySubmit_def)

definition nonblock_config :: "(nat, unit, nat, nat, example_world) PanicHandler Config" where
  "nonblock_config = NewConfig [WithBlockMode NONBLOCK]"

lemma NewPool_nonblock:
  "\<exists>m p. NewPool 8 (Some nonblock_config) w = Some p \<and> pool_inv m [] p \<and> \<not> closed p \<and> workMode (config p) = NONBLOCK"
proof -
  have "0 < taskQueueSize nonblock_config" "taskQueueSize nonblock_config < 2 ^ 62"
    "shards_want 8 nonblock_config \<le> 2 ^ 62" "workMode nonblock_config = NONBLOCK"
    by (simp_all add: nonblock_config_def WithBlockMode_def NewConfig_def config_consts shards_want_def
        maxAutoShards_def Let_def)
  with NewPool_ok [of nonblock_config 8 w] show ?thesis by auto
qed

theorem nonblock_mode_decided_by_one_shard_witness:
  "\<exists>p b p'. NewPool 8 (Some nonblock_config) ([], []) = Some p \<and>
     TrySubmit example_env None 0 (Some (TaskFunc (Some 1))) p = Some (Some b, p') \<and> taskBuf p' = taskBuf p"
proof -
  obtain m and p :: example_pool where "NewPool 8 (Some nonblock_config) ([], []) = Some p" "pool_inv m [] p"
    "\<not> closed p" "workMode (config p) = NONBLOCK"
    using NewPool_nonblock [of "([], [])"] by auto
  then show ?thesis
    using nonblock_mode_decided_by_one_shard [of m "[]" p example_env None 0 "TaskFunc (Some 1)"] by auto
qed

text \<open>
  C21. The hooks see every submission to an open pool once and every acceptance once, on
  whatever path the task is accepted (shard, overflow buffer or after the last
  \<^verbatim>\<open>select\<close>), with the context of the task, and also when the hook implementation
  panics; a closed pool dispatches nothing.
\<close>

theorem submission_hooks_exactly_once:
  assumes "hooks p = Some (observer faulty)" and "submit env pick sel ctx task p = Some (r, p')"
  shows "world p' =
           (fst (world p) @ (if closed p then []
              else [Submitted (hook_ctx env task)] @ (if r = Accepted then [Enqueued (hook_ctx env task)] else [])),
            snd (world p))"
  using submit_events [OF assms] by (simp add: add_events_def enqueued_events_def)

theorem submission_hooks_exactly_once_witness:
  "\<exists>p r p'. NewPool 8 None ([], []) = Some p \<and>
     submit example_env None 0 0 (ContextTask (Some (5, Some (TaskFunc (Some 1))))) (SetHook (Some (observer (\<lambda>e. Some 3))) p) = Some (r, p') \<and>
     world p' = ([Submitted 5] @ (if r = Accepted then [Enqueued 5] else []), [])"
proof -
  obtain m and p :: example_pool where p: "NewPool 8 None ([], []) = Some p" "pool_inv m [] p" "\<not> closed p"
    using NewPool_default [of "([], []) :: example_world", where 'f = nat and 'b = unit and 'c = nat and 'v = nat] by auto
  let ?q = "SetHook (Some (observer (\<lambda>e. Some (3::nat)))) p"
  let ?t = "ContextTask (Some (5, Some (TaskFunc (Some 1))))"
  have "world p = ([], [])" using p(1) by (auto simp: NewPool_def Let_def split: option.splits)
  moreover have "pool_inv m [] ?q" using p(2) by (simp add: pool_inv_def SetHook_def)
  then obtain r p' where "submit example_env None 0 0 ?t ?q = Some (r, p')"
    using submit_ok [of m "[]" ?q ?t example_env None 0 0] by auto
  ultimately show ?thesis
    using submission_hooks_exactly_once [of ?q "\<lambda>e. Some 3" example_env None 0 0 ?t r p'] p(1,3)
    by (auto simp: SetHook_def hook_ctx_def)
qed

end
