(* ===== verification/Worker.thy ===== *)
theory Worker
  imports Submission
begin

text \<open>
  \<^verbatim>\<open>worker.go\<close>: a worker scans the shards from its cursor, falls back to batches of the
  overflow buffer and parks itself when both are empty; each task runs under two deferred
  functions that recover its panic and settle the accounts. \<open>now\<close> is the clock
  \<^verbatim>\<open>time.Now\<close> reads in the current world. The tasks of this theory act on the world but
  not on the pool that runs them.
\<close>

section \<open>The operations\<close>

definition newWorker :: "nat \<Rightarrow> worker" where
  "newWorker n = \<lparr>wid = n, lastActiveAt = 0, cursor = 0\<rparr>"

text \<open>
  The scan of \<^verbatim>\<open>nextShardTask\<close>, from iteration \<open>i\<close> on with \<open>k\<close> iterations left. An
  index outside the shards is a panic, \<open>None\<close>; a received nil task is dropped.
\<close>

fun shard_scan ::
  "64 word \<Rightarrow> 64 word \<Rightarrow> nat \<Rightarrow> nat \<Rightarrow> ('f, 'b, 'c) shards \<Rightarrow>
   ((64 word \<times> ('f, 'b, 'c) Task) option \<times> ('f, 'b, 'c) shards) option" where
  "shard_scan msk start i 0 qs = Some (None, qs)"
| "shard_scan msk start i (Suc k) qs =
     (let idx = (start + of_nat i) AND msk in
      if unat idx < length qs then
        (case chan_recv (qs ! unat idx) of
           None \<Rightarrow> shard_scan msk start (i + 1) k qs
         | Some (None, q) \<Rightarrow> shard_scan msk start (i + 1) k (qs[unat idx := q])
         | Some (Some t, q) \<Rightarrow> Some (Some (idx, t), qs[unat idx := q]))
      else None)"

definition nextShardTask ::
  "worker \<Rightarrow> ('f, 'b, 'c, 'v, 'w) Pool \<Rightarrow>
   (('f, 'b, 'c) Task option \<times> worker \<times> ('f, 'b, 'c, 'v, 'w) Pool) option" where
  "nextShardTask w p =
     (case shard_scan (shardMask p) (cursor w) 0 (length (taskQueues p)) (taskQueues p) of
        None \<Rightarrow> None
      | Some (None, qs) \<Rightarrow> Some (None, w, p\<lparr>taskQueues := qs\<rparr>)
      | Some (Some (idx, t), qs) \<Rightarrow> Some (Some t, w\<lparr>cursor := idx\<rparr>, p\<lparr>taskQueues := qs\<rparr>))"

definition task_ctx :: "('f, 'b, 'c, 'v, 'w) task_env \<Rightarrow> ('f, 'b, 'c) Task option \<Rightarrow> 'c" where
  "task_ctx env task = (case task of None \<Rightarrow> Background env | Some t \<Rightarrow> hook_ctx env t)"

definition process_task ::
  "('f, 'b, 'c, 'v, 'w) task_env \<Rightarrow> ('f, 'b, 'c) Task option \<Rightarrow> 'w \<Rightarrow> (unit, 'v) outcome \<times> 'w" where
  "process_task env task w = (case task of None \<Rightarrow> (Panic (nilPanic env), w) | Some t \<Rightarrow> process env t w)"

text \<open>The recovering half of the deferred function: the value it hands to the last hook.\<close>

definition recover_task ::
  "('f, 'b, 'c) Task option \<Rightarrow> (unit, 'v) outcome \<Rightarrow> ('f, 'b, 'c, 'v, 'w) Pool \<Rightarrow> 'v option \<times> ('f, 'b, 'c, 'v, 'w) Pool" where
  "recover_task task r p = (case r of Ret _ \<Rightarrow> (None, p) | Panic v \<Rightarrow> (Some v, handlePanic task v p))"

text \<open>
  \<^verbatim>\<open>runTask\<close>; \<open>None\<close> is a panic that leaves the worker: the context of a nil
  \<^verbatim>\<open>*contextTask\<close> is read before the recovering function is deferred. A nil task, in
  contrast, panics when it is processed and is recovered.
\<close>

definition runTask ::
  "('f, 'b, 'c, 'v, 'w) task_env \<Rightarrow> ('f, 'b, 'c) Task option \<Rightarrow> ('f, 'b, 'c, 'v, 'w) Pool \<Rightarrow> ('f, 'b, 'c, 'v, 'w) Pool option" where
  "runTask env task p =
     (if task = Some (ContextTask None) then None
      else
        (let hookCtx = task_ctx env task;
             p1 = dispatchHook (\<lambda>h. iTaskStarted h hookCtx) (p\<lparr>consumeCount := consumeCount p + 1\<rparr>);
             (r, w) = process_task env task (world p1);
             (recovered, p2) = recover_task task r (p1\<lparr>world := w\<rparr>)
         in Some (pool_done (dispatchHook (\<lambda>h. iTaskCompleted h hookCtx recovered) p2))))"

fun run_batch ::
  "('f, 'b, 'c, 'v, 'w) task_env \<Rightarrow> ('w \<Rightarrow> time) \<Rightarrow> ('f, 'b, 'c) Task option list \<Rightarrow>
   worker \<times> ('f, 'b, 'c, 'v, 'w) Pool \<Rightarrow> (worker \<times> ('f, 'b, 'c, 'v, 'w) Pool) option" where
  "run_batch env now [] s = Some s"
| "run_batch env now (t # ts) (w, p) =
     (case runTask env t p of
        None \<Rightarrow> None
      | Some p' \<Rightarrow> run_batch env now ts (w\<lparr>lastActiveAt := now (world p)\<rparr>, p'))"

definition park ::
  "int \<Rightarrow> nat option \<Rightarrow> worker \<Rightarrow> ('f, 'b, 'c, 'v, 'w) Pool \<Rightarrow> ('f, 'b, 'c, 'v, 'w) Pool option" where
  "park priority pick w p =
     (let p1 = addRunningWorkersNum (- 1) p
      in addToIdle priority pick w (p1\<lparr>exitCount := exitCount p1 + 1\<rparr>))"

definition batchSize :: nat where
  "batchSize = 8"

text \<open>The loop of \<^verbatim>\<open>run\<close>, ending in \<open>None\<close> also when it does not end.\<close>

partial_function (option) run_loop ::
  "('f, 'b, 'c, 'v, 'w) task_env \<Rightarrow> ('w \<Rightarrow> time) \<Rightarrow> int \<Rightarrow> nat option \<Rightarrow> worker \<Rightarrow>
   ('f, 'b, 'c, 'v, 'w) Pool \<Rightarrow> (worker \<times> ('f, 'b, 'c, 'v, 'w) Pool) option" where
  "run_loop env now priority pick w p =
     (case nextShardTask w p of
        None \<Rightarrow> None
      | Some (Some t, w1, p1) \<Rightarrow>
          (case runTask env (Some t) p1 of
             None \<Rightarrow> None
           | Some p2 \<Rightarrow> run_loop env now priority pick (w1\<lparr>lastActiveAt := now (world p1)\<rparr>) p2)
      | Some (None, w1, p1) \<Rightarrow>
          (case PopBatch (replicate batchSize None) (taskBuf p1) of
             None \<Rightarrow> None
           | Some (n, batch, b) \<Rightarrow>
               (if 0 < n then
                  (case run_batch env now (take n batch) (w1, p1\<lparr>taskBuf := b\<rparr>) of
                     None \<Rightarrow> None
                   | Some (w2, p2) \<Rightarrow> run_loop env now priority pick w2 p2)
                else
                  (case park priority pick w1 (p1\<lparr>taskBuf := b\<rparr>) of
                     None \<Rightarrow> None
                   | Some p2 \<Rightarrow> Some (w1, p2)))))"

definition run ::
  "('f, 'b, 'c, 'v, 'w) task_env \<Rightarrow> ('w \<Rightarrow> time) \<Rightarrow> int \<Rightarrow> nat option \<Rightarrow> ('f, 'b, 'c) Task option \<Rightarrow> worker \<Rightarrow>
   ('f, 'b, 'c, 'v, 'w) Pool \<Rightarrow> (worker \<times> ('f, 'b, 'c, 'v, 'w) Pool) option" where
  "run env now priority pick task w p =
     (let w1 = w\<lparr>lastActiveAt := now (world p)\<rparr> in
      case task of
        None \<Rightarrow> run_loop env now priority pick w1 p
      | Some t \<Rightarrow>
          (case runTask env (Some t) p of None \<Rightarrow> None | Some p1 \<Rightarrow> run_loop env now priority pick w1 p1))"

section \<open>The scan of the shards\<close>

lemma unat_plus_mod:
  assumes "m \<le> 62"
  shows "unat (s + of_nat i :: 64 word) mod 2 ^ m = (unat s + i) mod 2 ^ m"
proof (induction i)
  case (Suc i)
  have "unat (s + of_nat (Suc i)) mod 2 ^ m = unat (s + of_nat i + 1) mod 2 ^ m" by (simp add: ac_simps)
  also have "\<dots> = Suc (unat (s + of_nat i)) mod 2 ^ m" by (rule unat_succ_mod [OF assms])
  also have "\<dots> = Suc ((unat s + i) mod 2 ^ m) mod 2 ^ m" using Suc by (metis mod_Suc_eq)
  finally show ?case by (simp add: mod_Suc_eq)
qed simp

definition scan_pos :: "nat \<Rightarrow> 64 word \<Rightarrow> nat \<Rightarrow> nat" where
  "scan_pos m start j = (unat start + j) mod 2 ^ m"

lemma in_shards_mset: "x \<in># shards_mset qs \<longleftrightarrow> (\<exists>q\<in>set qs. x \<in> set (chanItems q))"
  by (induction qs) (auto simp: shards_mset_def)

lemma shards_mset_empty_iff: "shards_mset qs = {#} \<longleftrightarrow> (\<forall>q\<in>set qs. chanItems q = [])"
  by (induction qs) (auto simp: shards_mset_def)

text \<open>With no nil task in the shards the scan takes the head of the first shard that has one.\<close>

lemma shard_scan_find:
  assumes "shards_ok m msk qs" and "None \<notin># shards_mset qs"
  shows "shard_scan msk start i k qs =
    Some (case find (\<lambda>j. chanItems (qs ! scan_pos m start j) \<noteq> []) [i..<i + k] of
            None \<Rightarrow> (None, qs)
          | Some j \<Rightarrow>
              (let q = qs ! scan_pos m start j
               in (Some ((start + of_nat j) AND msk, the (hd (chanItems q))),
                   qs[scan_pos m start j := q\<lparr>chanItems := tl (chanItems q)\<rparr>])))"
proof (induction k arbitrary: i)
  case (Suc k)
  have m: "m \<le> 62" "msk = shard_mask (2 ^ m)" "length qs = 2 ^ m" using assms(1) by (simp_all add: shards_ok_def)
  have idx: "unat ((start + of_nat i) AND msk) = scan_pos m start i"
    by (simp add: m(2) unat_and_mask unat_plus_mod [OF m(1)] scan_pos_def)
  have lt: "scan_pos m start i < length qs" by (simp add: scan_pos_def m(3))
  have up: "[i..<Suc (i + k)] = i # [Suc i..<Suc (i + k)]" by (simp add: upt_conv_Cons)
  show ?case
  proof (cases "chanItems (qs ! scan_pos m start i)")
    case Nil
    then show ?thesis using Suc [of "i + 1"] idx lt by (simp add: up chan_recv_def del: upt_Suc)
  next
    case (Cons t ts)
    have "t \<in># shards_mset qs"
      using Cons lt by (auto simp: in_shards_mset intro!: bexI [OF _ nth_mem [OF lt]])
    then obtain t' where "t = Some t'" using assms(2) by (cases t) auto
    then show ?thesis using Cons idx lt by (simp add: up chan_recv_def Let_def del: upt_Suc)
  qed
qed simp

lemma scan_pos_onto:
  assumes "i < 2 ^ m"
  shows "\<exists>j<2 ^ m. scan_pos m start j = i"
proof -
  define s where "s = unat start mod 2 ^ m"
  have s: "s < 2 ^ m" by (simp add: s_def)
  define j where "j = (if s \<le> i then i - s else 2 ^ m + i - s)"
  have "scan_pos m start j = (s + j) mod 2 ^ m" by (simp add: scan_pos_def s_def mod_add_left_eq)
  moreover have "s + j = i \<or> s + j = i + 2 ^ m" using s by (auto simp: j_def)
  ultimately have "scan_pos m start j = i" using assms by auto
  moreover have "j < 2 ^ m" using assms s by (auto simp: j_def)
  ultimately show ?thesis by blast
qed

text \<open>The result of \<^verbatim>\<open>nextShardTask\<close>: the queues are left alone if they are all empty.\<close>

lemma nextShardTask_empty:
  assumes "shards_ok m (shardMask p) (taskQueues p)" and "shards_mset (taskQueues p) = {#}"
  shows "nextShardTask w p = Some (None, w, p)"
proof -
  let ?qs = "taskQueues p"
  have "chanItems (?qs ! scan_pos m (cursor w) j) = []" for j
    using assms by (simp add: shards_mset_empty_iff shards_ok_def scan_pos_def)
  then have "find (\<lambda>j. chanItems (?qs ! scan_pos m (cursor w) j) \<noteq> []) [0..<0 + length ?qs] = None"
    by (simp add: find_None_iff)
  then show ?thesis using shard_scan_find [OF assms(1), of "cursor w" 0 "length ?qs"] assms(2)
    by (simp add: nextShardTask_def)
qed

lemma nextShardTask_found:
  assumes "shards_ok m (shardMask p) (taskQueues p)" and "None \<notin># shards_mset (taskQueues p)"
    and "shards_mset (taskQueues p) \<noteq> {#}"
  obtains j i t ts where "j < 2 ^ m" and "i = scan_pos m (cursor w) j"
    and "\<forall>k<j. chanItems (taskQueues p ! scan_pos m (cursor w) k) = []"
    and "chanItems (taskQueues p ! i) = Some t # ts"
    and "nextShardTask w p =
      Some (Some t, w\<lparr>cursor := of_nat i\<rparr>, p\<lparr>taskQueues := (taskQueues p)[i := (taskQueues p ! i)\<lparr>chanItems := ts\<rparr>]\<rparr>)"
proof -
  let ?qs = "taskQueues p" and ?P = "\<lambda>j. chanItems (taskQueues p ! scan_pos m (cursor w) j) \<noteq> []"
  have m: "m \<le> 62" "shardMask p = shard_mask (2 ^ m)" "length ?qs = 2 ^ m" using assms(1) by (simp_all add: shards_ok_def)
  obtain i where "i < 2 ^ m" "chanItems (?qs ! i) \<noteq> []" using assms(3) m(3) by (auto simp: shards_mset_empty_iff in_set_conv_nth)
  then obtain j' where "j' < 2 ^ m" "?P j'" using scan_pos_onto [of i m "cursor w"] by blast
  then have "find ?P [0..<2 ^ m] \<noteq> None" by (auto simp: find_None_iff)
  then obtain j where j: "find ?P [0..<2 ^ m] = Some j" by blast
  then have lt: "j < 2 ^ m" "?P j" and before: "\<forall>k<j. \<not> ?P k"
    by (auto simp: find_Some_iff)
  let ?i = "scan_pos m (cursor w) j"
  have i: "?i < length ?qs" by (simp add: scan_pos_def m(3))
  obtain x ts where q: "chanItems (?qs ! ?i) = x # ts" using lt(2) by (cases "chanItems (?qs ! ?i)") auto
  have "x \<in># shards_mset ?qs" using q by (auto simp: in_shards_mset intro!: bexI [OF _ nth_mem [OF i]])
  then obtain t where x: "x = Some t" using assms(2) by (cases x) auto
  have "unat ((cursor w + of_nat j) AND shardMask p) = ?i"
    by (simp add: m(2) unat_and_mask unat_plus_mod [OF m(1)] scan_pos_def)
  then have "(cursor w + of_nat j) AND shardMask p = of_nat ?i" by (metis of_nat_unat ucast_id)
  then have "nextShardTask w p =
      Some (Some t, w\<lparr>cursor := of_nat ?i\<rparr>, p\<lparr>taskQueues := ?qs[?i := (?qs ! ?i)\<lparr>chanItems := ts\<rparr>]\<rparr>)"
    using shard_scan_find [OF assms(1,2), of "cursor w" 0 "length ?qs"] j q x
    by (simp add: nextShardTask_def m(3) Let_def)
  then show thesis using that lt before q x by blast
qed

section \<open>Running one task\<close>

lemma handlePanic_simps [simp]:
  shows "taskQueues (handlePanic t v p) = taskQueues p" and "shardMask (handlePanic t v p) = shardMask p"
    and "taskBuf (handlePanic t v p) = taskBuf p" and "idleWorks (handlePanic t v p) = idleWorks p"
    and "closed (handlePanic t v p) = closed p" and "closePoolCn (handlePanic t v p) = closePoolCn p"
    and "pendingTasks (handlePanic t v p) = pendingTasks p" and "consumeCount (handlePanic t v p) = consumeCount p"
    and "hooks (handlePanic t v p) = hooks p" and "config (handlePanic t v p) = config p"
    and "crew (handlePanic t v p) = crew p" and "static (handlePanic t v p) = static p"
    and "exitCount (handlePanic t v p) = exitCount p"
  by (auto simp: handlePanic_def crew_def static_def split: option.splits prod.splits outcome.splits)

text \<open>What a task run leaves alone.\<close>

definition same_queues :: "('f, 'b, 'c, 'v, 'w) Pool \<Rightarrow> ('f, 'b, 'c, 'v, 'w) Pool \<Rightarrow> bool" where
  "same_queues p q \<longleftrightarrow> taskQueues q = taskQueues p \<and> shardMask q = shardMask p \<and> taskBuf q = taskBuf p \<and>
     idleWorks q = idleWorks p \<and> closed q = closed p \<and> closePoolCn q = closePoolCn p \<and>
     crew q = crew p \<and> static q = static p \<and> exitCount q = exitCount p"

definition same_setup :: "('f, 'b, 'c, 'v, 'w) Pool \<Rightarrow> ('f, 'b, 'c, 'v, 'w) Pool \<Rightarrow> bool" where
  "same_setup p q \<longleftrightarrow> hooks q = hooks p \<and> config q = config p"

lemma recover_task_simps [simp]:
  shows "taskQueues (snd (recover_task t r p)) = taskQueues p" and "shardMask (snd (recover_task t r p)) = shardMask p"
    and "taskBuf (snd (recover_task t r p)) = taskBuf p" and "idleWorks (snd (recover_task t r p)) = idleWorks p"
    and "closed (snd (recover_task t r p)) = closed p" and "closePoolCn (snd (recover_task t r p)) = closePoolCn p"
    and "pendingTasks (snd (recover_task t r p)) = pendingTasks p"
    and "consumeCount (snd (recover_task t r p)) = consumeCount p"
    and "hooks (snd (recover_task t r p)) = hooks p" and "config (snd (recover_task t r p)) = config p"
    and "crew (snd (recover_task t r p)) = crew p" and "static (snd (recover_task t r p)) = static p"
    and "exitCount (snd (recover_task t r p)) = exitCount p"
  by (auto simp: recover_task_def split: outcome.splits)

lemma runTask_ok:
  assumes "task \<noteq> Some (ContextTask None)"
  shows "\<exists>q. runTask env task p = Some q \<and> same_queues p q \<and> same_setup p q \<and>
           pendingTasks q = pendingTasks p - 1 \<and> consumeCount q = consumeCount p + 1"
  using assms by (simp add: runTask_def Let_def same_queues_def same_setup_def case_prod_beta) (simp add: crew_def static_def)

text \<open>The run of a task depends on the hooks, the configuration and the world only.\<close>

definition agree :: "('f, 'b, 'c, 'v, 'w) Pool \<Rightarrow> ('f, 'b, 'c, 'v, 'w) Pool \<Rightarrow> bool" where
  "agree p q \<longleftrightarrow> hooks p = hooks q \<and> config p = config q \<and> world p = world q"

lemma agree_dispatchHook: "agree p q \<Longrightarrow> agree (dispatchHook fn p) (dispatchHook fn q)"
  by (auto simp: agree_def dispatchHook_def split: option.splits prod.splits outcome.splits)

lemma agree_handlePanic: "agree p q \<Longrightarrow> agree (handlePanic t v p) (handlePanic t v q)"
  by (auto simp: agree_def handlePanic_def split: option.splits prod.splits outcome.splits)

lemma agree_recover_task:
  "agree p q \<Longrightarrow> fst (recover_task t r p) = fst (recover_task t r q) \<and>
     agree (snd (recover_task t r p)) (snd (recover_task t r q))"
  using agree_handlePanic by (auto simp: recover_task_def split: outcome.splits)

lemma agree_runTask:
  assumes "agree p q" and "runTask env t p = Some p'"
  obtains q' where "runTask env t q = Some q'" and "agree p' q'"
proof -
  have nil: "t \<noteq> Some (ContextTask None)" using assms(2) by (auto simp: runTask_def)
  let ?P = "\<lambda>p. dispatchHook (\<lambda>h. iTaskStarted h (task_ctx env t)) (p\<lparr>consumeCount := consumeCount p + 1\<rparr>)"
  have P: "agree (?P p) (?P q)" by (rule agree_dispatchHook) (use assms(1) in \<open>simp add: agree_def\<close>)
  then have w: "world (?P q) = world (?P p)" by (simp add: agree_def)
  obtain r v where r: "process_task env t (world (?P p)) = (r, v)" by fastforce
  let ?R = "\<lambda>p. recover_task t r ((?P p)\<lparr>world := v\<rparr>)"
  let ?S = "\<lambda>p. pool_done (dispatchHook (\<lambda>h. iTaskCompleted h (task_ctx env t) (fst (?R p))) (snd (?R p)))"
  have R: "fst (?R p) = fst (?R q) \<and> agree (snd (?R p)) (snd (?R q))"
    by (rule agree_recover_task) (use P in \<open>simp add: agree_def\<close>)
  have run: "runTask env t x = Some (?S x)" if "world (?P x) = world (?P p)" for x
    using nil r that by (simp add: runTask_def Let_def case_prod_beta)
  have "agree (?S p) (?S q)"
    using R agree_dispatchHook [of "snd (?R p)" "snd (?R q)" "\<lambda>h. iTaskCompleted h (task_ctx env t) (fst (?R p))"]
    by (simp add: agree_def)
  then show thesis using that run [of p] run [of q] w assms(2) by simp
qed

section \<open>Running many tasks\<close>

fun run_tasks ::
  "('f, 'b, 'c, 'v, 'w) task_env \<Rightarrow> ('f, 'b, 'c) Task option list \<Rightarrow> ('f, 'b, 'c, 'v, 'w) Pool \<Rightarrow> ('f, 'b, 'c, 'v, 'w) Pool option" where
  "run_tasks env [] p = Some p"
| "run_tasks env (t # ts) p = (case runTask env t p of None \<Rightarrow> None | Some q \<Rightarrow> run_tasks env ts q)"

text \<open>
  \<open>q\<close> is \<open>p\<close> after running exactly the tasks \<open>ts\<close>, in this order: the effects outside the
  pool are those of the tasks with their hooks and panic handlers, and the counters are
  settled once per task.
\<close>

definition has_run ::
  "('f, 'b, 'c, 'v, 'w) task_env \<Rightarrow> ('f, 'b, 'c) Task option list \<Rightarrow> ('f, 'b, 'c, 'v, 'w) Pool \<Rightarrow> ('f, 'b, 'c, 'v, 'w) Pool \<Rightarrow> bool" where
  "has_run env ts p q \<longleftrightarrow> (\<exists>q0. run_tasks env ts p = Some q0 \<and> agree q0 q) \<and>
     pendingTasks q = pendingTasks p - int (length ts) \<and> consumeCount q = consumeCount p + int (length ts)"

lemma run_tasks_append:
  "run_tasks env (ts @ us) p = (case run_tasks env ts p of None \<Rightarrow> None | Some q \<Rightarrow> run_tasks env us q)"
  by (induction ts arbitrary: p) (auto split: option.splits)

lemma agree_run_tasks:
  assumes "agree p q" and "run_tasks env ts p = Some p'"
  shows "\<exists>q'. run_tasks env ts q = Some q' \<and> agree p' q'"
  using assms
proof (induction ts arbitrary: p q)
  case (Cons t ts)
  then obtain p1 where p1: "runTask env t p = Some p1" "run_tasks env ts p1 = Some p'"
    by (auto split: option.splits)
  obtain q1 where "runTask env t q = Some q1" "agree p1 q1" using agree_runTask [OF Cons.prems(1) p1(1)] by blast
  then show ?case using Cons.IH [OF _ p1(2)] by auto
qed simp

lemma agree_trans: "agree p q \<Longrightarrow> agree q r \<Longrightarrow> agree p r"
  by (simp add: agree_def)

lemma agree_sym: "agree p q \<Longrightarrow> agree q p"
  by (simp add: agree_def)

lemma has_run_append:
  assumes "has_run env ts p q" and "has_run env us q r"
  shows "has_run env (ts @ us) p r"
proof -
  obtain q0 r0 where q0: "run_tasks env ts p = Some q0" "agree q0 q" and r0: "run_tasks env us q = Some r0" "agree r0 r"
    using assms by (auto simp: has_run_def)
  obtain r1 where "run_tasks env us q0 = Some r1" "agree r0 r1"
    using agree_run_tasks [OF agree_sym [OF q0(2)] r0(1)] by blast
  then show ?thesis
    using assms q0 agree_trans [OF agree_sym r0(2)] by (auto simp: has_run_def run_tasks_append)
qed

lemma has_run_one:
  assumes "runTask env t p = Some q"
  shows "has_run env [t] p q"
proof -
  have "t \<noteq> Some (ContextTask None)" using assms by (auto simp: runTask_def)
  then show ?thesis using assms runTask_ok [of t env p] by (auto simp: has_run_def agree_def)
qed

lemma has_run_frame:
  assumes "agree p p'" and "pendingTasks p = pendingTasks p'" and "consumeCount p = consumeCount p'" and "has_run env ts p q"
  shows "has_run env ts p' q"
proof -
  obtain q0 where q0: "run_tasks env ts p = Some q0" "agree q0 q" using assms(4) by (auto simp: has_run_def)
  obtain q1 where "run_tasks env ts p' = Some q1" "agree q0 q1" using agree_run_tasks [OF assms(1) q0(1)] by blast
  then show ?thesis using q0 assms agree_trans [OF agree_sym] by (auto simp: has_run_def)
qed

lemma same_queues_trans: "same_queues p q \<Longrightarrow> same_queues q r \<Longrightarrow> same_queues p r"
  by (simp add: same_queues_def)

lemma run_batch_ok:
  assumes "Some (ContextTask None) \<notin> set ts"
  shows "\<exists>w' q. run_batch env now ts (w, p) = Some (w', q) \<and> has_run env ts p q \<and> same_queues p q \<and> wid w' = wid w"
  using assms
proof (induction ts arbitrary: w p)
  case Nil
  then show ?case by (simp add: has_run_def agree_def same_queues_def)
next
  case (Cons t ts)
  then have "t \<noteq> Some (ContextTask None)" by auto
  then obtain p1 where p1: "runTask env t p = Some p1" "same_queues p p1"
    using runTask_ok by blast
  obtain w' q where q: "run_batch env now ts (w\<lparr>lastActiveAt := now (world p)\<rparr>, p1) = Some (w', q)" "has_run env ts p1 q"
    "same_queues p1 q" "wid w' = wid (w\<lparr>lastActiveAt := now (world p)\<rparr>)"
    using Cons.IH [of "w\<lparr>lastActiveAt := now (world p)\<rparr>" p1] Cons.prems by auto
  then have "has_run env ([t] @ ts) p q" using has_run_append [OF has_run_one [OF p1(1)]] by blast
  then show ?case using p1 q same_queues_trans by auto
qed

section \<open>The loop\<close>

lemma shards_recv:
  assumes "shards_ok m msk qs" and "i < length qs" and "chanItems (qs ! i) = x # xs"
  shows "shards_ok m msk (qs[i := (qs ! i)\<lparr>chanItems := xs\<rparr>])"
    and "shards_mset qs = add_mset x (shards_mset (qs[i := (qs ! i)\<lparr>chanItems := xs\<rparr>]))"
proof -
  have "chan_ok (qs ! i)" using assms(1,2) by (simp add: shards_ok_def)
  then have "chan_ok ((qs ! i)\<lparr>chanItems := xs\<rparr>)" using assms(3) by (simp add: chan_ok_def)
  then show "shards_ok m msk (qs[i := (qs ! i)\<lparr>chanItems := xs\<rparr>])"
    using assms(1) set_update_subset_insert [of qs i] by (fastforce simp: shards_ok_def)
  show "shards_mset qs = add_mset x (shards_mset (qs[i := (qs ! i)\<lparr>chanItems := xs\<rparr>]))"
    using sum_list_map_update [OF assms(2), of "\<lambda>q. mset (chanItems q)" "(qs ! i)\<lparr>chanItems := xs\<rparr>"] assms(3)
    by (simp add: shards_mset_def)
qed

lemma same_queues_inv:
  "same_queues p q \<Longrightarrow> pool_inv m xs q = pool_inv m xs p" "same_queues p q \<Longrightarrow> held xs q = held xs p"
  by (simp_all add: same_queues_def pool_inv_def held_def)

lemma park_ok:
  assumes "pool_inv m xs p"
  shows "\<exists>q. park priority pick w p = Some q \<and> pool_inv m xs q \<and> held xs q = held xs p \<and> agree p q \<and>
           pendingTasks q = pendingTasks p \<and> consumeCount q = consumeCount p \<and>
           crew q = (runningWorkersNum p - 1, started p) \<and> static q = static p \<and> exitCount q = exitCount p + 1 \<and>
           idle_elems (idleWorks q) = add_mset w (idle_elems (idleWorks p))"
proof -
  have "idle_invar (idleWorks p)" using assms by (simp add: pool_inv_def)
  then obtain c where "idle_Add priority pick w (idleWorks p) = Some c" "idle_invar c"
    "idle_elems c = add_mset w (idle_elems (idleWorks p))"
    using works.add_ok by blast
  then show ?thesis
    using assms by (simp add: park_def addRunningWorkersNum_def addToIdle_def pool_inv_def held_def agree_def crew_def static_def Let_def)
qed

text \<open>The state a worker leaves behind when it has emptied the pool and parked.\<close>

definition drained_by ::
  "('f, 'b, 'c, 'v, 'w) task_env \<Rightarrow> nat \<Rightarrow> ('f, 'b, 'c) Task option multiset \<Rightarrow> worker \<Rightarrow> ('f, 'b, 'c, 'v, 'w) Pool \<Rightarrow>
   worker \<Rightarrow> ('f, 'b, 'c, 'v, 'w) Pool \<Rightarrow> bool" where
  "drained_by env m T w p w' q \<longleftrightarrow>
     pool_inv m [] q \<and> held [] q = {#} \<and> (\<exists>ts. mset ts = T \<and> has_run env ts p q) \<and>
     crew q = (runningWorkersNum p - 1, started p) \<and> static q = static p \<and> exitCount q = exitCount p + 1 \<and>
     closed q = closed p \<and> wid w' = wid w \<and> idle_elems (idleWorks q) = add_mset w' (idle_elems (idleWorks p))"

lemma drained_by_step:
  assumes "has_run env ts p p1" and "crew p1 = crew p" and "static p1 = static p" and "exitCount p1 = exitCount p"
    and "closed p1 = closed p" and "wid w1 = wid w" and "idleWorks p1 = idleWorks p" and "drained_by env m T w1 p1 w' q"
  shows "drained_by env m (mset ts + T) w p w' q"
proof -
  obtain us where "mset us = T" "has_run env us p1 q" using assms(8) by (auto simp: drained_by_def)
  then have "mset (ts @ us) = mset ts + T" "has_run env (ts @ us) p q" using has_run_append [OF assms(1)] by auto
  then show ?thesis using assms unfolding drained_by_def crew_def by (metis prod.inject)
qed

lemma tasks_ok_no_nil:
  assumes "tasks_ok xs p" and "t \<in># held xs p"
  shows "t \<noteq> None" and "t \<noteq> Some (ContextTask None)"
proof -
  have nil: "\<not> isNilTask t" using assms by (simp add: tasks_ok_def)
  show "t \<noteq> None" using nil by (cases t) auto
  show "t \<noteq> Some (ContextTask None)" using nil by auto
qed

lemma tasks_ok_sub: "tasks_ok xs p \<Longrightarrow> held ys q \<subseteq># held xs p \<Longrightarrow> tasks_ok ys q"
  using mset_subset_eqD by (fastforce simp: tasks_ok_def)

text \<open>One turn of the loop that finds a task in the shards.\<close>

lemma run_loop_shard:
  assumes inv: "pool_inv m xs p" and ok: "tasks_ok xs p" and ne: "shards_mset (taskQueues p) \<noteq> {#}"
  shows "\<exists>w1 p1 ts. run_loop env now priority pick w p = run_loop env now priority pick w1 p1 \<and>
           has_run env ts p p1 \<and> pool_inv m xs p1 \<and> held xs p = mset ts + held xs p1 \<and> ts \<noteq> [] \<and>
           crew p1 = crew p \<and> static p1 = static p \<and> exitCount p1 = exitCount p \<and> closed p1 = closed p \<and>
           wid w1 = wid w \<and> idleWorks p1 = idleWorks p"
proof -
  have s: "shards_ok m (shardMask p) (taskQueues p)" using inv by (simp add: pool_inv_def)
  have "None \<notin># shards_mset (taskQueues p)" using tasks_ok_no_nil(1) [OF ok, of None] by (auto simp: held_def)
  from nextShardTask_found [OF s this ne, of w] obtain j i t ts where
    j: "i = scan_pos m (cursor w) j" "chanItems (taskQueues p ! i) = Some t # ts"
    and n: "nextShardTask w p =
      Some (Some t, w\<lparr>cursor := of_nat i\<rparr>, p\<lparr>taskQueues := (taskQueues p)[i := (taskQueues p ! i)\<lparr>chanItems := ts\<rparr>]\<rparr>)"
    by metis
  let ?p1 = "p\<lparr>taskQueues := (taskQueues p)[i := (taskQueues p ! i)\<lparr>chanItems := ts\<rparr>]\<rparr>"
  have i: "i < length (taskQueues p)" using s j(1) by (simp add: shards_ok_def scan_pos_def)
  have h: "held xs p = add_mset (Some t) (held xs ?p1)" and inv1: "pool_inv m xs ?p1"
    using shards_recv [OF s i j(2)] inv by (simp_all add: held_def pool_inv_def)
  then have "t \<noteq> ContextTask None" using tasks_ok_no_nil(2) [OF ok, of "Some t"] by auto
  then obtain p2 where p2: "runTask env (Some t) ?p1 = Some p2" "same_queues ?p1 p2"
    using runTask_ok [of "Some t" env ?p1] by auto
  have "has_run env [Some t] p p2"
    by (rule has_run_frame [OF _ _ _ has_run_one [OF p2(1)]]) (simp_all add: agree_def)
  moreover have "run_loop env now priority pick w p =
      run_loop env now priority pick (w\<lparr>cursor := of_nat i, lastActiveAt := now (world p)\<rparr>) p2"
    using n p2(1) by (subst run_loop.simps) simp
  moreover have "pool_inv m xs p2" "held xs p2 = held xs ?p1" using same_queues_inv [OF p2(2)] inv1 by simp_all
  moreover have "crew p2 = crew p" "static p2 = static p" "exitCount p2 = exitCount p" "closed p2 = closed p"
    "idleWorks p2 = idleWorks p"
    using p2(2) by (simp_all add: same_queues_def crew_def static_def)
  ultimately show ?thesis
    using h by (intro exI [of _ "w\<lparr>cursor := of_nat i, lastActiveAt := now (world p)\<rparr>"] exI [of _ p2] exI [of _ "[Some t]"]) simp
qed

text \<open>One turn that takes a batch from the overflow buffer.\<close>

lemma run_loop_batch:
  assumes inv: "pool_inv m xs p" and ok: "tasks_ok xs p" and e: "shards_mset (taskQueues p) = {#}" and ne: "xs \<noteq> []"
  shows "\<exists>w1 p1. run_loop env now priority pick w p = run_loop env now priority pick w1 p1 \<and>
           has_run env (take batchSize xs) p p1 \<and> pool_inv m (drop batchSize xs) p1 \<and>
           held xs p = mset (take batchSize xs) + held (drop batchSize xs) p1 \<and>
           crew p1 = crew p \<and> static p1 = static p \<and> exitCount p1 = exitCount p \<and> closed p1 = closed p \<and>
           wid w1 = wid w \<and> idleWorks p1 = idleWorks p"
proof -
  have "shards_ok m (shardMask p) (taskQueues p)" and r: "buf_rep (taskBuf p) xs" using inv by (simp_all add: pool_inv_def)
  then have n: "nextShardTask w p = Some (None, w, p)" using nextShardTask_empty e by blast
  have len: "length (replicate batchSize None) = batchSize" by simp
  obtain b where b: "PopBatch (replicate batchSize None) (taskBuf p) =
      Some (min batchSize (length xs), take batchSize xs @ drop (length xs) (replicate batchSize None), b)"
    "buf_rep b (drop batchSize xs)" "overflowClosed b = overflowClosed (taskBuf p)"
    using tbuf.pop_law [OF r, of "replicate batchSize None"] by auto
  let ?p1 = "p\<lparr>taskBuf := b\<rparr>"
  have tk: "take (min batchSize (length xs)) (take batchSize xs @ drop (length xs) (replicate batchSize None)) = take batchSize xs"
    by (simp add: min_def)
  have pos: "0 < min batchSize (length xs)" using ne by (simp add: batchSize_def)
  have "Some (ContextTask None) \<notin> set (take batchSize xs)"
    using tasks_ok_no_nil(2) [OF ok] by (auto simp: held_def dest: in_set_takeD)
  then obtain w' q where q: "run_batch env now (take batchSize xs) (w, ?p1) = Some (w', q)"
    "has_run env (take batchSize xs) ?p1 q" "same_queues ?p1 q" "wid w' = wid w"
    using run_batch_ok [of "take batchSize xs" env now w ?p1] by blast
  have "run_loop env now priority pick w p = run_loop env now priority pick w' q"
    using n b(1) tk pos q(1) by (subst run_loop.simps) simp
  moreover have "has_run env (take batchSize xs) p q"
    by (rule has_run_frame [OF _ _ _ q(2)]) (simp_all add: agree_def)
  moreover have "pool_inv m (drop batchSize xs) q" "held (drop batchSize xs) q = shards_mset (taskQueues p) + mset (drop batchSize xs)"
    using same_queues_inv [OF q(3)] inv b by (simp_all add: pool_inv_def held_def)
  moreover have "held xs p = mset (take batchSize xs) + (shards_mset (taskQueues p) + mset (drop batchSize xs))"
    using mset_append [of "take batchSize xs" "drop batchSize xs"] by (simp add: held_def)
  ultimately show ?thesis
    using q(3,4) by (intro exI [of _ w'] exI [of _ q]) (simp add: same_queues_def crew_def static_def)
qed

lemma run_loop_park:
  assumes inv: "pool_inv m [] p" and e: "shards_mset (taskQueues p) = {#}"
  shows "\<exists>q. run_loop env now priority pick w p = Some (w, q) \<and> drained_by env m {#} w p w q"
proof -
  have "shards_ok m (shardMask p) (taskQueues p)" and r: "buf_rep (taskBuf p) []" using inv by (simp_all add: pool_inv_def)
  then have n: "nextShardTask w p = Some (None, w, p)" using nextShardTask_empty e by blast
  obtain b where b: "PopBatch (replicate batchSize None) (taskBuf p) = Some (0, replicate batchSize None, b)"
    "buf_rep b []" "overflowClosed b = overflowClosed (taskBuf p)"
    using tbuf.pop_law [OF r, of "replicate batchSize None"] by auto
  have inv1: "pool_inv m [] (p\<lparr>taskBuf := b\<rparr>)" using inv b by (simp add: pool_inv_def)
  from park_ok [OF inv1, of priority pick w] obtain q where q: "park priority pick w (p\<lparr>taskBuf := b\<rparr>) = Some q" "pool_inv m [] q"
    "held [] q = held [] (p\<lparr>taskBuf := b\<rparr>)" "agree (p\<lparr>taskBuf := b\<rparr>) q" "pendingTasks q = pendingTasks p"
    "consumeCount q = consumeCount p" "crew q = (runningWorkersNum p - 1, started p)" "static q = static p" "exitCount q = exitCount p + 1"
    "idle_elems (idleWorks q) = add_mset w (idle_elems (idleWorks p))"
    by (auto simp: static_def)
  have "closed q = closed p" using q(1) by (auto simp: park_def addToIdle_def addRunningWorkersNum_def Let_def)
  moreover have "has_run env [] p q" using q by (simp add: has_run_def agree_def)
  moreover have "held [] q = {#}" using q(3) e by (simp add: held_def)
  moreover have "run_loop env now priority pick w p = Some (w, q)" using n b q(1) by (subst run_loop.simps) simp
  ultimately show ?thesis using q by (auto simp: drained_by_def)
qed

lemma run_loop_drains:
  assumes "pool_inv m xs p" and "tasks_ok xs p"
  shows "\<exists>w' q. run_loop env now priority pick w p = Some (w', q) \<and> drained_by env m (held xs p) w p w' q"
  using assms
proof (induction "size (held xs p)" arbitrary: xs p w rule: less_induct)
  case less
  consider "shards_mset (taskQueues p) \<noteq> {#}" | "shards_mset (taskQueues p) = {#}" "xs \<noteq> []"
    | "shards_mset (taskQueues p) = {#}" "xs = []" by blast
  then show ?case
  proof cases
    case 1
    from run_loop_shard [OF less.prems 1, of env now priority pick w] obtain w1 p1 ts where
      p1: "run_loop env now priority pick w p = run_loop env now priority pick w1 p1" "has_run env ts p p1" "pool_inv m xs p1"
        "held xs p = mset ts + held xs p1" "ts \<noteq> []"
      and f: "crew p1 = crew p" "static p1 = static p" "exitCount p1 = exitCount p" "closed p1 = closed p"
        "wid w1 = wid w" "idleWorks p1 = idleWorks p"
      by blast
    have "size (held xs p1) < size (held xs p)" "tasks_ok xs p1" using p1(4,5) less.prems(2) by (auto intro: tasks_ok_sub)
    then obtain w' q where "run_loop env now priority pick w1 p1 = Some (w', q)" "drained_by env m (held xs p1) w1 p1 w' q"
      using less.hyps p1(3) by blast
    then show ?thesis using drained_by_step [OF p1(2) f] p1(1,4) by auto
  next
    case 2
    from run_loop_batch [OF less.prems 2, of env now priority pick w] obtain w1 p1 where
      p1: "run_loop env now priority pick w p = run_loop env now priority pick w1 p1" "has_run env (take batchSize xs) p p1"
        "pool_inv m (drop batchSize xs) p1" "held xs p = mset (take batchSize xs) + held (drop batchSize xs) p1"
      and f: "crew p1 = crew p" "static p1 = static p" "exitCount p1 = exitCount p" "closed p1 = closed p"
        "wid w1 = wid w" "idleWorks p1 = idleWorks p"
      by blast
    have "size (held (drop batchSize xs) p1) < size (held xs p)" "tasks_ok (drop batchSize xs) p1"
      using p1(4) 2(2) less.prems(2) by (auto simp: batchSize_def intro: tasks_ok_sub)
    then obtain w' q where "run_loop env now priority pick w1 p1 = Some (w', q)"
      "drained_by env m (held (drop batchSize xs) p1) w1 p1 w' q"
      using less.hyps p1(3) by blast
    then show ?thesis using drained_by_step [OF p1(2) f] p1(1,4) by auto
  next
    case 3
    then show ?thesis using run_loop_park [of m p env now priority pick w] less.prems(1) by (auto simp: held_def)
  qed
qed

section \<open>Properties\<close>

text \<open>
  C10. A worker that is started on a pool in the invariant, without nil tasks in its queues,
  returns. By then it has run every task that the shards and the overflow buffer held,
  each exactly once, whatever panics in tasks, hooks or handlers; the queues are empty; the
  pending count went down and the consume counter up by one per task; the worker has left
  the running count and is parked in the idle container exactly once.
\<close>

theorem worker_run_drains_pool:
  assumes "pool_inv m xs p" and "tasks_ok xs p"
  shows "\<exists>w' q ts. run env now priority pick None w p = Some (w', q) \<and> mset ts = held xs p \<and> has_run env ts p q \<and>
           pool_inv m [] q \<and> queuedTasks q = 0 \<and> pendingTasks q = pendingTasks p - queuedTasks p \<and>
           consumeCount q = consumeCount p + queuedTasks p \<and> runningWorkersNum q = runningWorkersNum p - 1 \<and>
           exitCount q = exitCount p + 1 \<and> idle_elems (idleWorks q) = add_mset w' (idle_elems (idleWorks p)) \<and>
           wid w' = wid w"
proof -
  obtain w' q where q: "run env now priority pick None w p = Some (w', q)"
    "drained_by env m (held xs p) (w\<lparr>lastActiveAt := now (world p)\<rparr>) p w' q"
    using run_loop_drains [OF assms, of env now priority pick "w\<lparr>lastActiveAt := now (world p)\<rparr>"]
    by (auto simp: run_def Let_def)
  then obtain ts where ts: "mset ts = held xs p" "has_run env ts p q" by (auto simp: drained_by_def)
  have "queuedTasks p = int (length ts)" using queuedTasks_held [OF assms(1)] ts(1) by (metis size_mset)
  moreover have "queuedTasks q = 0" using queuedTasks_held [of m "[]" q] q(2) by (simp add: drained_by_def)
  ultimately show ?thesis using q ts unfolding drained_by_def has_run_def crew_def by (intro exI [of _ w'] exI [of _ q] exI [of _ ts]) auto
qed

lemma example_submitted:
  "\<exists>m xs (p :: example_pool). pool_inv m xs p \<and> tasks_ok xs p \<and> queuedTasks p = 1 \<and> pendingTasks p = 1 \<and>
     held xs p = {#Some (TaskFunc (Some 13))#}"
proof -
  obtain m and p :: example_pool where p: "pool_inv m [] p" "held [] p = {#}" "pendingTasks p = 0" "\<not> closed p"
      "config p = NewConfig []"
    using NewPool_default [of "([], []) :: example_world", where 'f = nat and 'b = unit and 'c = nat and 'v = nat] by auto
  have "workMode (config p) = BLOCK" using p(5) by (simp add: NewConfig_def config_consts)
  then obtain p' where "submit_post m [] (TaskFunc (Some 13)) (pool_addPending p) Accepted p'"
    using submit_ok [OF p(1), of "TaskFunc (Some 13)" example_env None 0 0] p(4)
    by (auto simp: block_promise_def maxChunkLen_def)
  then obtain xs where xs: "pool_inv m xs p'" "held xs p' = {#Some (TaskFunc (Some 13))#}" "pendingTasks p' = 1"
    using p by (auto simp: submit_post_def gained_def pool_addPending_def held_def)
  moreover have "tasks_ok xs p'" by (simp add: tasks_ok_def xs(2))
  moreover have "queuedTasks p' = 1" using queuedTasks_held [OF xs(1)] xs(2) by simp
  ultimately show ?thesis by blast
qed

theorem worker_run_drains_pool_witness:
  "\<exists>(p :: example_pool) w' q. queuedTasks p = 1 \<and> pendingTasks p = 1 \<and>
     run example_env (\<lambda>w. 0) 0 None None (newWorker 0) p = Some (w', q) \<and> queuedTasks q = 0 \<and> pendingTasks q = 0"
proof -
  obtain m xs and p :: example_pool where p: "pool_inv m xs p" "tasks_ok xs p" "queuedTasks p = 1" "pendingTasks p = 1"
    using example_submitted by blast
  then show ?thesis
    using worker_run_drains_pool [OF p(1,2), of example_env "\<lambda>w. 0" 0 None "newWorker 0"] by auto
qed

text \<open>
  C13. \<^verbatim>\<open>nextShardTask\<close> looks at the shards in cyclic order from the worker's cursor and
  takes the oldest task of the first shard that holds one, moving the cursor to that shard;
  it reports none exactly when every shard is empty, and it never indexes outside the shards.
\<close>

theorem nextShardTask_first_in_cyclic_order:
  assumes "pool_inv m xs p" and "tasks_ok xs p"
  shows "if \<forall>q\<in>set (taskQueues p). chanItems q = [] then nextShardTask w p = Some (None, w, p)
    else \<exists>j i t ts. i = (unat (cursor w) + j) mod length (taskQueues p) \<and>
      (\<forall>k<j. chanItems (taskQueues p ! ((unat (cursor w) + k) mod length (taskQueues p))) = []) \<and>
      chanItems (taskQueues p ! i) = Some t # ts \<and>
      nextShardTask w p =
        Some (Some t, w\<lparr>cursor := of_nat i\<rparr>, p\<lparr>taskQueues := (taskQueues p)[i := (taskQueues p ! i)\<lparr>chanItems := ts\<rparr>]\<rparr>)"
proof -
  have s: "shards_ok m (shardMask p) (taskQueues p)" using assms(1) by (simp add: pool_inv_def)
  then have l: "length (taskQueues p) = 2 ^ m" by (simp add: shards_ok_def)
  have n: "None \<notin># shards_mset (taskQueues p)" using tasks_ok_no_nil(1) [OF assms(2), of None] by (auto simp: held_def)
  show ?thesis
  proof (cases "shards_mset (taskQueues p) = {#}")
    case True
    then show ?thesis using nextShardTask_empty [OF s] by (simp add: shards_mset_empty_iff)
  next
    case False
    from nextShardTask_found [OF s n False, of w] show ?thesis
      using False unfolding l scan_pos_def [symmetric] shards_mset_empty_iff by (simp only: if_False) metis
  qed
qed

theorem nextShardTask_first_in_cyclic_order_witness:
  "\<exists>(p :: example_pool) w' q. nextShardTask (newWorker 0) p = Some (Some (TaskFunc (Some 13)), w', q)"
proof -
  obtain m and p0 :: example_pool where p0: "pool_inv m [] p0"
    using NewPool_default [of "([], []) :: example_world", where 'f = nat and 'b = unit and 'c = nat and 'v = nat] by auto
  define p where "p = p0\<lparr>taskQueues := [\<lparr>chanCap = 1, chanItems = [Some (TaskFunc (Some 13))]\<rparr>], shardMask := 0\<rparr>"
  have "pool_inv 0 [] p" using p0 by (simp add: pool_inv_def p_def shards_ok_def shard_mask_def chan_ok_def)
  moreover have "tasks_ok [] p" by (simp add: tasks_ok_def held_def p_def shards_mset_def)
  ultimately show ?thesis
    using nextShardTask_first_in_cyclic_order [of 0 "[]" p "newWorker 0"] by (auto simp: p_def)
qed

text \<open>
  C22. However a task ends, \<^verbatim>\<open>runTask\<close> returns and settles its accounts once: one fewer
  pending task, one more consumed. The hooks see the start before and the completion after
  the task with its context, the latter with the recovered value, also when every hook
  panics. A panic of the task goes to the panic handler if one is installed, with the task
  and the value, and else to the log; a handler that panics is itself logged and keeps
  neither the completion hook nor the accounts from being settled; every panicking hook is
  logged.
\<close>

theorem runTask_settles_once:
  assumes "hooks p = Some (observer faulty)" and "task \<noteq> ContextTask None"
    and "process env task (fst (world p) @ [Started (hook_ctx env task)], snd (world p)) = (r, w)"
    and "reported = (case (r, panicHandler (config p)) of
           (Ret _, _) \<Rightarrow> (w, [])
         | (Panic v, None) \<Rightarrow> (w, [WorkerPanic v])
         | (Panic v, Some handler) \<Rightarrow>
             (snd (handler (Some task) v w), case fst (handler (Some task) v w) of Ret _ \<Rightarrow> [] | Panic u \<Rightarrow> [PanicHandlerPanicked u]))"
  shows "\<exists>q. runTask env (Some task) p = Some q \<and> pendingTasks q = pendingTasks p - 1 \<and> consumeCount q = consumeCount p + 1 \<and>
           world q = (fst (fst reported) @ [Completed (hook_ctx env task) (case r of Ret _ \<Rightarrow> None | Panic v \<Rightarrow> Some v)], snd (fst reported)) \<and>
           poolLog q = poolLog p @
             (case faulty (Started (hook_ctx env task)) of None \<Rightarrow> [] | Some v \<Rightarrow> [HookDispatchPanicked v]) @
             snd reported @
             (case faulty (Completed (hook_ctx env task) (case r of Ret _ \<Rightarrow> None | Panic v \<Rightarrow> Some v)) of
                None \<Rightarrow> [] | Some v \<Rightarrow> [HookDispatchPanicked v])"
  using assms
  by (cases r; cases "faulty (Started (hook_ctx env task))"; cases "panicHandler (config p)")
    (auto simp: runTask_def Let_def dispatchHook_def observe_def task_ctx_def process_task_def recover_task_def
      handlePanic_def pool_done_pending split: option.splits outcome.splits prod.splits)

theorem runTask_settles_once_witness:
  "\<exists>(p :: example_pool) q. runTask example_env (Some (TaskFunc (Some 13))) p = Some q \<and>
     panicHandler (config p) = Some (\<lambda>t v (evs, out). (Panic 9, (evs, out @ [v]))) \<and>
     world q = ([Started 0, Completed 0 (Some 13)], [13, 13]) \<and>
     poolLog q = [HookDispatchPanicked 3, PanicHandlerPanicked 9, HookDispatchPanicked 3]"
proof -
  let ?h = "Some (\<lambda>t v (evs, out). (Panic 9, (evs, out @ [v])))"
  obtain m and p :: example_pool where p: "NewPool 8 None ([], []) = Some p"
    using NewPool_default [of "([], []) :: example_world", where 'f = nat and 'b = unit and 'c = nat and 'v = nat] by auto
  let ?p = "p\<lparr>config := WithPanicHandler ?h (config p)\<rparr>"
  let ?q = "SetHook (Some (observer (\<lambda>e. Some (3::nat)))) ?p"
  have q: "hooks ?q = Some (observer (\<lambda>e. Some 3))" "panicHandler (config ?q) = ?h" "world ?q = ([], [])" "poolLog ?q = []"
    using p by (auto simp: NewPool_def Let_def SetHook_def NewConfig_def WithPanicHandler_def split: option.splits)
  have run: "process example_env (TaskFunc (Some 13)) (fst (world ?q) @ [Started (hook_ctx example_env (TaskFunc (Some 13)))], snd (world ?q)) =
      (Panic 13, ([Started 0], [13]))"
    using q(3) by (simp add: hook_ctx_def example_env_def drop_error_def call_fn_def)
  show ?thesis
    using runTask_settles_once [OF q(1) _ run refl] q(2-4) by (fastforce simp: hook_ctx_def example_env_def)
qed

end
