(* ===== verification/Scaler.thy ===== *)
theory Scaler
  imports Worker
begin

text \<open>
  The rate sampler and the scaler of \<^verbatim>\<open>pool.go\<close>: how many workers a scaler tick starts,
  from the medians of the rate histograms, the backlog and the capacity, in binary64 and
  \<^verbatim>\<open>int64\<close> arithmetic. Products and sums are rounded one by one, as on processors
  where Go does not fuse them. \<open>oor\<close> is the conversion of a \<^verbatim>\<open>float64\<close> outside the
  range of \<^verbatim>\<open>int64\<close>, which Go leaves to the implementation; \<open>now\<close> is what
  \<^verbatim>\<open>time.Now\<close> returns.
\<close>

section \<open>Sampling\<close>

definition sampleRates :: "('f, 'b, 'c, 'v, 'w) Pool \<Rightarrow> ('f, 'b, 'c, 'v, 'w) Pool option" where
  "sampleRates p =
     (let sub = submitCount p; con = consumeCount p; ext = exitCount p;
          p1 = p\<lparr>submitCount := 0, consumeCount := 0, exitCount := 0\<rparr>
      in case hist_add (submitHist p1) sub of
           None \<Rightarrow> None
         | Some hs \<Rightarrow>
             (case hist_add (consumeHist p1) con of
                None \<Rightarrow> None
              | Some hc \<Rightarrow>
                  (case hist_add (exitHist p1) ext of
                     None \<Rightarrow> None
                   | Some he \<Rightarrow> Some (p1\<lparr>submitHist := hs, consumeHist := hc, exitHist := he\<rparr>))))"

text \<open>One tick of \<^verbatim>\<open>statsSampler\<close>; the result says whether the goroutine ends.\<close>

definition statsSampler :: "('f, 'b, 'c, 'v, 'w) Pool \<Rightarrow> (bool \<times> ('f, 'b, 'c, 'v, 'w) Pool) option" where
  "statsSampler p = map_option (\<lambda>q. (closed q \<and> pendingTasks q = 0, q)) (sampleRates p)"

definition getMedianRates :: "('f, 'b, 'c, 'v, 'w) Pool \<Rightarrow> (float64 \<times> float64 \<times> float64) option" where
  "getMedianRates p =
     (case median (submitHist p) of
        None \<Rightarrow> None
      | Some s \<Rightarrow>
          (case median (consumeHist p) of
             None \<Rightarrow> None
           | Some c \<Rightarrow> map_option (\<lambda>e. (s, c, e)) (median (exitHist p))))"

section \<open>The target\<close>

definition rate_target :: "(float64 \<Rightarrow> int) \<Rightarrow> float64 \<Rightarrow> float64 \<Rightarrow> int \<Rightarrow> int" where
  "rate_target oor submitMed consumeMed running =
     (if 0 < running \<and> f_less (Fin 0) consumeMed \<and> f_less (Fin 0) submitMed
      then f_int64 oor (f_div (f_mul submitMed (f_of_int running)) consumeMed) else 0)"

definition bufPressure :: "int \<Rightarrow> float64 \<Rightarrow> float64" where
  "bufPressure bufDepth consumeMed =
     f_min (Fin 1) (f_mul (f_div (f_of_int bufDepth) consumeMed) (fl (15 / 100)))"

definition dynamicDecay :: "float64 \<Rightarrow> float64 \<Rightarrow> float64" where
  "dynamicDecay decay pressure = f_add decay (f_mul (f_sub (Fin 1) decay) pressure)"

definition backlog_target ::
  "(float64 \<Rightarrow> int) \<Rightarrow> float64 \<Rightarrow> float64 \<Rightarrow> float64 \<Rightarrow> int \<Rightarrow> int \<Rightarrow> int \<Rightarrow> int" where
  "backlog_target oor decay submitMed consumeMed bufDepth totalBacklog running =
     (let dd = dynamicDecay decay (bufPressure bufDepth consumeMed);
          effectiveSubmit = f_add submitMed (f_mul (f_of_int totalBacklog) dd)
      in f_int64 oor (f_div (f_mul effectiveSubmit (f_of_int running)) consumeMed))"

text \<open>The growth step of the zero-consume fallback.\<close>

definition zero_consume_growth :: "int \<Rightarrow> int \<Rightarrow> int \<Rightarrow> int \<Rightarrow> int" where
  "zero_consume_growth queued running step room = min (min (min queued (max 1 running)) step) room"

text \<open>The target before it is bounded, and the time of the last zero-consume growth.\<close>

definition scale_target ::
  "(float64 \<Rightarrow> int) \<Rightarrow> time \<Rightarrow> float64 \<Rightarrow> float64 \<Rightarrow> ('f, 'b, 'c, 'v, 'w) Pool \<Rightarrow> int \<times> time" where
  "scale_target oor now submitMed consumeMed p =
     (let running = runningWorkersNum p; totalBacklog = pendingTasks p;
          target = rate_target oor submitMed consumeMed running
      in if 0 < totalBacklog then
           if running = 0 then (totalBacklog, lastZeroConsumeScale p)
           else if f_less (Fin 0) consumeMed then
             (let qTarget = backlog_target oor (backlogDecayFactor (config p)) submitMed consumeMed
                    (buffer_Len (taskBuf p)) totalBacklog running
              in (if target < qTarget then qTarget else target, lastZeroConsumeScale p))
           else
             (let queued = queuedTasks p; room = wrap64 (capacity p - running)
              in if 0 < queued \<and> 0 < room \<and>
                    zeroConsumeScaleInterval (config p) \<le> time_Sub now (lastZeroConsumeScale p)
                 then (wrap64 (running + zero_consume_growth queued running (maxZeroConsumeScaleStep (config p)) room), now)
                 else (target, lastZeroConsumeScale p))
         else (target, lastZeroConsumeScale p))"

definition clamp_target :: "int \<Rightarrow> int \<Rightarrow> int \<Rightarrow> int" where
  "clamp_target totalBacklog cap target =
     (let t = (if totalBacklog < target then totalBacklog else target) in if cap < t then cap else t)"

definition exitPerTick :: "(float64 \<Rightarrow> int) \<Rightarrow> float64 \<Rightarrow> 'h Config \<Rightarrow> int" where
  "exitPerTick oor exitMed c =
     f_int64 oor (f_div (f_mul exitMed (f_of_int (scalerPeriod c))) (f_of_int (statsSamplePeriod c)))"

text \<open>The number of workers to start; 0 where \<^verbatim>\<open>scaleIfNeeded\<close> returns before it takes the lock.\<close>

definition toSpawn :: "(float64 \<Rightarrow> int) \<Rightarrow> float64 \<Rightarrow> 'h Config \<Rightarrow> int \<Rightarrow> int \<Rightarrow> int \<Rightarrow> int" where
  "toSpawn oor exitMed c cap running target =
     (if target \<le> running then 0
      else
        (let n = wrap64 (target - running); e = exitPerTick oor exitMed c;
             n1 = (if 0 < e then wrap64 (n + e) else n);
             maxSpawn = wrap64 (cap - running);
             n2 = (if maxSpawn < n1 then maxSpawn else n1)
         in if n2 \<le> 0 then 0 else n2))"

text \<open>The check that is repeated under the lock, on the count read there.\<close>

definition actualSpawn :: "int \<Rightarrow> int \<Rightarrow> int \<Rightarrow> int" where
  "actualSpawn cap currentRunning n =
     (let a = wrap64 (cap - currentRunning) in if n < a then n else a)"

section \<open>Starting the workers\<close>

fun spawn_loop :: "nat \<Rightarrow> ('f, 'b, 'c, 'v, 'w) Pool \<Rightarrow> ('f, 'b, 'c, 'v, 'w) Pool option" where
  "spawn_loop 0 p = Some p"
| "spawn_loop (Suc n) p =
     (case idle_Pop (idleWorks p) of
        None \<Rightarrow> None
      | Some (Some w, c) \<Rightarrow> spawn_loop n (startWorker w (p\<lparr>idleWorks := c\<rparr>))
      | Some (None, c) \<Rightarrow>
          (let (w, p1) = workerPool_Get (p\<lparr>idleWorks := c\<rparr>) in spawn_loop n (startWorker w p1)))"

definition scaleIfNeeded ::
  "(float64 \<Rightarrow> int) \<Rightarrow> time \<Rightarrow> ('f, 'b, 'c, 'v, 'w) Pool \<Rightarrow> ('f, 'b, 'c, 'v, 'w) Pool option" where
  "scaleIfNeeded oor now p =
     (case getMedianRates p of
        None \<Rightarrow> None
      | Some (submitMed, consumeMed, exitMed) \<Rightarrow>
          (let running = runningWorkersNum p;
               (t, lz) = scale_target oor now submitMed consumeMed p;
               p1 = p\<lparr>lastZeroConsumeScale := lz\<rparr>;
               target = clamp_target (pendingTasks p) (capacity p) t;
               n = toSpawn oor exitMed (config p) (capacity p) running target
           in if n = 0 then Some p1
              else
                (let a = actualSpawn (capacity p1) (runningWorkersNum p1) n in
                 if a \<le> 0 then Some p1 else spawn_loop (nat a) (addRunningWorkersNum a p1))))"

text \<open>One tick of \<^verbatim>\<open>scaler\<close>; the result says whether the goroutine ends.\<close>

definition scaler ::
  "(float64 \<Rightarrow> int) \<Rightarrow> time \<Rightarrow> ('f, 'b, 'c, 'v, 'w) Pool \<Rightarrow> (bool \<times> ('f, 'b, 'c, 'v, 'w) Pool) option" where
  "scaler oor now p = map_option (\<lambda>q. (closed q \<and> pendingTasks q = 0, q)) (scaleIfNeeded oor now p)"

section \<open>The medians\<close>

definition hists_ok :: "('f, 'b, 'c, 'v, 'w) Pool \<Rightarrow> bool" where
  "hists_ok p \<longleftrightarrow> (\<exists>w xs ys zs. hist_rep submitBuckets w (submitHist p) xs \<and>
     hist_rep consumeBuckets w (consumeHist p) ys \<and> hist_rep exitBuckets w (exitHist p) zs)"

lemma half_float:
  assumes "0 \<le> n" and "n < 2 ^ 53"
  shows "\<exists>c\<ge>0. fl (of_int n / 2) = Fin c"
  using fl_between [of "of_int n / 2" "of_int n" 0] is_float_of_int [of n] assms by auto

lemma bucket_mid_float:
  assumes "default_table bs" and "b \<in> set bs"
  shows "\<exists>c\<ge>0. bucket_mid b = Fin c"
proof -
  have b: "0 \<le> low b" "low b \<le> 10001" "high b \<le> 10000" "high b = - 1 \<or> low b \<le> high b"
    using assms by (auto simp: default_table_def submitBuckets_def consumeBuckets_def exitBuckets_def)
  show ?thesis
  proof (cases "high b = - 1")
    case True
    then show ?thesis using b by (simp add: bucket_mid_def f_of_int_exact)
  next
    case False
    then have "int64_range (low b + high b)" "\<bar>low b + high b\<bar> < 2 ^ 53" using b by (simp_all add: int64_range_def)
    then show ?thesis using False b half_float [of "low b + high b"] by (simp add: bucket_mid_def f_of_int_exact)
  qed
qed

lemma median_float:
  assumes "default_table bs" and "hist_rep bs w h xs"
  shows "\<exists>c\<ge>0. median h = Some (Fin c)"
proof (cases "xs = []")
  case True
  then show ?thesis using assms(2) by (simp add: median_def hist_rep_def)
next
  case False
  let ?x = "sort xs ! (length xs div 2)"
  have "length xs div 2 < length (sort xs)" using False by (cases xs) simp_all
  then have "?x \<in> set xs" using nth_mem set_sort by metis
  then have "nat ?x < length bs" using assms(2) by (auto simp: hist_rep_def)
  then show ?thesis using bucket_mid_float [OF assms(1) nth_mem] median_window [OF assms(2) False] by auto
qed

lemma getMedianRates_ok:
  assumes "hists_ok p"
  obtains s c e where "getMedianRates p = Some (Fin s, Fin c, Fin e)" and "0 \<le> s" and "0 \<le> c" and "0 \<le> e"
proof -
  have "default_table submitBuckets" "default_table consumeBuckets" "default_table exitBuckets"
    by (simp_all add: default_table_def)
  then obtain s c e where "median (submitHist p) = Some (Fin s)" "median (consumeHist p) = Some (Fin c)"
    "median (exitHist p) = Some (Fin e)" "0 \<le> s" "0 \<le> c" "0 \<le> e"
    using assms median_float unfolding hists_ok_def by metis
  then show thesis using that by (simp add: getMedianRates_def)
qed

lemma sampleRates_ok:
  assumes "hists_ok p"
  shows "\<exists>hs hc he. sampleRates p = Some (p\<lparr>submitCount := 0, consumeCount := 0, exitCount := 0,
           submitHist := hs, consumeHist := hc, exitHist := he\<rparr>) \<and>
           hist_add (submitHist p) (submitCount p) = Some hs \<and> hist_add (consumeHist p) (consumeCount p) = Some hc \<and>
           hist_add (exitHist p) (exitCount p) = Some he \<and>
           hists_ok (p\<lparr>submitHist := hs, consumeHist := hc, exitHist := he\<rparr>)"
proof -
  obtain w xs ys zs where r: "hist_rep submitBuckets w (submitHist p) xs" "hist_rep consumeBuckets w (consumeHist p) ys"
    "hist_rep exitBuckets w (exitHist p) zs"
    using assms by (auto simp: hists_ok_def)
  obtain hs hc he where "hist_add (submitHist p) (submitCount p) = Some hs" "hist_add (consumeHist p) (consumeCount p) = Some hc"
    "hist_add (exitHist p) (exitCount p) = Some he" and "hists_ok (p\<lparr>submitHist := hs, consumeHist := hc, exitHist := he\<rparr>)"
    using hist_add_rep [OF r(1), of "submitCount p"] hist_add_rep [OF r(2), of "consumeCount p"]
      hist_add_rep [OF r(3), of "exitCount p"] by (fastforce simp: hists_ok_def)
  then show ?thesis by (auto simp: sampleRates_def Let_def)
qed

section \<open>The number of workers started\<close>

lemma toSpawn_bounds:
  assumes "0 \<le> running" and "running \<le> cap" and "cap \<le> MaxInt64"
  shows "0 \<le> toSpawn oor exitMed c cap running target" and "toSpawn oor exitMed c cap running target \<le> cap - running"
proof -
  have "wrap64 (cap - running) = cap - running" using assms by (intro wrap64_id) (simp add: int64_range_def)
  then show "0 \<le> toSpawn oor exitMed c cap running target" "toSpawn oor exitMed c cap running target \<le> cap - running"
    using assms by (simp_all add: toSpawn_def Let_def)
qed

lemma toSpawn_zero: "target \<le> running \<Longrightarrow> toSpawn oor exitMed c cap running target = 0"
  by (simp add: toSpawn_def)

lemma toSpawn_value:
  assumes "0 \<le> running" and "running < target" and "target \<le> cap" and "cap \<le> MaxInt64"
    and "target - running + exitPerTick oor exitMed c \<le> MaxInt64"
  shows "toSpawn oor exitMed c cap running target =
           min (target - running + max 0 (exitPerTick oor exitMed c)) (cap - running)"
proof -
  let ?e = "exitPerTick oor exitMed c"
  have w: "wrap64 (cap - running) = cap - running" "wrap64 (target - running) = target - running"
    "0 < ?e \<Longrightarrow> wrap64 (target - running + ?e) = target - running + ?e"
    using assms by (auto simp: int64_range_def intro!: wrap64_id)
  show ?thesis
    using assms by (cases "0 < ?e") (auto simp: toSpawn_def Let_def w)
qed

lemma actualSpawn_id:
  assumes "0 \<le> running" and "running \<le> cap" and "cap \<le> MaxInt64" and "n \<le> cap - running"
  shows "actualSpawn cap running n = n"
proof -
  have "wrap64 (cap - running) = cap - running" using assms by (intro wrap64_id) (simp add: int64_range_def)
  then show ?thesis using assms by (auto simp: actualSpawn_def Let_def)
qed

text \<open>The pools the scaler works on.\<close>

definition scale_ok :: "('f, 'b, 'c, 'v, 'w) Pool \<Rightarrow> bool" where
  "scale_ok p \<longleftrightarrow> hists_ok p \<and> idle_invar (idleWorks p) \<and> capacity p \<le> MaxInt64 \<and>
     0 \<le> runningWorkersNum p \<and> runningWorkersNum p \<le> capacity p"

lemma scaleIfNeeded_eq:
  assumes "scale_ok p" and "getMedianRates p = Some (s, c, e)"
    and "scale_target oor now s c p = (t, lz)"
    and n: "n = toSpawn oor e (config p) (capacity p) (runningWorkersNum p) (clamp_target (pendingTasks p) (capacity p) t)"
  shows "scaleIfNeeded oor now p =
           spawn_loop (nat n) (p\<lparr>lastZeroConsumeScale := lz, runningWorkersNum := runningWorkersNum p + n\<rparr>)"
proof -
  have b: "0 \<le> n" "n \<le> capacity p - runningWorkersNum p"
    using assms(1) toSpawn_bounds unfolding scale_ok_def n by blast+
  then have "actualSpawn (capacity p) (runningWorkersNum p) n = n" using actualSpawn_id assms(1) by (simp add: scale_ok_def)
  then show ?thesis
    using b assms(2,3) by (simp add: scaleIfNeeded_def Let_def addRunningWorkersNum_def flip: n)
qed

section \<open>The workers that are started\<close>

text \<open>
  \<open>n\<close> workers are started: those that were idle first, new ones only when none is left.
  Nothing else of the pool changes.
\<close>

definition spawned :: "nat \<Rightarrow> ('f, 'b, 'c, 'v, 'w) Pool \<Rightarrow> ('f, 'b, 'c, 'v, 'w) Pool \<Rightarrow> bool" where
  "spawned n p q \<longleftrightarrow> (\<exists>c ws R.
     q = p\<lparr>idleWorks := c, workerSeq := workerSeq p + of_nat n, started := started p @ ws,
           workerCreateCount := workerCreateCount p + int (n - size R)\<rparr> \<and>
     idle_invar c \<and> length ws = n \<and> idle_elems (idleWorks p) = idle_elems c + R \<and>
     size R = min n (size (idle_elems (idleWorks p))) \<and> image_mset wid R \<subseteq># mset (map wid ws))"

lemma spawn_loop_ok:
  assumes "idle_invar (idleWorks p)"
  shows "\<exists>q. spawn_loop n p = Some q \<and> spawned n p q"
  using assms
proof (induction n arbitrary: p)
  case 0
  then show ?case
    unfolding spawned_def by (auto intro!: exI [of _ "idleWorks p"] exI [of _ "[]"] exI [of _ "{#}"])
next
  case (Suc n)
  show ?case
  proof (cases "idle_elems (idleWorks p) = {#}")
    case True
    let ?w = "\<lparr>wid = nat (workerCreateCount p), lastActiveAt = 0, cursor = (workerSeq p + 1) AND shardMask p\<rparr>"
    let ?p1 = "p\<lparr>workerCreateCount := workerCreateCount p + 1, workerSeq := workerSeq p + 1, started := started p @ [?w]\<rparr>"
    have "idle_Pop (idleWorks p) = Some (None, idleWorks p)" using works.pop_none Suc.prems True by blast
    then have e: "spawn_loop (Suc n) p = spawn_loop n ?p1"
      by (simp add: workerPool_Get_def startWorker_def Let_def)
    obtain q where q: "spawn_loop n ?p1 = Some q" "spawned n ?p1 q" using Suc.IH [of ?p1] Suc.prems by auto
    then obtain c ws R where r: "q = ?p1\<lparr>idleWorks := c, workerSeq := workerSeq ?p1 + of_nat n, started := started ?p1 @ ws,
        workerCreateCount := workerCreateCount ?p1 + int (n - size R)\<rparr>" "idle_invar c" "length ws = n"
        "idle_elems (idleWorks ?p1) = idle_elems c + R" "size R = min n (size (idle_elems (idleWorks ?p1)))"
        "image_mset wid R \<subseteq># mset (map wid ws)"
      unfolding spawned_def by blast
    then have "R = {#}" using True by simp
    then have "spawned (Suc n) p q" unfolding spawned_def using r True
      by (intro exI [of _ c] exI [of _ "?w # ws"] exI [of _ R]) (simp add: ac_simps)
    then show ?thesis using e q(1) by simp
  next
    case False
    obtain w c1 where w: "idle_Pop (idleWorks p) = Some (Some w, c1)" "idle_invar c1"
      "idle_elems (idleWorks p) = add_mset w (idle_elems c1)"
      using works.pop_some [OF Suc.prems False] by blast
    let ?w = "w\<lparr>cursor := (workerSeq p + 1) AND shardMask p\<rparr>"
    let ?p1 = "p\<lparr>idleWorks := c1, workerSeq := workerSeq p + 1, started := started p @ [?w]\<rparr>"
    have e: "spawn_loop (Suc n) p = spawn_loop n ?p1" using w by (simp add: startWorker_def Let_def)
    obtain q where q: "spawn_loop n ?p1 = Some q" "spawned n ?p1 q" using Suc.IH [of ?p1] w(2) by auto
    then obtain c ws R where r: "q = ?p1\<lparr>idleWorks := c, workerSeq := workerSeq ?p1 + of_nat n, started := started ?p1 @ ws,
        workerCreateCount := workerCreateCount ?p1 + int (n - size R)\<rparr>" "idle_invar c" "length ws = n"
        "idle_elems (idleWorks ?p1) = idle_elems c + R" "size R = min n (size (idle_elems (idleWorks ?p1)))"
        "image_mset wid R \<subseteq># mset (map wid ws)"
      unfolding spawned_def by blast
    have "spawned (Suc n) p q" unfolding spawned_def using r w(3)
      by (intro exI [of _ c] exI [of _ "?w # ws"] exI [of _ "add_mset w R"]) (simp add: ac_simps)
    then show ?thesis using e q(1) by simp
  qed
qed

section \<open>The pressure and the decay\<close>

fun nonneg_float :: "float64 \<Rightarrow> bool" where
  "nonneg_float (Fin r) \<longleftrightarrow> 0 \<le> r"
| "nonneg_float (Inf b) \<longleftrightarrow> b"
| "nonneg_float NaN \<longleftrightarrow> False"

lemma fl_nonneg: "0 \<le> x \<Longrightarrow> nonneg_float (fl x)"
proof (cases "x = 0")
  case False
  assume "0 \<le> x"
  then have "0 < x" using False by simp
  then show ?thesis using fl_round [of x] fl_round_ge [of x 0] by simp
qed simp

lemma fl_15_pos: "\<exists>r>0. fl (15 / 100) = Fin r"
proof -
  have "is_float (of_int 1 * 2 powi (- 3))" by (rule is_float_exact) (simp_all add: power_int_def power_divide)
  then have "is_float (1 / 8)" by (simp add: power_int_def power_divide)
  then show ?thesis using fl_between [of "15 / 100" 1 "1 / 8"] by force
qed

lemma bufPressure_unit:
  assumes "0 \<le> bufDepth" and "0 < c"
  shows "unit_float (bufPressure bufDepth (Fin c))"
proof -
  obtain r where r: "0 < r" "fl (15 / 100) = Fin r" using fl_15_pos by blast
  have "nonneg_float (f_of_int bufDepth)" using assms(1) fl_nonneg by (simp add: f_of_int_def)
  then have "nonneg_float (f_div (f_of_int bufDepth) (Fin c))"
    using assms(2) fl_nonneg by (cases "f_of_int bufDepth") simp_all
  then have "nonneg_float (f_mul (f_div (f_of_int bufDepth) (Fin c)) (Fin r))"
    using r(1) fl_nonneg by (cases "f_div (f_of_int bufDepth) (Fin c)") simp_all
  then show ?thesis
    unfolding bufPressure_def r(2)
    by (cases "f_mul (f_div (f_of_int bufDepth) (Fin c)) (Fin r)") (auto simp: f_min_def)
qed

text \<open>Rounding a positive number below 2 is off by at most half a unit in the last place.\<close>

lemma fl_round_error:
  assumes "0 < x" and "x < 2 powi k" and "- 1021 \<le> k"
  shows "\<bar>fl_round x - x\<bar> \<le> 2 powi (k - 54)"
proof -
  let ?u = "2 powi (ulp_exp x) :: rat"
  have "2 powi (fl_exp x) \<le> x" using fl_exp_bounds [of x] assms(1) by simp
  then have "fl_exp x < k" using assms(2) powi2_less_iff [of "fl_exp x" k] by (meson le_less_trans)
  then have u: "?u \<le> 2 powi (k - 53)" using assms(3) by (intro powi2_le) simp
  have "\<bar>of_int (round_even (x / ?u)) - x / ?u\<bar> * ?u \<le> 1 / 2 * ?u"
    by (intro mult_right_mono round_even_error) simp
  moreover have "\<bar>of_int (round_even (x / ?u)) - x / ?u\<bar> * ?u = \<bar>fl_round x - x\<bar>"
    by (subst abs_mult_pos) (simp_all add: fl_round_def left_diff_distrib less_imp_le)
  moreover have "1 / 2 * (2 powi (k - 53)) = (2 powi (k - 54) :: rat)"
    using power_int_add [of "2 :: rat" "k - 54" 1] by simp
  ultimately show ?thesis using u by simp
qed

lemma round_even_down:
  assumes "of_int n \<le> x" and "x \<le> of_int n + 1 / 2" and "even n"
  shows "round_even x = n"
proof -
  have "\<lfloor>x\<rfloor> = n" using assms(1,2) by (intro floor_unique) linarith+
  then show ?thesis using assms by (auto simp: round_even_def Let_def)
qed

lemma fl_near_1:
  assumes "0 \<le> x" and "x \<le> 1 + 2 powi (- 53)"
  shows "\<exists>r\<le>1. fl x = Fin r"
proof (cases "x \<le> 1")
  case True
  then show ?thesis using fl_between [of x 1 0] assms(1) by auto
next
  case False
  let ?u = "2 powi (- 52) :: rat"
  have e: "fl_exp x = 0" by (rule fl_exp_unique) (use False assms(2) in \<open>simp_all add: power_int_def power_divide\<close>)
  have "x / ?u \<le> of_int (2 ^ 52) + 1 / 2" "of_int (2 ^ 52) < x / ?u"
    using False assms(2) by (simp_all add: power_int_def field_simps)
  then have "round_even (x / ?u) = 2 ^ 52" by (intro round_even_down) simp_all
  then have "fl_round x = 1" by (simp add: fl_round_def e power_int_def power_divide)
  then show ?thesis using fl_round [of x] False by simp
qed

lemma fl_error_le1:
  assumes "0 \<le> x" and "x \<le> 1"
  shows "\<exists>r. fl x = Fin r \<and> 0 \<le> r \<and> r \<le> 1 \<and> r \<le> x + 2 powi (- 54)"
proof (cases "0 < x \<and> x < 1")
  case True
  obtain r where r: "fl x = Fin r" "0 \<le> r" "r \<le> 1" using fl_between [of x 1 0] assms by auto
  have "fl_round x = r" using True r(1) fl_round [of x] by (auto split: if_splits)
  moreover have "\<bar>fl_round x - x\<bar> \<le> 2 powi (- 54)" using fl_round_error [of x 0] True by simp
  ultimately have "r \<le> x + 2 powi (- 54)" by linarith
  then show ?thesis using r by blast
next
  case False
  then have "x = 0 \<or> x = 1" using assms by auto
  then show ?thesis using is_float_1 by (auto simp: is_float_def power_int_def)
qed

lemma dynamicDecay_between:
  assumes "is_float d" and "0 \<le> d" and "d \<le> 1" and "unit_float pr"
  shows "\<exists>r. dynamicDecay (Fin d) pr = Fin r \<and> d \<le> r \<and> r \<le> 1"
proof -
  obtain p where p: "pr = Fin p" "0 \<le> p" "p \<le> 1" using assms(4) by (cases pr) auto
  obtain a where a: "fl (1 - d) = Fin a" "0 \<le> a" "a \<le> 1" "a \<le> 1 - d + 2 powi (- 54)"
    using fl_error_le1 [of "1 - d"] assms by auto
  have ap: "0 \<le> a * p" "a * p \<le> a" using a(2) p mult_left_le [of p a] by simp_all
  then obtain b where b: "fl (a * p) = Fin b" "0 \<le> b" "b \<le> a * p + 2 powi (- 54)"
    using fl_error_le1 [of "a * p"] a(3) by auto
  have "2 powi (- 54) + 2 powi (- 54) = (2 powi (- 53) :: rat)" by (simp add: power_int_def power_divide)
  then have "d + b \<le> 1 + 2 powi (- 53)" using b(3) ap(2) a(4) by linarith
  then obtain r where r: "fl (d + b) = Fin r" "r \<le> 1" using fl_near_1 [of "d + b"] assms(2) b(2) by auto
  have "d \<le> r"
  proof (cases "d + b = 0")
    case True
    then show ?thesis using r(1) assms(2) b(2) by auto
  next
    case False
    then have pos: "0 < d + b" using assms(2) b(2) by simp
    then have "fl_round (d + b) = r" using r(1) fl_round [of "d + b"] by (auto split: if_splits)
    then show ?thesis using fl_round_ge [OF pos, of d] assms(1) b(2) by simp
  qed
  then show ?thesis using r a(1) b(1) p(1) by (simp add: dynamicDecay_def f_sub_def)
qed

section \<open>What a tick does\<close>

abbreviation rescaled :: "('f, 'b, 'c, 'v, 'w) Pool \<Rightarrow> time \<Rightarrow> nat \<Rightarrow> ('f, 'b, 'c, 'v, 'w) Pool" where
  "rescaled p lz n \<equiv> p\<lparr>lastZeroConsumeScale := lz, runningWorkersNum := runningWorkersNum p + int n\<rparr>"

lemma clamp_target_le: "clamp_target b cap t \<le> cap" "clamp_target b cap t \<le> b"
  by (simp_all add: clamp_target_def Let_def)

lemma clamp_target_min: "clamp_target b cap t = min (min t b) cap"
  by (simp add: clamp_target_def Let_def)

lemma scaleIfNeeded_spawned:
  assumes "scale_ok p" and "getMedianRates p = Some (s, c, e)" and "scale_target oor now s c p = (t, lz)"
    and "n = toSpawn oor e (config p) (capacity p) (runningWorkersNum p) (clamp_target (pendingTasks p) (capacity p) t)"
  shows "\<exists>q. scaleIfNeeded oor now p = Some q \<and> spawned (nat n) (rescaled p lz (nat n)) q"
proof -
  have "0 \<le> n" using assms(1) toSpawn_bounds(1) unfolding scale_ok_def assms(4) by blast
  then show ?thesis
    using scaleIfNeeded_eq [OF assms] spawn_loop_ok [of "rescaled p lz (nat n)" "nat n"] assms(1)
    by (simp add: scale_ok_def)
qed

lemma spawned_eq:
  assumes "spawned n p q"
  obtains c ws k where "q = p\<lparr>idleWorks := c, workerSeq := workerSeq p + of_nat n, started := started p @ ws,
    workerCreateCount := workerCreateCount p + k\<rparr>" and "idle_invar c" and "length ws = n"
  using assms unfolding spawned_def by blast

lemma spawned_running: "spawned n p q \<Longrightarrow> runningWorkersNum q = runningWorkersNum p"
  by (erule spawned_eq) simp

lemma spawned_lastZero: "spawned n p q \<Longrightarrow> lastZeroConsumeScale q = lastZeroConsumeScale p"
  by (erule spawned_eq) simp

section \<open>Properties\<close>

text \<open>
  C16. A scaler tick neither panics nor exceeds the capacity: from a pool with at most
  \<^verbatim>\<open>capacity\<close> running workers it adds some number \<open>n\<close> to the running count, at most up to
  the capacity, and starts exactly \<open>n\<close> goroutines, on idle workers as long as there are any
  and on new ones only then; each idle worker it uses leaves the idle container. When there
  are already as many workers as pending tasks it starts none.
\<close>

theorem scaler_respects_capacity:
  assumes "scale_ok p"
  shows "\<exists>q n lz. scaleIfNeeded oor now p = Some q \<and> spawned n (rescaled p lz n) q \<and>
           runningWorkersNum q = runningWorkersNum p + int n \<and> runningWorkersNum q \<le> capacity p \<and>
           (pendingTasks p \<le> runningWorkersNum p \<longrightarrow> n = 0)"
proof -
  obtain s c e where m: "getMedianRates p = Some (s, c, e)" using getMedianRates_ok assms unfolding scale_ok_def by metis
  obtain t lz where t: "scale_target oor now s c p = (t, lz)" by fastforce
  define n where "n = toSpawn oor e (config p) (capacity p) (runningWorkersNum p) (clamp_target (pendingTasks p) (capacity p) t)"
  have n: "0 \<le> n" "n \<le> capacity p - runningWorkersNum p"
    using assms toSpawn_bounds unfolding scale_ok_def n_def by blast+
  have "pendingTasks p \<le> runningWorkersNum p \<Longrightarrow> n = 0"
    unfolding n_def using clamp_target_le(2) [of "pendingTasks p" "capacity p" t] by (intro toSpawn_zero) linarith
  then show ?thesis
    using scaleIfNeeded_spawned [OF assms m t n_def] spawned_running [of "nat n" "rescaled p lz (nat n)"] n by fastforce
qed

lemma stranded_rescued:
  assumes "scale_ok p" and "runningWorkersNum p = 0" and "0 < pendingTasks p" and "0 < capacity p"
    and "getMedianRates p = Some (s, c, e)" and "pendingTasks p + exitPerTick oor e (config p) \<le> MaxInt64"
  shows "\<exists>q n lz. scaleIfNeeded oor now p = Some q \<and> spawned n (rescaled p lz n) q \<and>
           min (pendingTasks p) (capacity p) \<le> runningWorkersNum q \<and> runningWorkersNum q \<le> capacity p"
proof -
  note m = assms(5)
  let ?t = "pendingTasks p" and ?T = "clamp_target (pendingTasks p) (capacity p) (pendingTasks p)"
  let ?x = "exitPerTick oor e (config p)"
  have t: "scale_target oor now s c p = (?t, lastZeroConsumeScale p)" using assms(2,3) by (simp add: scale_target_def Let_def)
  define n where "n = toSpawn oor e (config p) (capacity p) (runningWorkersNum p) ?T"
  have "?T = min (pendingTasks p) (capacity p)" by (simp add: clamp_target_min)
  then have n: "n = min (?T + max 0 ?x) (capacity p)" "?T = min (pendingTasks p) (capacity p)"
    using toSpawn_value [of 0 ?T "capacity p" oor e "config p"] assms by (auto simp: n_def scale_ok_def)
  then have "0 \<le> n" "?T \<le> n" "n \<le> capacity p" using assms(3,4) by auto
  then show ?thesis
    using scaleIfNeeded_spawned [OF assms(1) m t n_def] spawned_running n(2) assms(2) by fastforce
qed

text \<open>
  C17. No task is stranded: when tasks are pending but no worker runs, the next tick starts
  at least as many workers as there are pending tasks, or up to the capacity. (The rate of
  exits must not overflow the sum, which takes sampling periods beyond any practical ones.)
\<close>

theorem scaler_rescues_stranded_tasks:
  assumes "scale_ok p" and "runningWorkersNum p = 0" and "0 < pendingTasks p" and "0 < capacity p"
    and "getMedianRates p = Some (s, c, e)" and "pendingTasks p + exitPerTick oor e (config p) \<le> MaxInt64"
  shows "\<exists>q n lz. scaleIfNeeded oor now p = Some q \<and> spawned n (rescaled p lz n) q \<and>
           min (pendingTasks p) (capacity p) \<le> runningWorkersNum q \<and> runningWorkersNum q \<le> capacity p"
  by (rule stranded_rescued [OF assms])

lemma NewPool_scale_ok:
  assumes "config_valid c" and "NewPool procs (Some c) w = Some p"
  shows "scale_ok p" and "capacity p = workerNumCapacity c" and "0 < capacity p"
    and "getMedianRates p = Some (Fin 0, Fin 0, Fin 0)"
proof -
  obtain n where n: "resolveTaskQueueShards procs c = Some n" using assms(2) by (auto simp: NewPool_def split: option.splits)
  have h: "submitHist p = newHistogram submitBuckets (nat (statsWindowSize c))"
      "consumeHist p = newHistogram consumeBuckets (nat (statsWindowSize c))"
      "exitHist p = newHistogram exitBuckets (nat (statsWindowSize c))"
    and f: "idleWorks p = new_idleWorks (idleContainerType c)" "capacity p = workerNumCapacity c" "runningWorkersNum p = 0"
    using assms(2) n by (auto simp: NewPool_def)
  have "0 < nat (statsWindowSize c)" using assms(1) by (simp add: config_valid_def pos64_def)
  moreover have "submitBuckets \<noteq> []" "consumeBuckets \<noteq> []" "exitBuckets \<noteq> []"
    by (simp_all add: submitBuckets_def consumeBuckets_def exitBuckets_def)
  ultimately have "hists_ok p" using newHistogram_rep unfolding hists_ok_def h by blast
  then show "scale_ok p" using f assms(1) works.empty_ok by (auto simp: scale_ok_def config_valid_def pos64_def)
  show "capacity p = workerNumCapacity c" by (rule f)
  show "0 < capacity p" using f assms(1) by (simp add: config_valid_def pos64_def)
  show "getMedianRates p = Some (Fin 0, Fin 0, Fin 0)" by (simp add: getMedianRates_def h median_def newHistogram_def)
qed

lemma default_pool_scale:
  "\<exists>m (p :: example_pool). NewPool 8 None ([], []) = Some p \<and> pool_inv m [] p \<and> scale_ok p \<and> capacity p = MaxInt64 \<and>
     getMedianRates p = Some (Fin 0, Fin 0, Fin 0) \<and> pendingTasks p = 0 \<and> runningWorkersNum p = 0 \<and> config p = NewConfig []"
proof -
  obtain m and p :: example_pool where p: "NewPool 8 None ([], []) = Some p" "pool_inv m [] p" "pendingTasks p = 0"
      "runningWorkersNum p = 0" "config p = NewConfig []"
    using NewPool_default [of "([], []) :: example_world", where 'f = nat and 'b = unit and 'c = nat and 'v = nat] by auto
  have v: "config_valid (NewConfig [] :: (nat, unit, nat, nat, example_world) PanicHandler Config)"
    by (rule NewConfig_valid) simp
  have "NewPool 8 (Some (NewConfig [])) ([], []) = Some p" using p(1) by (simp add: NewPool_def)
  from NewPool_scale_ok [OF v this] p show ?thesis by (auto simp: NewConfig_def config_consts)
qed

lemma scale_ok_counters [simp]:
  "hists_ok (p\<lparr>pendingTasks := x\<rparr>) = hists_ok p" "hists_ok (p\<lparr>runningWorkersNum := r\<rparr>) = hists_ok p"
  "hists_ok (p\<lparr>taskQueues := qs\<rparr>) = hists_ok p"
  "getMedianRates (p\<lparr>pendingTasks := x\<rparr>) = getMedianRates p" "getMedianRates (p\<lparr>runningWorkersNum := r\<rparr>) = getMedianRates p"
  "getMedianRates (p\<lparr>taskQueues := qs\<rparr>) = getMedianRates p"
  by (simp_all add: hists_ok_def getMedianRates_def split: option.splits)

lemma exitPerTick_default: "exitPerTick oor (Fin 0) (NewConfig []) = 0"
  by (simp add: exitPerTick_def NewConfig_def config_consts f_of_int_exact f_int64_def int64_range_def)

theorem scaler_respects_capacity_witness:
  "\<exists>(p :: example_pool) q. NewPool 8 None ([], []) = Some p \<and> scaleIfNeeded (\<lambda>x. 0) 0 p = Some q \<and> runningWorkersNum q = 0"
proof -
  obtain p :: example_pool where p: "NewPool 8 None ([], []) = Some p" "scale_ok p" "pendingTasks p = 0" "runningWorkersNum p = 0"
    using default_pool_scale by blast
  then show ?thesis using scaler_respects_capacity [OF p(2), of "\<lambda>x. 0" 0] by auto
qed

theorem scaler_rescues_stranded_tasks_witness:
  "\<exists>(p :: example_pool) q. pendingTasks p = 3 \<and> runningWorkersNum p = 0 \<and>
     scaleIfNeeded (\<lambda>x. 0) 0 p = Some q \<and> 3 \<le> runningWorkersNum q"
proof -
  obtain p0 :: example_pool where p0: "scale_ok p0" "capacity p0 = MaxInt64"
      "getMedianRates p0 = Some (Fin 0, Fin 0, Fin 0)" "runningWorkersNum p0 = 0" "config p0 = NewConfig []"
    using default_pool_scale by blast
  define p where "p = p0\<lparr>pendingTasks := 3\<rparr>"
  have p: "pendingTasks p = 3" "runningWorkersNum p = 0" "capacity p = MaxInt64"
      "getMedianRates p = Some (Fin 0, Fin 0, Fin 0)"
    and e: "exitPerTick (\<lambda>x. 0) (Fin 0) (config p) = 0"
    using p0 exitPerTick_default by (simp_all add: p_def)
  have "scale_ok p" using p0(1) by (simp add: scale_ok_def p_def)
  then show ?thesis
    using scaler_rescues_stranded_tasks [of p "Fin 0" "Fin 0" "Fin 0" "\<lambda>x. 0" 0] p0 e p
    by (intro exI [of "\<lambda>x. \<exists>y. pendingTasks x = 3 \<and> runningWorkersNum x = 0 \<and>
          scaleIfNeeded (\<lambda>x. 0) 0 x = Some y \<and> 3 \<le> runningWorkersNum y" p]) auto
qed

text \<open>
  C30. The zero-consume fallback, exactly: with workers running, tasks pending, room below
  the capacity and a window without consumption, a tick grows the pool when tasks are queued
  and the configured interval has passed since the last growth. The growth is the smallest of
  the queue depth, the number of running workers, the configured step and the room; the
  target is not above the pending tasks; if it exceeds the running workers, the compensation
  for exits is added \<^emph>\<open>on top\<close>, up to the capacity. So the configured step bounds what a tick
  adds only while no exits are compensated. The tick records its time; otherwise it starts
  no worker at all and keeps the time.
\<close>

theorem zero_consume_growth_exact:
  assumes "scale_ok p" and "getMedianRates p = Some (s, Fin 0, e)" and "0 < runningWorkersNum p"
    and "0 < pendingTasks p" and "runningWorkersNum p < capacity p" and "0 < maxZeroConsumeScaleStep (config p)"
    and "maxZeroConsumeScaleStep (config p) + exitPerTick oor e (config p) \<le> MaxInt64"
  shows "\<exists>q. scaleIfNeeded oor now p = Some q \<and>
    (if 0 < queuedTasks p \<and> zeroConsumeScaleInterval (config p) \<le> time_Sub now (lastZeroConsumeScale p)
     then lastZeroConsumeScale q = now \<and>
       runningWorkersNum q =
         (let growth = min (min (min (queuedTasks p) (runningWorkersNum p)) (maxZeroConsumeScaleStep (config p))) (capacity p - runningWorkersNum p);
              target = min (runningWorkersNum p + growth) (pendingTasks p)
          in if target \<le> runningWorkersNum p then runningWorkersNum p
             else min (target + max 0 (exitPerTick oor e (config p))) (capacity p)) \<and>
       (exitPerTick oor e (config p) \<le> 0 \<longrightarrow> runningWorkersNum q \<le> runningWorkersNum p + maxZeroConsumeScaleStep (config p))
     else lastZeroConsumeScale q = lastZeroConsumeScale p \<and> runningWorkersNum q = runningWorkersNum p)"
proof -
  let ?r = "runningWorkersNum p" and ?x = "exitPerTick oor e (config p)" and ?step = "maxZeroConsumeScaleStep (config p)"
  let ?go = "0 < queuedTasks p \<and> zeroConsumeScaleInterval (config p) \<le> time_Sub now (lastZeroConsumeScale p)"
  let ?g = "min (min (min (queuedTasks p) ?r) ?step) (capacity p - ?r)"
  have cap: "capacity p \<le> MaxInt64" using assms(1) by (simp add: scale_ok_def)
  have w: "wrap64 (capacity p - ?r) = capacity p - ?r" "wrap64 (?r + ?g) = ?r + ?g" if "?go"
    using that assms(3,5,6) cap by (auto simp: int64_range_def min_def intro!: wrap64_id)
  have t: "scale_target oor now s (Fin 0) p = (if ?go then (?r + ?g, now) else (0, lastZeroConsumeScale p))"
    using assms(3-5) w by (auto simp: scale_target_def rate_target_def zero_consume_growth_def Let_def max_def)
  define lz where "lz = (if ?go then now else lastZeroConsumeScale p)"
  define T where "T = (if ?go then ?r + ?g else 0)"
  have t': "scale_target oor now s (Fin 0) p = (T, lz)" using t by (auto simp: T_def lz_def)
  define n where "n = toSpawn oor e (config p) (capacity p) ?r (clamp_target (pendingTasks p) (capacity p) T)"
  obtain q where q: "scaleIfNeeded oor now p = Some q" "spawned (nat n) (rescaled p lz (nat n)) q"
    using scaleIfNeeded_spawned [OF assms(1,2) t' n_def] by blast
  have qf: "runningWorkersNum q = ?r + int (nat n)" "lastZeroConsumeScale q = lz"
    using spawned_running [OF q(2)] spawned_lastZero [OF q(2)] by simp_all
  show ?thesis
  proof (cases ?go)
    case True
    define g where "g = ?g"
    have g: "0 < g" "g \<le> ?step" "?r + g \<le> capacity p" using True assms(3,5,6) by (simp_all add: g_def)
    let ?T = "min (?r + g) (pendingTasks p)"
    have Tg: "T = ?r + g" using True by (simp only: T_def g_def if_True conj_absorb)
    have cl: "clamp_target (pendingTasks p) (capacity p) T = ?T" unfolding Tg using g by (simp add: clamp_target_min)
    have run: "runningWorkersNum q = (if ?T \<le> ?r then ?r else min (?T + max 0 ?x) (capacity p))"
    proof (cases "?T \<le> ?r")
      case True
      then have "n = 0" unfolding n_def cl by (rule toSpawn_zero)
      then show ?thesis using True qf(1) by simp
    next
      case False
      have "n = min (?T - ?r + max 0 ?x) (capacity p - ?r)"
        unfolding n_def cl by (rule toSpawn_value) (use False assms(3,7) cap g in linarith)+
      moreover have "0 \<le> n" using calculation False assms(5) by simp
      ultimately have "runningWorkersNum q = min (?T + max 0 ?x) (capacity p)" using qf(1) by linarith
      then show ?thesis using False by simp
    qed
    have "runningWorkersNum q \<le> ?r + ?step" if "?x \<le> 0" using run that g by (simp split: if_splits)
    moreover have "lastZeroConsumeScale q = now" unfolding qf(2) lz_def by (rule if_P [OF True])
    ultimately show ?thesis using q(1) run unfolding if_P [OF True] Let_def g_def by blast
  next
    case False
    then have "T = 0" by (simp only: T_def if_False)
    then have "n = 0" using assms(3) unfolding n_def by (intro toSpawn_zero) (simp add: clamp_target_min)
    then show ?thesis using q(1) qf False by (auto simp: lz_def)
  qed
qed

lemma exits_of_101:
  assumes "scalerPeriod c = 10 * Millisecond" and "statsSamplePeriod c = 100 * Millisecond"
  shows "exitPerTick oor (Fin 101) c = 10"
proof -
  have "fl (101 * 10000000) = Fin 1010000000" using f_of_int_exact [of 1010000000] by (simp add: f_of_int_def)
  moreover have "is_float (of_int 21 * 2 powi (- 1))" by (rule is_float_exact) (simp_all add: power_int_def)
  then have "is_float (21 / 2)" by (simp add: power_int_def)
  then obtain x where x: "fl (101 / 10) = Fin x" "10 \<le> x" "x \<le> 21 / 2"
    using fl_between [of "101 / 10" "21 / 2" 10] is_float_of_int [of 10] by auto
  moreover have "\<lfloor>x\<rfloor> = 10" using x(2,3) by (simp add: floor_eq_iff)
  ultimately show ?thesis using assms by (simp add: exitPerTick_def f_of_int_exact f_int64_def int64_range_def)
qed

text \<open>
  A step of 1, one running worker, three queued tasks and a window in which more than 100
  workers exited: the tick adds eleven workers.
\<close>

theorem zero_consume_growth_exact_witness:
  "\<exists>(p :: example_pool) q. queuedTasks p = 3 \<and> runningWorkersNum p = 1 \<and> maxZeroConsumeScaleStep (config p) = 1 \<and>
     scaleIfNeeded (\<lambda>x. 0) Second p = Some q \<and> runningWorkersNum q = 12 \<and> lastZeroConsumeScale q = Second"
proof -
  obtain m and p0 :: example_pool where p0: "NewPool 8 None ([], []) = Some p0" "pool_inv m [] p0" "scale_ok p0"
      "capacity p0 = MaxInt64" "getMedianRates p0 = Some (Fin 0, Fin 0, Fin 0)" "config p0 = NewConfig []"
    using default_pool_scale by blast
  obtain w xs ys zs where hist: "hist_rep submitBuckets w (submitHist p0) xs" "hist_rep consumeBuckets w (consumeHist p0) ys"
    "hist_rep exitBuckets w (exitHist p0) zs" using p0(3) by (auto simp: scale_ok_def hists_ok_def)
  have w: "0 < w" using hist(1) by (auto simp: hist_rep_def)
  let ?h0 = "newHistogram exitBuckets w"
  have h0: "hist_rep exitBuckets w ?h0 []" by (rule newHistogram_rep) (use w in \<open>simp_all add: exitBuckets_def\<close>)
  obtain h where h: "hist_rep exitBuckets w h (last_n w [bucketIndex ?h0 150])" using hist_add_rep [OF h0, of 150] by auto
  have "last_n w [bucketIndex ?h0 150] = [7]"
    using w by (simp add: last_n_def newHistogram_def bucketIndex_def bucket_of_def exitBuckets_def in_bucket_def)
  then have med: "median h = Some (Fin 101)" using median_window [OF h] by (simp add: exitBuckets_def bucket_mid_def f_of_int_exact)
  let ?t = "Some (TaskFunc (Some 1))"
  define p where "p = p0\<lparr>taskQueues := [\<lparr>chanCap = 4, chanItems = [?t, ?t, ?t]\<rparr>], pendingTasks := 4, runningWorkersNum := 1,
    exitHist := h, config := WithMaxZeroConsumeScaleStep 1 (config p0)\<rparr>"
  have "buffer_Len (taskBuf p0) = 0" using p0(2) buf_rep_len [of "taskBuf p0" "[]"] by (simp add: pool_inv_def buffer_Len_def)
  then have q: "queuedTasks p = 3" by (simp add: p_def queuedTasks_def GetTaskQueueLen_def)
  have l: "lastZeroConsumeScale p = 0" using p0(1) by (auto simp: p_def NewPool_def Let_def split: option.splits)
  have "hists_ok p" using hist(1,2) h by (auto simp: hists_ok_def p_def)
  then have p: "scale_ok p" "runningWorkersNum p = 1" "pendingTasks p = 4" "capacity p = MaxInt64"
    using p0(3,4) by (simp_all add: p_def scale_ok_def)
  have m: "getMedianRates p = Some (Fin 0, Fin 0, Fin 101)"
    using p0(5) med by (auto simp: p_def getMedianRates_def split: option.splits)
  have c: "maxZeroConsumeScaleStep (config p) = 1" "zeroConsumeScaleInterval (config p) = 100 * Millisecond"
      "scalerPeriod (config p) = 10 * Millisecond" "statsSamplePeriod (config p) = 100 * Millisecond"
    using p0(6) by (simp_all add: p_def NewConfig_def config_consts WithMaxZeroConsumeScaleStep_def)
  note e = exits_of_101 [OF c(3,4), of "\<lambda>x. 0"]
  have "\<exists>q. scaleIfNeeded (\<lambda>x. 0) Second p = Some q \<and> runningWorkersNum q = 12 \<and> lastZeroConsumeScale q = Second"
    using zero_consume_growth_exact [of p "Fin 0" "Fin 101" "\<lambda>x. 0" Second] p q l e c m by (auto simp: time_Sub_def Let_def)
  then show ?thesis using p(2) q c(1) by blast
qed

text \<open>
  The decay that weighs the backlog stays in the interval the comments promise, also
  under the rounding of binary64: the buffer pressure lies in \<open>[0, 1]\<close> and the dynamic decay
  between the configured factor and 1.
\<close>

theorem dynamicDecay_in_bounds:
  assumes "0 \<le> bufDepth" and "0 < c" and "is_float d" and "0 \<le> d" and "d \<le> 1"
  shows "\<exists>pr r. bufPressure bufDepth (Fin c) = Fin pr \<and> 0 \<le> pr \<and> pr \<le> 1 \<and>
           dynamicDecay (Fin d) (bufPressure bufDepth (Fin c)) = Fin r \<and> d \<le> r \<and> r \<le> 1"
proof -
  have u: "unit_float (bufPressure bufDepth (Fin c))" by (rule bufPressure_unit [OF assms(1,2)])
  then show ?thesis
    using dynamicDecay_between [OF assms(3,4,5) u] by (cases "bufPressure bufDepth (Fin c)") auto
qed

theorem dynamicDecay_in_bounds_witness:
  "\<exists>r. dynamicDecay (Fin (1 / 2)) (bufPressure 7 (Fin 3)) = Fin r \<and> 1 / 2 \<le> r \<and> r \<le> 1"
proof -
  have "is_float (of_int 1 * 2 powi (- 1))" by (rule is_float_exact) (simp_all add: power_int_def)
  then have "is_float (1 / 2)" by (simp add: power_int_def)
  then show ?thesis using dynamicDecay_in_bounds [of 7 3 "1 / 2"] by auto
qed

end
