(* ===== verification/Lifecycle.thy ===== *)
theory Lifecycle
  imports Scaler
begin

text \<open>
  The components together: histories of calls on one pool, where submitters, waiting
  submitters, workers, the scaler, the sampler, the cleaner and \<^verbatim>\<open>Close\<close> take turns, each
  turn being one call. The system state adds to the pool the submitters that wait in the
  last \<^verbatim>\<open>select\<close> of \<^verbatim>\<open>submit\<close> and the workers that were launched and have not parked.
  Interleavings inside a call are treated in \<open>Drain\<close>, \<open>Spin_Lock\<close> and \<open>Concurrent_Pool\<close>.
\<close>

section \<open>Histories\<close>

datatype ('f, 'b, 'c, 'w) pool_op =
    OpSubmit "nat option" nat "('f, 'b, 'c) Task option"
  | OpSubmitCtx "nat option" nat "'c option" "('f, 'b, 'c) Task option"
  | OpSubmitBefore "nat option" nat 'c "('f, 'b, 'c) Task option"
  | OpResume nat nat
  | OpWorker nat "'w \<Rightarrow> time" int "nat option"
  | OpScale "float64 \<Rightarrow> int" time
  | OpSample
  | OpClean time
  | OpClose

record ('f, 'b, 'c, 'v, 'w) system =
  thePool :: "('f, 'b, 'c, 'v, 'w) Pool"
  waiting :: "('c \<times> ('f, 'b, 'c) Task \<times> nat) list"
  live :: "worker list"

text \<open>The workers a call launched are those it appended to \<open>started\<close>.\<close>

definition after_call ::
  "('f, 'b, 'c, 'v, 'w) Pool \<Rightarrow> ('f, 'b, 'c, 'v, 'w) system \<Rightarrow> ('f, 'b, 'c, 'v, 'w) system" where
  "after_call p' s = s\<lparr>thePool := p', live := live s @ drop (length (started (thePool s))) (started p')\<rparr>"

definition after_submit ::
  "'c \<Rightarrow> ('f, 'b, 'c) Task \<Rightarrow> submit_end \<times> ('f, 'b, 'c, 'v, 'w) Pool \<Rightarrow>
   ('f, 'b, 'c, 'v, 'w) system \<Rightarrow> ('f, 'b, 'c, 'v, 'w) system" where
  "after_submit ctx task rp s =
     (let s1 = after_call (snd rp) s
      in case fst rp of Waiting i \<Rightarrow> s1\<lparr>waiting := waiting s1 @ [(ctx, task, i)]\<rparr> | _ \<Rightarrow> s1)"

text \<open>A submitter of \<^verbatim>\<open>SubmitBefore\<close> that is turned away after waiting cancels its context.\<close>

definition cancel_before ::
  "('f, 'b, 'c, 'v, 'w) task_env \<Rightarrow> ('f, 'b, 'c) Task \<Rightarrow> submit_end \<Rightarrow> ('f, 'b, 'c, 'v, 'w) Pool \<Rightarrow> ('f, 'b, 'c, 'v, 'w) Pool" where
  "cancel_before env task r p =
     (case task of
        BeforeTask d _ \<Rightarrow> if r = Rejected then p\<lparr>world := ctxCancel env d (world p)\<rparr> else p
      | _ \<Rightarrow> p)"

definition drop_nth :: "nat \<Rightarrow> 'a list \<Rightarrow> 'a list" where
  "drop_nth k xs = take k xs @ drop (Suc k) xs"

fun pool_call ::
  "('f, 'b, 'c, 'v, 'w) task_env \<Rightarrow> ('f, 'b, 'c, 'w) pool_op \<Rightarrow> ('f, 'b, 'c, 'v, 'w) system \<Rightarrow>
   ('f, 'b, 'c, 'v, 'w) system option" where
  "pool_call env (OpSubmit pick sel task) s =
     map_option (\<lambda>rp. after_submit (Background env) (the task) rp s) (Submit env pick sel task (thePool s))"
| "pool_call env (OpSubmitCtx pick sel ctx task) s =
     (let c = (case ctx of None \<Rightarrow> Background env | Some c \<Rightarrow> c) in
      map_option (\<lambda>rp. after_submit c (ContextTask (Some (c, task))) rp s) (SubmitCtx env pick sel ctx task (thePool s)))"
| "pool_call env (OpSubmitBefore pick sel deadline task) s =
     map_option (\<lambda>rp. after_submit deadline (BeforeTask deadline (the task)) rp s)
       (SubmitBefore env pick sel deadline task (thePool s))"
| "pool_call env (OpResume k sel) s =
     (if k < length (waiting s) then
        (let (ctx, task, i) = waiting s ! k; (r, p') = submit_select env sel ctx task i (thePool s) in
         case r of
           Waiting _ \<Rightarrow> Some s
         | _ \<Rightarrow> Some (s\<lparr>thePool := cancel_before env task r p', waiting := drop_nth k (waiting s)\<rparr>))
      else Some s)"
| "pool_call env (OpWorker k now priority pick) s =
     (if k < length (live s) then
        map_option (\<lambda>(_, p'). s\<lparr>thePool := p', live := drop_nth k (live s)\<rparr>)
          (run env now priority pick None (live s ! k) (thePool s))
      else Some s)"
| "pool_call env (OpScale oor now) s = map_option (\<lambda>(_, p'). after_call p' s) (scaler oor now (thePool s))"
| "pool_call env OpSample s = map_option (\<lambda>(_, p'). after_call p' s) (statsSampler (thePool s))"
| "pool_call env (OpClean now) s = map_option (\<lambda>p'. after_call p' s) (expiredWorkerCleaner now (thePool s))"
| "pool_call env OpClose s = Some (after_call (Close (thePool s)) s)"

fun pool_calls ::
  "('f, 'b, 'c, 'v, 'w) task_env \<Rightarrow> ('f, 'b, 'c, 'w) pool_op list \<Rightarrow> ('f, 'b, 'c, 'v, 'w) system \<Rightarrow>
   ('f, 'b, 'c, 'v, 'w) system option" where
  "pool_calls env [] s = Some s"
| "pool_calls env (x # xs) s = (case pool_call env x s of None \<Rightarrow> None | Some s' \<Rightarrow> pool_calls env xs s')"

definition new_system :: "('f, 'b, 'c, 'v, 'w) Pool \<Rightarrow> ('f, 'b, 'c, 'v, 'w) system" where
  "new_system p = \<lparr>thePool = p, waiting = [], live = []\<rparr>"

section \<open>What a submission leaves alone\<close>

lemma static_updates [simp]:
  "static (p\<lparr>taskQueues := qs\<rparr>) = static p" "static (p\<lparr>sendSeq := n\<rparr>) = static p" "static (p\<lparr>taskBuf := b\<rparr>) = static p"
  "static (p\<lparr>submitCount := k\<rparr>) = static p" "static (p\<lparr>pendingTasks := k\<rparr>) = static p" "static (p\<lparr>world := v\<rparr>) = static p"
  "static (p\<lparr>idleWorks := c\<rparr>) = static p"
  by (simp_all add: static_def)

lemma crew_updates [simp]:
  "crew (p\<lparr>taskQueues := qs\<rparr>) = crew p" "crew (p\<lparr>sendSeq := n\<rparr>) = crew p" "crew (p\<lparr>taskBuf := b\<rparr>) = crew p"
  "crew (p\<lparr>world := v\<rparr>) = crew p" "crew (p\<lparr>idleWorks := c\<rparr>) = crew p"
  by (simp_all add: crew_def)

lemma submit_select_static:
  assumes "submit_select env sel ctx task i p = (r, p')"
  shows "static p' = static p" and "crew p' = crew p" and "\<forall>j. r = Waiting j \<longrightarrow> j = i"
  using assms by (cases rule: submit_select_cases; simp)+

lemma submit_buffer_static:
  assumes "submit_buffer env pick sel ctx task p = Some (r, p')"
  shows "static p' = static p \<and> crew p' = crew p \<and> (\<forall>j. r = Waiting j \<longrightarrow> (\<exists>k. j = fst (nextShard (shardMask p) k)))"
proof -
  obtain result b seq qs where f:
    "PushAndForward pick (Some task) (try_send (shardMask p)) (taskBuf p, sendSeq p, taskQueues p) = Some (result, b, seq, qs)"
    using assms by (auto simp: submit_buffer_def split: option.splits)
  define p1 where "p1 = p\<lparr>taskBuf := b, sendSeq := seq, taskQueues := qs\<rparr>"
  have p1: "static p1 = static p" "crew p1 = crew p" "shardMask p1 = shardMask p" by (simp_all add: p1_def)
  show ?thesis
  proof (cases result)
    case taskBufferFull
    then have s: "submit_select env sel ctx task (fst (nextShard (shardMask p1) (sendSeq p1)))
        (p1\<lparr>sendSeq := snd (nextShard (shardMask p1) (sendSeq p1))\<rparr>) = (r, p')"
      using assms f by (simp add: submit_buffer_def p1_def split: prod.splits)
    show ?thesis using submit_select_static [OF s] p1 by auto
  qed (use assms f p1 in \<open>auto simp: submit_buffer_def p1_def\<close>)
qed

lemma submit_static:
  assumes "submit env pick sel ctx task p = Some (r, p')"
  shows "static p' = static p \<and> crew p' = (if closed p then crew p else crew (cold_start p)) \<and>
           (\<forall>j. r = Waiting j \<longrightarrow> (\<exists>k. j = fst (nextShard (shardMask p) k)))"
proof (cases "closed p")
  case True
  then show ?thesis using assms by (auto simp: submit_def pool_addPending_def crew_def)
next
  case False
  let ?p2 = "submit_enter env task (pool_addPending p)"
  obtain ok p3 where t: "try_shard (Some task) ?p2 = (ok, p3)" by fastforce
  have nil: "task \<noteq> ContextTask None" using assms False by (auto simp: submit_def pool_addPending_def)
  have "crew (cold_start (p\<lparr>pendingTasks := a, submitCount := b\<rparr>)) = crew (cold_start p)" for a b
    by (simp add: crew_def cold_start_def workerPool_Get_def startWorker_def Let_def)
  then have "static ?p2 = static p" "crew ?p2 = crew (cold_start p)" "shardMask ?p2 = shardMask p"
    by (simp_all add: submit_enter_def pool_addPending_def)
  then have p3: "static p3 = static p" "crew p3 = crew (cold_start p)" "shardMask p3 = shardMask p"
    using t by (auto simp: try_shard_def split: prod.splits)
  have sub: "submit env pick sel ctx task p =
      (if ok then Some (Accepted, dispatchTaskEnqueuedFor env task p3)
       else if workMode (config ?p2) = NONBLOCK then Some (Rejected, pool_done p3)
       else submit_buffer env pick sel ctx task p3)"
    using False t nil by (simp add: submit_def Let_def) (simp add: pool_addPending_def)
  consider "r = Accepted" "p' = dispatchTaskEnqueuedFor env task p3" | "r = Rejected" "p' = pool_done p3"
    | "submit_buffer env pick sel ctx task p3 = Some (r, p')"
    using assms unfolding sub by (cases ok; cases "workMode (config ?p2) = NONBLOCK") simp_all
  then show ?thesis
    using p3 False submit_buffer_static [of env pick sel ctx task p3 r p'] by cases auto
qed

section \<open>The system invariant\<close>

fun waiter_ok :: "nat \<Rightarrow> 'c \<times> ('f, 'b, 'c) Task \<times> nat \<Rightarrow> bool" where
  "waiter_ok m (ctx, task, i) \<longleftrightarrow> \<not> isNilTask (Some task) \<and> i < 2 ^ m"

definition system_inv ::
  "nat \<Rightarrow> ('f, 'b, 'c, 'v, 'w) Pool \<Rightarrow> ('c \<times> ('f, 'b, 'c) Task \<times> nat) list \<Rightarrow> worker list \<Rightarrow> bool" where
  "system_inv m p W L \<longleftrightarrow>
     (\<exists>xs. pool_inv m xs p \<and> tasks_ok xs p) \<and> hists_ok p \<and> 0 < capacity p \<and> capacity p \<le> MaxInt64 \<and>
     runningWorkersNum p \<le> capacity p \<and> runningWorkersNum p = int (length L) \<and>
     pendingTasks p = queuedTasks p + int (length W) \<and> (\<forall>w\<in>set W. waiter_ok m w)"

lemma system_inv_scale_ok: "system_inv m p W L \<Longrightarrow> scale_ok p"
  by (auto simp: system_inv_def scale_ok_def pool_inv_def)

lemma static_hists: "static p = static q \<Longrightarrow> hists_ok p \<longleftrightarrow> hists_ok q"
  by (simp add: static_def hists_ok_def)

lemma static_capacity: "static p = static q \<Longrightarrow> capacity p = capacity q"
  by (simp add: static_def)

lemma system_invI:
  assumes "system_inv m p W L" and "pool_inv m xs q" and "tasks_ok xs q" and "static q = static p"
    and "runningWorkersNum q = int (length L')" and "runningWorkersNum q \<le> capacity p"
    and "pendingTasks q = queuedTasks q + int (length W')" and "\<forall>w\<in>set W'. waiter_ok m w"
  shows "system_inv m q W' L'"
  using assms static_hists [OF assms(4)] static_capacity [OF assms(4)] unfolding system_inv_def by auto

lemma system_inv_world [simp]: "system_inv m (p\<lparr>world := w\<rparr>) W L \<longleftrightarrow> system_inv m p W L"
  by (simp add: system_inv_def pool_inv_def tasks_ok_def held_def hists_ok_def queuedTasks_def GetTaskQueueLen_def)

definition waiter_of :: "'c \<Rightarrow> ('f, 'b, 'c) Task \<Rightarrow> submit_end \<Rightarrow> ('c \<times> ('f, 'b, 'c) Task \<times> nat) list" where
  "waiter_of ctx task r = (case r of Waiting i \<Rightarrow> [(ctx, task, i)] | _ \<Rightarrow> [])"

lemma submit_system:
  assumes inv: "system_inv m p W L" and task: "\<not> isNilTask (Some task)"
  shows "\<exists>r p'. submit env pick sel ctx task p = Some (r, p') \<and>
           system_inv m p' (W @ waiter_of ctx task r) (L @ drop (length (started p)) (started p'))"
proof -
  obtain xs where x: "pool_inv m xs p" "tasks_ok xs p" using inv by (auto simp: system_inv_def)
  obtain r p' xs' where s: "submit env pick sel ctx task p = Some (r, p')" "pool_inv m xs' p'"
    "held xs' p' = held xs (pool_addPending p) + gained r task"
    "pendingTasks p' = pendingTasks (pool_addPending p) - (if r = Rejected then 1 else 0)"
    using submit_ok [OF x(1) task, of env pick sel ctx] by (auto simp: submit_post_def)
  note st = submit_static [OF s(1)]
  have h: "held xs' p' = held xs p + gained r task" using s(3) by (simp add: held_def pool_addPending_def)
  have q: "queuedTasks p' = queuedTasks p + int (size (gained r task))"
    using queuedTasks_held [OF s(2)] queuedTasks_held [OF x(1)] h by simp
  have pend: "pendingTasks p' = queuedTasks p' + int (length (W @ waiter_of ctx task r))"
    using s(4) q inv by (cases r) (auto simp: pool_addPending_def gained_def waiter_of_def system_inv_def)
  have "shardMask p = shard_mask (2 ^ m)" using x(1) by (simp add: pool_inv_def shards_ok_def)
  then have "\<forall>w\<in>set (W @ waiter_of ctx task r). waiter_ok m w"
    using inv st task nextShard_range [of m] by (cases r) (auto simp: waiter_of_def system_inv_def)
  moreover have "tasks_ok xs' p'" using submit_tasks_ok [OF h x(2) task] .
  moreover have "runningWorkersNum p' = int (length (L @ drop (length (started p)) (started p'))) \<and> runningWorkersNum p' \<le> capacity p"
  proof (cases "closed p \<or> runningWorkersNum p \<noteq> 0")
    case True
    then have "crew p' = crew p" using st by (auto simp: cold_start_def crew_def)
    then show ?thesis using inv by (simp add: crew_def system_inv_def)
  next
    case False
    then have "runningWorkersNum p' = 1" "length (started p') = length (started p) + 1"
      using st by (auto simp: cold_start_def crew_def workerPool_Get_def startWorker_def Let_def)
    then show ?thesis using inv False by (simp add: system_inv_def)
  qed
  ultimately have "system_inv m p' (W @ waiter_of ctx task r) (L @ drop (length (started p)) (started p'))"
    using system_invI [OF inv s(2)] st pend by blast
  then show ?thesis using s(1) by blast
qed

lemma set_drop_nth: "set (drop_nth k xs) \<subseteq> set xs"
  by (auto simp: drop_nth_def dest: in_set_takeD in_set_dropD)

lemma length_drop_nth: "k < length xs \<Longrightarrow> int (length (drop_nth k xs)) = int (length xs) - 1"
  by (simp add: drop_nth_def)

lemma resume_system:
  assumes inv: "system_inv m p W L" and k: "k < length W" "W ! k = (ctx, task, i)"
    and s: "submit_select env sel ctx task i p = (r, p')" and r: "\<forall>j. r \<noteq> Waiting j"
  shows "system_inv m p' (drop_nth k W) L"
proof -
  obtain xs where x: "pool_inv m xs p" "tasks_ok xs p" using inv by (auto simp: system_inv_def)
  have w: "\<not> isNilTask (Some task)" "i < 2 ^ m"
    using inv k nth_mem [OF k(1)] by (auto simp: system_inv_def)
  have "submit_post m xs task p r p'" by (rule submit_select_post [OF x(1) w(2) s])
  then obtain xs' where p: "pool_inv m xs' p'" "held xs' p' = held xs p + gained r task"
    "pendingTasks p' = pendingTasks p - (if r = Rejected then 1 else 0)"
    by (auto simp: submit_post_def)
  have "queuedTasks p' = queuedTasks p + int (size (gained r task))"
    using queuedTasks_held [OF p(1)] queuedTasks_held [OF x(1)] p(2) by simp
  then have "pendingTasks p' = queuedTasks p' + int (length (drop_nth k W))"
    using p(3) inv r length_drop_nth [OF k(1)] by (cases r) (auto simp: gained_def system_inv_def)
  moreover have "\<forall>w\<in>set (drop_nth k W). waiter_ok m w" using inv set_drop_nth [of k W] by (auto simp: system_inv_def)
  moreover have "runningWorkersNum p' = int (length L)" "runningWorkersNum p' \<le> capacity p"
    using submit_select_static(2) [OF s] inv by (simp_all add: crew_def system_inv_def)
  ultimately show ?thesis
    using system_invI [OF inv p(1) submit_tasks_ok [OF p(2) x(2) w(1)] submit_select_static(1) [OF s]] by blast
qed

lemma worker_system:
  assumes inv: "system_inv m p W L" and k: "k < length L"
  shows "\<exists>w' q. run env now priority pick None (L ! k) p = Some (w', q) \<and> system_inv m q W (drop_nth k L) \<and>
           queuedTasks q = 0 \<and> closed q = closed p"
proof -
  obtain xs where x: "pool_inv m xs p" "tasks_ok xs p" using inv by (auto simp: system_inv_def)
  let ?w = "(L ! k)\<lparr>lastActiveAt := now (world p)\<rparr>"
  obtain w' q where q: "run env now priority pick None (L ! k) p = Some (w', q)" "drained_by env m (held xs p) ?w p w' q"
    using run_loop_drains [OF x, of env now priority pick ?w] by (auto simp: run_def Let_def)
  then obtain ts where ts: "mset ts = held xs p" "has_run env ts p q" by (auto simp: drained_by_def)
  have "queuedTasks p = int (length ts)" using queuedTasks_held [OF x(1)] ts(1) by (metis size_mset)
  moreover have q0: "queuedTasks q = 0" using queuedTasks_held [of m "[]" q] q(2) by (simp add: drained_by_def)
  ultimately have "pendingTasks q = queuedTasks q + int (length W)" using ts(2) inv by (simp add: has_run_def system_inv_def)
  moreover have "runningWorkersNum q = int (length (drop_nth k L))" "runningWorkersNum q \<le> capacity p"
    using q(2) inv length_drop_nth [OF k] by (auto simp: drained_by_def crew_def system_inv_def)
  moreover have "tasks_ok [] q" using q(2) by (simp add: drained_by_def tasks_ok_def)
  ultimately have "system_inv m q W (drop_nth k L)"
    using system_invI [OF inv, of "[]" q] q(2) inv unfolding drained_by_def system_inv_def by blast
  then show ?thesis using q q0 by (auto simp: drained_by_def)
qed

lemma scaler_system:
  assumes inv: "system_inv m p W L"
  shows "\<exists>e q. scaler oor now p = Some (e, q) \<and> system_inv m q W (L @ drop (length (started p)) (started q)) \<and>
           closed q = closed p \<and> pendingTasks q = pendingTasks p"
proof -
  obtain xs where x: "pool_inv m xs p" "tasks_ok xs p" using inv by (auto simp: system_inv_def)
  have ok: "scale_ok p" using inv by (rule system_inv_scale_ok)
  obtain s c e where m: "getMedianRates p = Some (s, c, e)" using getMedianRates_ok ok unfolding scale_ok_def by metis
  obtain t lz where t: "scale_target oor now s c p = (t, lz)" by fastforce
  define n where "n = toSpawn oor e (config p) (capacity p) (runningWorkersNum p) (clamp_target (pendingTasks p) (capacity p) t)"
  have n: "0 \<le> n" "n \<le> capacity p - runningWorkersNum p"
    using ok toSpawn_bounds unfolding scale_ok_def n_def by blast+
  obtain q where q: "scaleIfNeeded oor now p = Some q" "spawned (nat n) (rescaled p lz (nat n)) q"
    using scaleIfNeeded_spawned [OF ok m t n_def] by blast
  obtain cn ws k where e: "q = (rescaled p lz (nat n))\<lparr>idleWorks := cn, workerSeq := workerSeq p + of_nat (nat n),
      started := started p @ ws, workerCreateCount := workerCreateCount p + k\<rparr>" "idle_invar cn" "length ws = nat n"
    using q(2) by (rule spawned_eq) simp
  have qs: "queuedTasks q = queuedTasks p" "held xs q = held xs p"
    by (simp_all add: e(1) queuedTasks_def GetTaskQueueLen_def held_def)
  have "pool_inv m xs q" using x(1) e by (simp add: pool_inv_def)
  moreover have "tasks_ok xs q" using x(2) qs(2) by (simp add: tasks_ok_def)
  moreover have "static q = static p" by (simp add: e(1) static_def)
  moreover have "runningWorkersNum q = int (length (L @ drop (length (started p)) (started q)))" "runningWorkersNum q \<le> capacity p"
    "pendingTasks q = queuedTasks q + int (length W)" "\<forall>w\<in>set W. waiter_ok m w"
    using inv n e(3) qs(1) by (simp_all add: e(1) system_inv_def)
  ultimately have "system_inv m q W (L @ drop (length (started p)) (started q))" by (rule system_invI [OF inv])
  then show ?thesis using q(1) by (auto simp: scaler_def e(1))
qed

lemma sampler_system:
  assumes inv: "system_inv m p W L"
  shows "\<exists>e q. statsSampler p = Some (e, q) \<and> system_inv m q W L \<and> started q = started p"
proof -
  obtain hs hc he where q: "sampleRates p = Some (p\<lparr>submitCount := 0, consumeCount := 0, exitCount := 0,
      submitHist := hs, consumeHist := hc, exitHist := he\<rparr>)" (is "_ = Some ?q")
    "hists_ok (p\<lparr>submitHist := hs, consumeHist := hc, exitHist := he\<rparr>)"
    using sampleRates_ok [of p] inv unfolding system_inv_def by blast
  have "system_inv m ?q W L"
    using inv q(2) by (simp add: system_inv_def pool_inv_def tasks_ok_def held_def hists_ok_def queuedTasks_def GetTaskQueueLen_def)
  then show ?thesis using q(1) by (simp add: statsSampler_def)
qed

lemma idle_update_system:
  assumes "system_inv m p W L" and "idle_invar c"
  shows "system_inv m (p\<lparr>idleWorks := c\<rparr>) W L"
  using assms by (simp add: system_inv_def pool_inv_def tasks_ok_def held_def hists_ok_def queuedTasks_def GetTaskQueueLen_def) blast

lemma cleaner_system:
  assumes inv: "system_inv m p W L"
  shows "\<exists>q. expiredWorkerCleaner now p = Some q \<and> system_inv m q W L \<and> started q = started p"
proof (cases "closePoolCn p")
  case False
  have "idle_invar (idleWorks p)" using inv by (auto simp: system_inv_def pool_inv_def)
  then obtain k c where "idle_RemoveExpired now Second (idleWorks p) = Some (k, c)" "idle_invar c"
    using works.rem_ok [of "idleWorks p" Second now] by auto
  then show ?thesis using False idle_update_system [OF inv] by (simp add: expiredWorkerCleaner_def)
qed (use inv in \<open>simp add: expiredWorkerCleaner_def\<close>)

lemma close_system:
  assumes inv: "system_inv m p W L"
  shows "system_inv m (Close p) W L" and "started (Close p) = started p"
proof -
  let ?q = "p\<lparr>closed := True, taskBuf := buffer_Close (taskBuf p), closePoolCn := True\<rparr>"
  obtain xs where x: "pool_inv m xs p" "tasks_ok xs p" using inv by (auto simp: system_inv_def)
  have d: "system_inv m (dispatchHook fn q) W L = system_inv m q W L" for fn and q :: "('a, 'b, 'c, 'd, 'e) Pool"
    by (simp add: system_inv_def tasks_ok_def hists_ok_def queuedTasks_def GetTaskQueueLen_def)
  have "pool_inv m xs ?q" using x(1) by (simp add: pool_inv_def buffer_Close_def)
  moreover have "tasks_ok xs ?q" using x(2) by (simp add: tasks_ok_def held_def)
  moreover have "static ?q = static p" by (simp add: static_def)
  moreover have "runningWorkersNum ?q = int (length L)" "runningWorkersNum ?q \<le> capacity p"
    "pendingTasks ?q = queuedTasks ?q + int (length W)" "\<forall>w\<in>set W. waiter_ok m w"
    using inv by (simp_all add: system_inv_def queuedTasks_def GetTaskQueueLen_def buffer_Len_def buffer_Close_def)
  ultimately have "system_inv m ?q W L" by (rule system_invI [OF inv])
  then show "system_inv m (Close p) W L" using inv by (simp add: Close_def d)
  show "started (Close p) = started p" by (simp add: Close_def)
qed

section \<open>Every call keeps the invariant\<close>

abbreviation sys_inv :: "nat \<Rightarrow> ('f, 'b, 'c, 'v, 'w) system \<Rightarrow> bool" where
  "sys_inv m s \<equiv> system_inv m (thePool s) (waiting s) (live s)"

lemma after_submit_inv:
  "system_inv m p' (waiting s @ waiter_of ctx task r) (live s @ drop (length (started (thePool s))) (started p')) \<Longrightarrow>
   sys_inv m (after_submit ctx task (r, p') s)"
  by (cases r) (simp_all add: after_submit_def after_call_def waiter_of_def Let_def)

lemma ignored_submit: "sys_inv m s \<Longrightarrow> sys_inv m (after_submit ctx task (Rejected, thePool s) s)"
  by (simp add: after_submit_def after_call_def)

lemma OpSubmit_ok:
  assumes "sys_inv m s"
  shows "\<exists>s'. pool_call env (OpSubmit pick sel task) s = Some s' \<and> sys_inv m s'"
proof (cases "isNilTask task")
  case True
  then show ?thesis using ignored_submit [OF assms] by (simp add: Submit_def)
next
  case False
  then obtain t where t: "task = Some t" by (cases task) auto
  obtain r p' where "submit env pick sel (Background env) t (thePool s) = Some (r, p')"
    "system_inv m p' (waiting s @ waiter_of (Background env) t r) (live s @ drop (length (started (thePool s))) (started p'))"
    using submit_system [OF assms, of t env pick sel "Background env"] False t by blast
  then show ?thesis using False t after_submit_inv by (simp add: Submit_def)
qed

lemma OpSubmitCtx_ok:
  assumes "sys_inv m s"
  shows "\<exists>s'. pool_call env (OpSubmitCtx pick sel ctx task) s = Some s' \<and> sys_inv m s'"
proof -
  let ?c = "case ctx of None \<Rightarrow> Background env | Some c \<Rightarrow> c"
  let ?t = "ContextTask (Some (?c, task))"
  consider "isNilTask task \<or> ctxErr env ?c (world (thePool s))" | "\<not> isNilTask (Some ?t)" "\<not> ctxErr env ?c (world (thePool s))"
    by auto
  then show ?thesis
  proof cases
    case 1
    then have "SubmitCtx env pick sel ctx task (thePool s) = Some (Rejected, thePool s)" by (auto simp: SubmitCtx_def Let_def)
    then show ?thesis using ignored_submit [OF assms] by (simp add: Let_def)
  next
    case 2
    obtain r p' where "submit env pick sel ?c ?t (thePool s) = Some (r, p')"
      "system_inv m p' (waiting s @ waiter_of ?c ?t r) (live s @ drop (length (started (thePool s))) (started p'))"
      using submit_system [OF assms 2(1), of env pick sel ?c] by blast
    then show ?thesis using 2 after_submit_inv by (simp add: SubmitCtx_def Let_def)
  qed
qed

lemma OpSubmitBefore_ok:
  assumes "sys_inv m s"
  shows "\<exists>s'. pool_call env (OpSubmitBefore pick sel d task) s = Some s' \<and> sys_inv m s'"
proof (cases "isNilTask task")
  case True
  then show ?thesis using ignored_submit [OF assms] by (simp add: SubmitBefore_def)
next
  case False
  let ?t = "BeforeTask d (the task)"
  obtain r p' where s: "submit env pick sel d ?t (thePool s) = Some (r, p')"
    "system_inv m p' (waiting s @ waiter_of d ?t r) (live s @ drop (length (started (thePool s))) (started p'))"
    using submit_system [OF assms, of ?t env pick sel d] by auto
  let ?q = "if r = Rejected then p'\<lparr>world := ctxCancel env d (world p')\<rparr> else p'"
  have "system_inv m ?q (waiting s @ waiter_of d ?t r) (live s @ drop (length (started (thePool s))) (started ?q))"
    using s(2) by (cases "r = Rejected") simp_all
  then have "sys_inv m (after_submit d ?t (r, ?q) s)" by (rule after_submit_inv)
  then show ?thesis using False s(1) by (simp add: SubmitBefore_def)
qed

lemma cancel_before_inv: "system_inv m (cancel_before env task r p) W L = system_inv m p W L"
  by (cases task) (simp_all add: cancel_before_def)

lemma OpResume_ok:
  assumes "sys_inv m s"
  shows "\<exists>s'. pool_call env (OpResume k sel) s = Some s' \<and> sys_inv m s'"
proof (cases "k < length (waiting s)")
  case True
  obtain ctx task i where w: "waiting s ! k = (ctx, task, i)" by (cases "waiting s ! k") auto
  obtain r p' where r: "submit_select env sel ctx task i (thePool s) = (r, p')" by fastforce
  show ?thesis
  proof (cases "\<exists>j. r = Waiting j")
    case False
    then have "system_inv m p' (drop_nth k (waiting s)) (live s)" using resume_system [OF assms True w r] by blast
    moreover have "pool_call env (OpResume k sel) s =
        Some (s\<lparr>thePool := cancel_before env task r p', waiting := drop_nth k (waiting s)\<rparr>)"
      using True w r False by (cases r) simp_all
    ultimately show ?thesis by (simp add: cancel_before_inv)
  qed (use True w r assms in auto)
qed (use assms in simp)

lemma pool_call_ok:
  assumes "sys_inv m s"
  shows "\<exists>s'. pool_call env x s = Some s' \<and> sys_inv m s'"
proof (cases x)
  case (OpWorker k now priority pick)
  show ?thesis
  proof (cases "k < length (live s)")
    case True
    then show ?thesis using worker_system [OF assms True, of env now priority pick] OpWorker by auto
  qed (use assms OpWorker in simp)
next
  case (OpScale oor now)
  then show ?thesis using scaler_system [OF assms, of oor now] by (auto simp: after_call_def)
next
  case OpSample
  then show ?thesis using sampler_system [OF assms] by (auto simp: after_call_def)
next
  case (OpClean now)
  then show ?thesis using cleaner_system [OF assms, of now] by (auto simp: after_call_def)
next
  case OpClose
  then show ?thesis using close_system [OF assms] by (simp add: after_call_def)
qed (use OpSubmit_ok OpSubmitCtx_ok OpSubmitBefore_ok OpResume_ok assms in \<open>simp_all del: pool_call.simps\<close>)

lemma pool_calls_ok:
  assumes "sys_inv m s"
  shows "\<exists>s'. pool_calls env ops s = Some s' \<and> sys_inv m s'"
  using assms
proof (induction ops arbitrary: s)
  case (Cons x ops)
  obtain s1 where "pool_call env x s = Some s1" "sys_inv m s1" using pool_call_ok [OF Cons.prems] by blast
  then show ?case using Cons.IH by simp
qed simp

lemma new_system_inv:
  assumes "config_valid c" and "taskQueueSize c < 2 ^ 62" and "shards_want procs c \<le> 2 ^ 62"
  shows "\<exists>m p. NewPool procs (Some c) w = Some p \<and> sys_inv m (new_system p) \<and> config p = c"
proof -
  have "0 < taskQueueSize c" using assms(1) by (simp add: config_valid_def pos64_def)
  then obtain m p where p: "NewPool procs (Some c) w = Some p" "pool_inv m [] p" "held [] p = {#}" "pendingTasks p = 0"
    "runningWorkersNum p = 0" "config p = c"
    using NewPool_ok [OF _ assms(2,3), of w] by auto
  have "queuedTasks p = 0" using queuedTasks_held [OF p(2)] p(3) by simp
  then have "sys_inv m (new_system p)"
    using p NewPool_scale_ok [OF assms(1) p(1)]
    by (auto simp: system_inv_def new_system_def scale_ok_def tasks_ok_def intro!: exI [of _ "[]"])
  then show ?thesis using p by blast
qed

section \<open>Properties\<close>

text \<open>
  C3. Every history is sound: whatever calls follow on a new pool, in whatever order and
  with whatever tasks (also nil or panicking ones), hooks and contexts, no call panics or
  fails to return, and afterwards the pending count is exactly the number of queued tasks
  plus waiting submitters, the running count is the number of launched workers that have
  not parked, and it is within the capacity.
\<close>

theorem every_history_sound:
  assumes "config_valid c" and "taskQueueSize c < 2 ^ 62" and "shards_want procs c \<le> 2 ^ 62"
  shows "\<exists>p s. NewPool procs (Some c) w = Some p \<and> pool_calls env ops (new_system p) = Some s \<and>
           pendingTasks (thePool s) = queuedTasks (thePool s) + int (length (waiting s)) \<and>
           runningWorkersNum (thePool s) = int (length (live s)) \<and>
           runningWorkersNum (thePool s) \<le> capacity (thePool s)"
proof -
  obtain m p where p: "NewPool procs (Some c) w = Some p" "sys_inv m (new_system p)" using new_system_inv [OF assms] by blast
  obtain s where "pool_calls env ops (new_system p) = Some s" "sys_inv m s" using pool_calls_ok [OF p(2)] by blast
  then show ?thesis using p(1) unfolding system_inv_def by blast
qed

lemma small_config:
  "config_valid (NewConfig [WithTaskQueueSize 1, WithWorkerNumCapacity 2])"
  "taskQueueSize (NewConfig [WithTaskQueueSize 1, WithWorkerNumCapacity 2]) < 2 ^ 62"
  "shards_want 8 (NewConfig [WithTaskQueueSize 1, WithWorkerNumCapacity 2]) \<le> 2 ^ 62"
proof -
  show "config_valid (NewConfig [WithTaskQueueSize 1, WithWorkerNumCapacity 2])"
    by (rule NewConfig_valid) (auto intro: config_option.intros simp: int64_range_def)
qed (simp_all add: NewConfig_def WithTaskQueueSize_def WithWorkerNumCapacity_def config_consts shards_want_def
    maxAutoShards_def Let_def)

theorem every_history_sound_witness:
  "\<exists>p s. NewPool 8 (Some (NewConfig [WithTaskQueueSize 1, WithWorkerNumCapacity 2])) ([], []) = Some p \<and>
     pool_calls example_env
       [OpSubmit None 0 (Some (TaskFunc (Some 1))), OpSubmit None 0 None, OpWorker 0 (\<lambda>w. 0) 0 None, OpClose]
       (new_system p) = Some s \<and>
     runningWorkersNum (thePool s) = int (length (live s))"
  using every_history_sound [OF small_config, where w = "([], [])" and env = example_env and
      ops = "[OpSubmit None 0 (Some (TaskFunc (Some 1))), OpSubmit None 0 None, OpWorker 0 (\<lambda>w. 0) 0 None, OpClose]"]
  by blast


lemma small_pool_submitted:
  fixes c defines "c \<equiv> NewConfig [WithTaskQueueSize 1, WithWorkerNumCapacity 2] :: (nat, unit, nat, nat, example_world) PanicHandler Config"
  shows "\<exists>p s. NewPool 8 (Some c) ([], []) = Some p \<and>
    pool_calls example_env [OpSubmit None 0 (Some (TaskFunc (Some 1)))] (new_system p) = Some s \<and> waiting s = [] \<and>
    pendingTasks (thePool s) = 1 \<and> getMedianRates (thePool s) = Some (Fin 0, Fin 0, Fin 0) \<and> config (thePool s) = c"
proof -
  let ?t = "TaskFunc (Some 1)"
  have v: "config_valid c" "taskQueueSize c < 2 ^ 62" "shards_want 8 c \<le> 2 ^ 62" unfolding c_def by (rule small_config)+
  obtain m p where p: "NewPool 8 (Some c) ([], []) = Some p" "pool_inv m [] p" "pendingTasks p = 0" "\<not> closed p" "config p = c"
    using NewPool_ok [of c 8 "([], [])"] v by (auto simp: config_valid_def pos64_def)
  have "workMode (config p) = BLOCK"
    by (simp add: p(5) c_def NewConfig_def WithTaskQueueSize_def WithWorkerNumCapacity_def config_consts)
  then obtain p' where s: "submit example_env None 0 (Background example_env) ?t p = Some (Accepted, p')"
    "pendingTasks p' = 1"
    using submit_ok [OF p(2), of ?t example_env None 0 "Background example_env"] p(3,4)
    by (auto simp: block_promise_def maxChunkLen_def submit_post_def pool_addPending_def)
  have "static p' = static p" using submit_static [OF s(1)] by blast
  moreover have "getMedianRates p = Some (Fin 0, Fin 0, Fin 0)"
    by (rule NewPool_scale_ok(4) [OF v(1) p(1)])
  ultimately have "getMedianRates p' = Some (Fin 0, Fin 0, Fin 0)" "config p' = c"
    using p(5) by (auto simp: static_def getMedianRates_def split: option.splits)
  then show ?thesis
    using p(1) s by (intro exI [of _ p]) (simp add: Submit_def new_system_def after_submit_def after_call_def)
qed


end
