(* ===== verification/Concurrent_Pool.thy ===== *)
theory Concurrent_Pool
  imports Lifecycle
begin

text \<open>
  The whole pool under concurrency. Any number of submitters, workers and closers and the
  scaler run at once; each atomic access of \<^verbatim>\<open>submit\<close>, \<^verbatim>\<open>worker.run\<close>,
  \<^verbatim>\<open>scaleIfNeeded\<close> and \<^verbatim>\<open>Close\<close>, and each critical section of the buffer and the
  idle container, is one step, and any goroutine may take the next one. A goroutine is its
  program counter; the goroutines of a kind form a multiset. Clients start submissions and
  calls of \<^verbatim>\<open>Close\<close> at any time, so also a running task may submit to its own pool, and
  the world may change at any time, so contexts may expire between any two steps.
  \<^verbatim>\<open>done\<close> is one step here; \<open>Drain\<close> shows what its parts and \<^verbatim>\<open>Wait\<close> do. The number of
  workers a scaler tick asks for is arbitrary, since the values it is computed from are
  read at different times.
\<close>

section \<open>Submitters\<close>

datatype submit_phase =
    PClosed            \<comment> \<open>registered; about to read \<^verbatim>\<open>closed\<close>\<close>
  | PCount             \<comment> \<open>about to count the submission\<close>
  | PLoad              \<comment> \<open>about to read the running count\<close>
  | PCas               \<comment> \<open>about to compare-and-swap it\<close>
  | PLaunch            \<comment> \<open>about to launch the first worker\<close>
  | PHook              \<comment> \<open>about to dispatch the submitted hook\<close>
  | PNext              \<comment> \<open>about to choose a shard\<close>
  | PTry nat           \<comment> \<open>about to try that shard\<close>
  | PBuffer            \<comment> \<open>about to push to the overflow buffer\<close>
  | PFull              \<comment> \<open>the buffer was full; about to choose a shard\<close>
  | PSelect nat        \<comment> \<open>in the last \<^verbatim>\<open>select\<close>\<close>
  | PEnqueued          \<comment> \<open>accepted; about to dispatch the enqueued hook\<close>
  | PReject            \<comment> \<open>turned away; about to call \<^verbatim>\<open>done\<close>\<close>
  | PEnd bool          \<comment> \<open>returned\<close>

text \<open>\<open>None\<close>: the goroutine has ended or waits.\<close>

fun submit_step ::
  "('f, 'b, 'c, 'v, 'w) task_env \<Rightarrow> nat option \<Rightarrow> nat \<Rightarrow> 'c \<Rightarrow> ('f, 'b, 'c) Task \<Rightarrow> submit_phase \<Rightarrow>
   ('f, 'b, 'c, 'v, 'w) Pool \<Rightarrow> (submit_phase \<times> ('f, 'b, 'c, 'v, 'w) Pool) option" where
  "submit_step env pick sel ctx task PClosed p = Some (if closed p then PReject else PCount, p)"
| "submit_step env pick sel ctx task PCount p = Some (PLoad, p\<lparr>submitCount := submitCount p + 1\<rparr>)"
| "submit_step env pick sel ctx task PLoad p = Some (if runningWorkersNum p = 0 then PCas else PHook, p)"
| "submit_step env pick sel ctx task PCas p =
     Some (if runningWorkersNum p = 0 then (PLaunch, p\<lparr>runningWorkersNum := 1\<rparr>) else (PHook, p))"
| "submit_step env pick sel ctx task PLaunch p =
     (let (w, p1) = workerPool_Get p in Some (PHook, startWorker w p1))"
| "submit_step env pick sel ctx task PHook p =
     Some (PNext, dispatchHook (\<lambda>h. iTaskSubmitted h (hook_ctx env task)) p)"
| "submit_step env pick sel ctx task PNext p =
     (let (i, seq) = nextShard (shardMask p) (sendSeq p) in Some (PTry i, p\<lparr>sendSeq := seq\<rparr>))"
| "submit_step env pick sel ctx task (PTry i) p =
     Some (if chan_room (taskQueues p ! i)
           then (PEnqueued, p\<lparr>taskQueues := (taskQueues p)[i := chan_send (Some task) (taskQueues p ! i)]\<rparr>)
           else if workMode (config p) = NONBLOCK then (PReject, p) else (PBuffer, p))"
| "submit_step env pick sel ctx task PBuffer p =
     (case PushAndForward pick (Some task) (try_send (shardMask p)) (taskBuf p, sendSeq p, taskQueues p) of
        None \<Rightarrow> None
      | Some (result, b, seq, qs) \<Rightarrow>
          Some (case result of taskBufferClosed \<Rightarrow> PReject | taskBufferFull \<Rightarrow> PFull | taskBufferAccepted \<Rightarrow> PEnqueued,
                p\<lparr>taskBuf := b, sendSeq := seq, taskQueues := qs\<rparr>))"
| "submit_step env pick sel ctx task PFull p =
     (let (i, seq) = nextShard (shardMask p) (sendSeq p) in Some (PSelect i, p\<lparr>sendSeq := seq\<rparr>))"
| "submit_step env pick sel ctx task (PSelect i) p =
     (let ready = (if chan_room (taskQueues p ! i) then [0::nat] else []) @
                  (if ctxErr env ctx (world p) then [1] else []) @ (if closePoolCn p then [2] else [])
      in if ready = [] then None
         else if ready ! (sel mod length ready) = 0 then
           Some (PEnqueued, p\<lparr>taskQueues := (taskQueues p)[i := chan_send (Some task) (taskQueues p ! i)]\<rparr>)
         else Some (PReject, p))"
| "submit_step env pick sel ctx task PEnqueued p = Some (PEnd True, dispatchTaskEnqueuedFor env task p)"
| "submit_step env pick sel ctx task PReject p = Some (PEnd False, pool_done p)"
| "submit_step env pick sel ctx task (PEnd b) p = None"

section \<open>Workers\<close>

datatype ('f, 'b, 'c) worker_phase =
    WStart worker
  | WScan worker nat
  | WPop worker
  | WHand worker "('f, 'b, 'c) Task option list"
  | WBusy worker "('f, 'b, 'c) Task option" "('f, 'b, 'c) Task option list"
  | WSettle worker "('f, 'b, 'c) Task option" "('f, 'b, 'c) Task option list"
  | WPark worker
  | WExit worker
  | WIdle worker
  | WEnd

text \<open>The two halves of \<^verbatim>\<open>runTask\<close> around its last action, \<^verbatim>\<open>done\<close>.\<close>

definition task_begin ::
  "('f, 'b, 'c, 'v, 'w) task_env \<Rightarrow> ('f, 'b, 'c) Task option \<Rightarrow> ('f, 'b, 'c, 'v, 'w) Pool \<Rightarrow> ('f, 'b, 'c, 'v, 'w) Pool" where
  "task_begin env task p =
     dispatchHook (\<lambda>h. iTaskStarted h (task_ctx env task)) (p\<lparr>consumeCount := consumeCount p + 1\<rparr>)"

definition task_body ::
  "('f, 'b, 'c, 'v, 'w) task_env \<Rightarrow> ('f, 'b, 'c) Task option \<Rightarrow> ('f, 'b, 'c, 'v, 'w) Pool \<Rightarrow> ('f, 'b, 'c, 'v, 'w) Pool" where
  "task_body env task p =
     (let (r, w) = process_task env task (world p); (recovered, p2) = recover_task task r (p\<lparr>world := w\<rparr>)
      in dispatchHook (\<lambda>h. iTaskCompleted h (task_ctx env task) recovered) p2)"

text \<open>\<open>None\<close>: a panic that ends the program, or a goroutine that has ended.\<close>

fun worker_step ::
  "('f, 'b, 'c, 'v, 'w) task_env \<Rightarrow> ('w \<Rightarrow> time) \<Rightarrow> int \<Rightarrow> nat option \<Rightarrow> ('f, 'b, 'c) worker_phase \<Rightarrow>
   ('f, 'b, 'c, 'v, 'w) Pool \<Rightarrow> (('f, 'b, 'c) worker_phase \<times> ('f, 'b, 'c, 'v, 'w) Pool) option" where
  "worker_step env now priority pick (WStart w) p = Some (WScan (w\<lparr>lastActiveAt := now (world p)\<rparr>) 0, p)"
| "worker_step env now priority pick (WScan w i) p =
     (if i < length (taskQueues p) then
        (let idx = (cursor w + of_nat i) AND shardMask p in
         if unat idx < length (taskQueues p) then
           (case chan_recv (taskQueues p ! unat idx) of
              None \<Rightarrow> Some (WScan w (i + 1), p)
            | Some (None, q) \<Rightarrow> Some (WScan w (i + 1), p\<lparr>taskQueues := (taskQueues p)[unat idx := q]\<rparr>)
            | Some (Some t, q) \<Rightarrow>
                Some (WHand (w\<lparr>cursor := idx\<rparr>) [Some t], p\<lparr>taskQueues := (taskQueues p)[unat idx := q]\<rparr>))
         else None)
      else Some (WPop w, p))"
| "worker_step env now priority pick (WPop w) p =
     (case PopBatch (replicate batchSize None) (taskBuf p) of
        None \<Rightarrow> None
      | Some (n, batch, b) \<Rightarrow> Some (if 0 < n then WHand w (take n batch) else WPark w, p\<lparr>taskBuf := b\<rparr>))"
| "worker_step env now priority pick (WHand w []) p = Some (WScan w 0, p)"
| "worker_step env now priority pick (WHand w (t # ts)) p =
     (if t = Some (ContextTask None) then None
      else Some (WBusy (w\<lparr>lastActiveAt := now (world p)\<rparr>) t ts, task_begin env t p))"
| "worker_step env now priority pick (WBusy w t ts) p = Some (WSettle w t ts, task_body env t p)"
| "worker_step env now priority pick (WSettle w t ts) p = Some (WHand w ts, pool_done p)"
| "worker_step env now priority pick (WPark w) p = Some (WExit w, addRunningWorkersNum (- 1) p)"
| "worker_step env now priority pick (WExit w) p = Some (WIdle w, p\<lparr>exitCount := exitCount p + 1\<rparr>)"
| "worker_step env now priority pick (WIdle w) p = map_option (\<lambda>q. (WEnd, q)) (addToIdle priority pick w p)"
| "worker_step env now priority pick WEnd p = None"

section \<open>The scaler and Close\<close>

text \<open>
  \<open>KAdd cur a\<close>: \<^verbatim>\<open>currentRunning\<close> was read as \<open>cur\<close> and \<^verbatim>\<open>actualSpawn\<close> is \<open>a\<close>;
  \<open>KLaunch k\<close>: \<open>k\<close> workers are still to be launched.
\<close>

datatype scaler_phase =
    KTick | KAdd int int | KLaunch nat | KClosed | KPending | KStopped

fun scaler_step :: "int \<Rightarrow> scaler_phase \<Rightarrow> ('f, 'b, 'c, 'v, 'w) Pool \<Rightarrow> (scaler_phase \<times> ('f, 'b, 'c, 'v, 'w) Pool) option" where
  "scaler_step n KTick p =
     (let a = actualSpawn (capacity p) (runningWorkersNum p) n
      in Some (if n \<le> 0 \<or> a \<le> 0 then KClosed else KAdd (runningWorkersNum p) a, p))"
| "scaler_step n (KAdd cur a) p = Some (KLaunch (nat a), addRunningWorkersNum a p)"
| "scaler_step n (KLaunch 0) p = Some (KClosed, p)"
| "scaler_step n (KLaunch (Suc k)) p = map_option (\<lambda>q. (KLaunch k, q)) (spawn_loop 1 p)"
| "scaler_step n KClosed p = Some (if closed p then KPending else KTick, p)"
| "scaler_step n KPending p = Some (if pendingTasks p = 0 then KStopped else KTick, p)"
| "scaler_step n KStopped p = None"

datatype close_phase = CCas | CBuffer | CChan | CHook | CEnd

fun close_step :: "close_phase \<Rightarrow> ('f, 'b, 'c, 'v, 'w) Pool \<Rightarrow> (close_phase \<times> ('f, 'b, 'c, 'v, 'w) Pool) option" where
  "close_step CCas p = Some (if closed p then (CEnd, p) else (CBuffer, p\<lparr>closed := True\<rparr>))"
| "close_step CBuffer p = Some (CChan, p\<lparr>taskBuf := buffer_Close (taskBuf p)\<rparr>)"
| "close_step CChan p = Some (CHook, p\<lparr>closePoolCn := True\<rparr>)"
| "close_step CHook p = Some (CEnd, dispatchHook iPoolClosed p)"
| "close_step CEnd p = None"

section \<open>Interleavings\<close>

text \<open>
  \<open>accepted\<close> and \<open>finished\<close> record the tasks that were enqueued and those whose \<^verbatim>\<open>done\<close>
  has run.
\<close>

record ('f, 'b, 'c, 'v, 'w) conc =
  shared :: "('f, 'b, 'c, 'v, 'w) Pool"
  submitters :: "('c \<times> ('f, 'b, 'c) Task \<times> submit_phase) multiset"
  workers :: "('f, 'b, 'c) worker_phase multiset"
  scalerAt :: scaler_phase
  closers :: "close_phase multiset"
  accepted :: "('f, 'b, 'c) Task option multiset"
  finished :: "('f, 'b, 'c) Task option multiset"

definition conc_init :: "('f, 'b, 'c, 'v, 'w) Pool \<Rightarrow> ('f, 'b, 'c, 'v, 'w) conc" where
  "conc_init p = \<lparr>shared = p, submitters = {#}, workers = {#}, scalerAt = KTick, closers = {#},
                  accepted = {#}, finished = {#}\<rparr>"

text \<open>The worker goroutines that a step launches.\<close>

definition launched :: "('f, 'b, 'c, 'v, 'w) Pool \<Rightarrow> ('f, 'b, 'c, 'v, 'w) Pool \<Rightarrow> ('f, 'b, 'c) worker_phase multiset" where
  "launched p q = mset (map WStart (drop (length (started p)) (started q)))"

definition newly_accepted :: "('f, 'b, 'c) Task \<Rightarrow> submit_phase \<Rightarrow> ('f, 'b, 'c) Task option multiset" where
  "newly_accepted task ph = (if ph = PEnqueued then {#Some task#} else {#})"

fun newly_finished :: "('f, 'b, 'c) worker_phase \<Rightarrow> ('f, 'b, 'c) Task option multiset" where
  "newly_finished (WSettle w t ts) = {#t#}"
| "newly_finished _ = {#}"

inductive conc_step :: "('f, 'b, 'c, 'v, 'w) task_env \<Rightarrow> ('f, 'b, 'c, 'v, 'w) conc \<Rightarrow> ('f, 'b, 'c, 'v, 'w) conc \<Rightarrow> bool"
  for env where
  client: "\<not> isNilTask (Some task) \<Longrightarrow>
    conc_step env s (s\<lparr>shared := pool_addPending (shared s), submitters := add_mset (ctx, task, PClosed) (submitters s)\<rparr>)"
| shut: "conc_step env s (s\<lparr>closers := add_mset CCas (closers s)\<rparr>)"
| environment: "conc_step env s (s\<lparr>shared := (shared s)\<lparr>world := w\<rparr>\<rparr>)"
| waiter: "conc_step env s (s\<lparr>shared := snd (pool_Wait (shared s))\<rparr>)"
| sampler: "statsSampler (shared s) = Some (e, q) \<Longrightarrow> conc_step env s (s\<lparr>shared := q\<rparr>)"
| cleaner: "expiredWorkerCleaner now (shared s) = Some q \<Longrightarrow> conc_step env s (s\<lparr>shared := q\<rparr>)"
| submitter: "submitters s = add_mset (ctx, task, ph) S \<Longrightarrow> submit_step env pick sel ctx task ph (shared s) = Some (ph', q) \<Longrightarrow>
    conc_step env s (s\<lparr>shared := q, submitters := add_mset (ctx, task, ph') S,
      workers := workers s + launched (shared s) q, accepted := accepted s + newly_accepted task ph'\<rparr>)"
| worker: "workers s = add_mset ph W \<Longrightarrow> worker_step env now priority pick ph (shared s) = Some (ph', q) \<Longrightarrow>
    conc_step env s (s\<lparr>shared := q, workers := add_mset ph' W, finished := finished s + newly_finished ph\<rparr>)"
| scaler: "scaler_step n (scalerAt s) (shared s) = Some (ph', q) \<Longrightarrow>
    conc_step env s (s\<lparr>shared := q, scalerAt := ph', workers := workers s + launched (shared s) q\<rparr>)"
| closer: "closers s = add_mset ph C \<Longrightarrow> close_step ph (shared s) = Some (ph', q) \<Longrightarrow>
    conc_step env s (s\<lparr>shared := q, closers := add_mset ph' C\<rparr>)"

inductive conc_reach ::
  "('f, 'b, 'c, 'v, 'w) task_env \<Rightarrow> ('f, 'b, 'c, 'v, 'w) Pool \<Rightarrow> ('f, 'b, 'c, 'v, 'w) conc \<Rightarrow> bool"
  for env p where
  conc_start: "conc_reach env p (conc_init p)"
| conc_more: "conc_reach env p s \<Longrightarrow> conc_step env s s' \<Longrightarrow> conc_reach env p s'"

section \<open>What each goroutine owns\<close>

text \<open>
  A submitter owns its registration until its task is enqueued or \<^verbatim>\<open>done\<close> has run. A
  worker owns the tasks it has taken and not settled. The running count is owned by the
  workers that have not parked and by whoever has raised it and not yet launched.
\<close>

type_synonym ('f, 'b, 'c) tasks = "('f, 'b, 'c) Task option multiset"
type_synonym ('f, 'b, 'c) submitter = "'c \<times> ('f, 'b, 'c) Task \<times> submit_phase"

fun registered :: "submit_phase \<Rightarrow> nat" where
  "registered PEnqueued = 0"
| "registered (PEnd b) = 0"
| "registered _ = 1"

fun shard_of :: "submit_phase \<Rightarrow> nat" where
  "shard_of (PTry i) = i"
| "shard_of (PSelect i) = i"
| "shard_of _ = 0"

fun in_hand :: "('f, 'b, 'c) worker_phase \<Rightarrow> ('f, 'b, 'c) tasks" where
  "in_hand (WHand w ts) = mset ts"
| "in_hand (WBusy w t ts) = add_mset t (mset ts)"
| "in_hand (WSettle w t ts) = add_mset t (mset ts)"
| "in_hand _ = {#}"

fun submit_duty :: "submit_phase \<Rightarrow> nat" where
  "submit_duty PLaunch = 1"
| "submit_duty _ = 0"

fun worker_duty :: "('f, 'b, 'c) worker_phase \<Rightarrow> nat" where
  "worker_duty (WExit w) = 0"
| "worker_duty (WIdle w) = 0"
| "worker_duty WEnd = 0"
| "worker_duty _ = 1"

fun scaler_duty :: "scaler_phase \<Rightarrow> nat" where
  "scaler_duty (KLaunch k) = k"
| "scaler_duty _ = 0"

definition submitter_ok :: "nat \<Rightarrow> ('f, 'b, 'c) submitter \<Rightarrow> bool" where
  "submitter_ok m x \<longleftrightarrow> \<not> isNilTask (Some (fst (snd x))) \<and> shard_of (snd (snd x)) < 2 ^ m"

definition worker_ok :: "nat \<Rightarrow> ('f, 'b, 'c) worker_phase \<Rightarrow> bool" where
  "worker_ok m ph \<longleftrightarrow> (\<forall>t\<in>#in_hand ph. \<not> isNilTask t)"

definition conc_shape :: "nat \<Rightarrow> ('f, 'b, 'c) Task option list \<Rightarrow> ('f, 'b, 'c, 'v, 'w) Pool \<Rightarrow> bool" where
  "conc_shape m xs p \<longleftrightarrow> shards_ok m (shardMask p) (taskQueues p) \<and> buf_rep (taskBuf p) xs \<and>
     idle_invar (idleWorks p) \<and> (\<forall>t\<in>#held xs p. \<not> isNilTask t)"

text \<open>
  The contract of the goroutines of one kind: a step keeps the pool in shape, and what the
  goroutine owns and what the pool holds change together.
\<close>

locale goroutines =
  fixes step :: "'x \<Rightarrow> ('f, 'b, 'c, 'v, 'w) Pool \<Rightarrow> 'x \<Rightarrow> ('f, 'b, 'c, 'v, 'w) Pool \<Rightarrow> bool"
    and ok :: "nat \<Rightarrow> 'x \<Rightarrow> bool"
    and holding :: "'x \<Rightarrow> ('f, 'b, 'c) tasks"
    and claim :: "'x \<Rightarrow> nat"
    and duty :: "'x \<Rightarrow> nat"
    and brings :: "'x \<Rightarrow> ('f, 'b, 'c) tasks"
    and ends :: "'x \<Rightarrow> ('f, 'b, 'c) tasks"
  assumes ok_law: "step x p x' q \<Longrightarrow> ok m x \<Longrightarrow> conc_shape m xs p \<Longrightarrow> ok m x'"
    and task_law: "step x p x' q \<Longrightarrow> ok m x \<Longrightarrow> conc_shape m xs p \<Longrightarrow>
      \<exists>xs'. conc_shape m xs' q \<and> held xs' q + holding x' + ends x = held xs p + holding x + brings x' \<and>
        pendingTasks q + int (claim x) + int (size (held xs p)) = pendingTasks p + int (claim x') + int (size (held xs' q))"
    and duty_law: "step x p x' q \<Longrightarrow> ok m x \<Longrightarrow> conc_shape m xs p \<Longrightarrow>
      runningWorkersNum q + int (duty x) = runningWorkersNum p + int (duty x') + int (size (launched p q))"
    and setup_law: "step x p x' q \<Longrightarrow> ok m x \<Longrightarrow> conc_shape m xs p \<Longrightarrow> capacity q = capacity p"
begin

lemma step_keeps:
  assumes "step x p x' q" and "\<forall>y\<in>#add_mset x R. ok m y" and "conc_shape m xs p"
    and "acc = fin + held xs p + (\<Sum>y\<in>#add_mset x R. holding y) + H"
    and "pendingTasks p = int (size (held xs p)) + int (\<Sum>y\<in>#add_mset x R. claim y) + C"
  shows "\<forall>y\<in>#add_mset x' R. ok m y"
    and "\<exists>xs'. conc_shape m xs' q \<and>
      acc + brings x' = fin + ends x + held xs' q + (\<Sum>y\<in>#add_mset x' R. holding y) + H \<and>
      pendingTasks q = int (size (held xs' q)) + int (\<Sum>y\<in>#add_mset x' R. claim y) + C"
proof -
  have x: "ok m x" using assms(2) by simp
  show "\<forall>y\<in>#add_mset x' R. ok m y" using ok_law [OF assms(1) x assms(3)] assms(2) by auto
  obtain xs' where xs: "conc_shape m xs' q" "held xs' q + holding x' + ends x = held xs p + holding x + brings x'"
    "pendingTasks q + int (claim x) + int (size (held xs p)) = pendingTasks p + int (claim x') + int (size (held xs' q))"
    using task_law [OF assms(1) x assms(3)] by blast
  have "acc + brings x' = fin + (held xs p + holding x + brings x') + (\<Sum>y\<in>#R. holding y) + H"
    using assms(4) by (simp add: ac_simps)
  then have "acc + brings x' = fin + ends x + held xs' q + (\<Sum>y\<in>#add_mset x' R. holding y) + H"
    unfolding xs(2) [symmetric] by (simp add: ac_simps)
  then show "\<exists>xs'. conc_shape m xs' q \<and>
      acc + brings x' = fin + ends x + held xs' q + (\<Sum>y\<in>#add_mset x' R. holding y) + H \<and>
      pendingTasks q = int (size (held xs' q)) + int (\<Sum>y\<in>#add_mset x' R. claim y) + C"
    using xs assms(5) by (intro exI [of _ xs']) simp
qed

lemma step_counts:
  assumes "step x p x' q" and "ok m x" and "conc_shape m xs p"
    and "runningWorkersNum p = int (\<Sum>y\<in>#add_mset x R. duty y) + D"
  shows "runningWorkersNum q = int (\<Sum>y\<in>#add_mset x' R. duty y) + D + int (size (launched p q))"
  using duty_law [OF assms(1-3)] assms(4) by simp

end

section \<open>The steps of each kind\<close>

lemma conc_shape_cong:
  assumes "taskQueues q = taskQueues p" and "shardMask q = shardMask p" and "taskBuf q = taskBuf p" and "idleWorks q = idleWorks p"
  shows "conc_shape m xs q = conc_shape m xs p" and "held xs q = held xs p"
  using assms by (simp_all add: conc_shape_def held_def)

lemma launched_none [simp]: "started q = started p \<Longrightarrow> launched p q = {#}"
  by (simp add: launched_def)

lemma launched_one: "started q = started p @ ws \<Longrightarrow> size (launched p q) = length ws"
  by (simp add: launched_def)

text \<open>A successful send.\<close>

lemma shape_send:
  assumes "conc_shape m xs p" and "i < 2 ^ m" and "chan_room (taskQueues p ! i)" and "\<not> isNilTask (Some task)"
  defines "q \<equiv> p\<lparr>taskQueues := (taskQueues p)[i := chan_send (Some task) (taskQueues p ! i)]\<rparr>"
  shows "conc_shape m xs q" and "held xs q = add_mset (Some task) (held xs p)"
proof -
  have s: "shards_ok m (shardMask p) (taskQueues p)" using assms(1) by (simp add: conc_shape_def)
  then have i: "i < length (taskQueues p)" using assms(2) by (simp add: shards_ok_def)
  show h: "held xs q = add_mset (Some task) (held xs p)"
    using shards_mset_send [OF i, of "Some task"] by (simp add: held_def q_def)
  show "conc_shape m xs q"
    using assms(1,4) h shards_ok_send [OF s assms(2,3), of "Some task"] by (simp add: conc_shape_def q_def)
qed

text \<open>The push to the overflow buffer.\<close>

lemma shape_push:
  assumes shape: "conc_shape m xs p" and task: "\<not> isNilTask (Some task)"
  obtains r b seq qs xs' where
    "PushAndForward pick (Some task) (try_send (shardMask p)) (taskBuf p, sendSeq p, taskQueues p) = Some (r, b, seq, qs)"
    and "conc_shape m xs' (p\<lparr>taskBuf := b, sendSeq := seq, taskQueues := qs\<rparr>)"
    and "held xs' (p\<lparr>taskBuf := b, sendSeq := seq, taskQueues := qs\<rparr>) =
           held xs p + (if r = taskBufferAccepted then {#Some task#} else {#})"
    and "overflowClosed b = overflowClosed (taskBuf p)" and "r = taskBufferClosed \<longleftrightarrow> overflowClosed (taskBuf p)"
proof -
  have s: "shards_ok m (shardMask p) (taskQueues p)" and b: "buf_rep (taskBuf p) xs"
    using shape by (simp_all add: conc_shape_def)
  obtain r b' seq qs xs' where
    b': "PushAndForward pick (Some task) (try_send (shardMask p)) (taskBuf p, sendSeq p, taskQueues p) = Some (r, b', seq, qs)"
      "buf_rep b' xs'" "overflowClosed b' = overflowClosed (taskBuf p)" "shards_ok m (shardMask p) qs"
      "shards_mset qs + mset xs' = shards_mset (taskQueues p) + mset xs + (if r = taskBufferAccepted then {#Some task#} else {#})"
      "overflowClosed (taskBuf p) \<longleftrightarrow> r = taskBufferClosed"
    by (rule push_ok [OF s b])
  let ?q = "p\<lparr>taskBuf := b', sendSeq := seq, taskQueues := qs\<rparr>"
  have h: "held xs' ?q = held xs p + (if r = taskBufferAccepted then {#Some task#} else {#})"
    using b'(5) by (simp add: held_def)
  have "conc_shape m xs' ?q" using shape task b' unfolding conc_shape_def h by simp
  then show thesis using that [OF b'(1) _ h b'(3)] b'(6) by blast
qed

lemma select_step:
  assumes "submit_step env pick sel ctx task (PSelect i) p = Some (ph', q)"
  obtains (sent) "chan_room (taskQueues p ! i)" "ph' = PEnqueued"
      "q = p\<lparr>taskQueues := (taskQueues p)[i := chan_send (Some task) (taskQueues p ! i)]\<rparr>"
    | (turned) "ctxErr env ctx (world p) \<or> closePoolCn p" "ph' = PReject" "q = p"
proof -
  define ready where "ready = (if chan_room (taskQueues p ! i) then [0::nat] else []) @
      (if ctxErr env ctx (world p) then [1] else []) @ (if closePoolCn p then [2] else [])"
  let ?k = "ready ! (sel mod length ready)"
  have s: "Some (ph', q) = (if ready = [] then None
      else if ?k = 0 then Some (PEnqueued, p\<lparr>taskQueues := (taskQueues p)[i := chan_send (Some task) (taskQueues p ! i)]\<rparr>)
      else Some (PReject, p))"
    unfolding assms [symmetric] submit_step.simps Let_def ready_def [symmetric] ..
  have "ready \<noteq> [] \<Longrightarrow> ?k \<in> set ready" by (intro nth_mem) simp
  then have "ready \<noteq> [] \<Longrightarrow> (if ?k = 0 then chan_room (taskQueues p ! i) else ctxErr env ctx (world p) \<or> closePoolCn p)"
    by (auto simp: ready_def split: if_splits)
  then show thesis using s sent turned by (auto split: if_splits)
qed

text \<open>The phases that leave the queues and the counters alone.\<close>

lemma enqueued_frame [simp]:
  "taskQueues (dispatchTaskEnqueuedFor env task p) = taskQueues p" "shardMask (dispatchTaskEnqueuedFor env task p) = shardMask p"
  "taskBuf (dispatchTaskEnqueuedFor env task p) = taskBuf p" "idleWorks (dispatchTaskEnqueuedFor env task p) = idleWorks p"
  "started (dispatchTaskEnqueuedFor env task p) = started p" "capacity (dispatchTaskEnqueuedFor env task p) = capacity p"
  "runningWorkersNum (dispatchTaskEnqueuedFor env task p) = runningWorkersNum p"
  "closed (dispatchTaskEnqueuedFor env task p) = closed p" "closePoolCn (dispatchTaskEnqueuedFor env task p) = closePoolCn p"
  by (simp_all add: dispatchTaskEnqueuedFor_def)

lemma submit_step_tasks:
  assumes step: "submit_step env pick sel ctx task ph p = Some (ph', q)"
    and ok: "submitter_ok m (ctx, task, ph)" and shape: "conc_shape m xs p"
  shows "submitter_ok m (ctx, task, ph') \<and>
    (\<exists>xs'. conc_shape m xs' q \<and> held xs' q = held xs p + newly_accepted task ph' \<and>
       pendingTasks q = pendingTasks p - (if ph = PReject then 1 else 0))"
proof -
  have task: "\<not> isNilTask (Some task)" using ok by (simp add: submitter_ok_def)
  have idx: "fst (nextShard (shardMask p) (sendSeq p)) < 2 ^ m"
    using shape nextShard_range [of m] by (simp add: conc_shape_def shards_ok_def)
  have same: ?thesis
    if "taskQueues q = taskQueues p" "shardMask q = shardMask p" "taskBuf q = taskBuf p" "idleWorks q = idleWorks p"
      "ph' \<noteq> PEnqueued" "shard_of ph' < 2 ^ m" "pendingTasks q = pendingTasks p - (if ph = PReject then 1 else 0)"
    using that task shape conc_shape_cong [OF that(1-4)] by (auto simp: submitter_ok_def newly_accepted_def)
  have send: ?thesis if "ph = PTry i \<or> ph = PSelect i" "chan_room (taskQueues p ! i)" "ph' = PEnqueued"
      "q = p\<lparr>taskQueues := (taskQueues p)[i := chan_send (Some task) (taskQueues p ! i)]\<rparr>" for i
  proof -
    have "i < 2 ^ m" using ok that(1) by (auto simp: submitter_ok_def)
    then show ?thesis using shape_send [OF shape _ that(2) task] that task
      by (auto simp: submitter_ok_def newly_accepted_def)
  qed
  show ?thesis
  proof (cases ph)
    case PBuffer
    obtain r b seq qs xs' where push:
      "PushAndForward pick (Some task) (try_send (shardMask p)) (taskBuf p, sendSeq p, taskQueues p) = Some (r, b, seq, qs)"
      "conc_shape m xs' (p\<lparr>taskBuf := b, sendSeq := seq, taskQueues := qs\<rparr>)"
      "held xs' (p\<lparr>taskBuf := b, sendSeq := seq, taskQueues := qs\<rparr>) = held xs p + (if r = taskBufferAccepted then {#Some task#} else {#})"
      by (rule shape_push [OF shape task])
    then show ?thesis using step PBuffer task
      by (cases r) (auto simp: submitter_ok_def newly_accepted_def)
  next
    case (PTry i)
    then show ?thesis using step send [of i] same by (auto split: if_splits)
  next
    case (PSelect i)
    from step [unfolded PSelect] show ?thesis
      by (cases rule: select_step) (use send [of i] same PSelect in auto)
  qed (use step same idx in
        \<open>auto simp: workerPool_Get_def startWorker_def Let_def split: if_splits prod.splits\<close>)
qed

lemma submit_step_duty:
  assumes "submit_step env pick sel ctx task ph p = Some (ph', q)"
  shows "runningWorkersNum q + int (submit_duty ph) = runningWorkersNum p + int (submit_duty ph') + int (size (launched p q))"
    and "capacity q = capacity p" and "closed q = closed p" and "closePoolCn q = closePoolCn p"
    and "runningWorkersNum q = runningWorkersNum p \<or> runningWorkersNum p = 0 \<and> runningWorkersNum q = 1"
proof -
  have "runningWorkersNum q + int (submit_duty ph) = runningWorkersNum p + int (submit_duty ph') + int (size (launched p q)) \<and>
    capacity q = capacity p \<and> closed q = closed p \<and> closePoolCn q = closePoolCn p \<and>
    (runningWorkersNum q = runningWorkersNum p \<or> runningWorkersNum p = 0 \<and> runningWorkersNum q = 1)"
  proof (cases ph)
    case (PSelect i)
    from assms [unfolded PSelect] show ?thesis
      by (cases rule: select_step) (simp_all add: PSelect)
  next
    case PBuffer
    then show ?thesis using assms
      by (auto split: option.splits taskBufferPushResult.splits)
  qed (use assms in \<open>auto simp: workerPool_Get_def startWorker_def Let_def launched_def split: if_splits prod.splits\<close>)
  then show "runningWorkersNum q + int (submit_duty ph) = runningWorkersNum p + int (submit_duty ph') + int (size (launched p q))"
    and "capacity q = capacity p" and "closed q = closed p" and "closePoolCn q = closePoolCn p"
    and "runningWorkersNum q = runningWorkersNum p \<or> runningWorkersNum p = 0 \<and> runningWorkersNum q = 1"
    by blast+
qed

text \<open>A worker's scan takes the head of one shard, its batch pop the oldest tasks of the buffer.\<close>

lemma scan_step:
  assumes shape: "conc_shape m xs p" and i: "i < length (taskQueues p)"
  obtains (empty) "worker_step env now priority pick (WScan w i) p = Some (WScan w (i + 1), p)"
    | (found) t q where "worker_step env now priority pick (WScan w i) p =
          Some (WHand (w\<lparr>cursor := (cursor w + of_nat i) AND shardMask p\<rparr>) [Some t], q)"
        "conc_shape m xs q" "held xs p = add_mset (Some t) (held xs q)" "\<exists>qs. q = p\<lparr>taskQueues := qs\<rparr>"
proof -
  let ?idx = "(cursor w + of_nat i) AND shardMask p"
  have s: "shards_ok m (shardMask p) (taskQueues p)" using shape by (simp add: conc_shape_def)
  then have lt: "unat ?idx < length (taskQueues p)" by (simp add: shards_ok_def unat_and_mask)
  show thesis
  proof (cases "chanItems (taskQueues p ! unat ?idx)")
    case Nil
    then show ?thesis using empty i lt by (simp add: chan_recv_def Let_def)
  next
    case (Cons x ts)
    let ?q = "p\<lparr>taskQueues := (taskQueues p)[unat ?idx := (taskQueues p ! unat ?idx)\<lparr>chanItems := ts\<rparr>]\<rparr>"
    have h: "held xs p = add_mset x (held xs ?q)" using shards_recv(2) [OF s lt Cons] by (simp add: held_def)
    then have "\<not> isNilTask x" using shape by (simp add: conc_shape_def)
    then obtain t where t: "x = Some t" by (cases x) auto
    have "conc_shape m xs ?q" using shape h shards_recv(1) [OF s lt Cons] by (simp add: conc_shape_def)
    moreover have "worker_step env now priority pick (WScan w i) p = Some (WHand (w\<lparr>cursor := ?idx\<rparr>) [Some t], ?q)"
      using Cons t i lt by (simp add: chan_recv_def Let_def)
    ultimately show ?thesis using found h t by blast
  qed
qed

lemma pop_step:
  assumes shape: "conc_shape m xs p"
  obtains b where "worker_step env now priority pick (WPop w) p =
      Some (if xs = [] then WPark w else WHand w (take batchSize xs), p\<lparr>taskBuf := b\<rparr>)"
    and "conc_shape m (drop batchSize xs) (p\<lparr>taskBuf := b\<rparr>)"
    and "held xs p = held (drop batchSize xs) (p\<lparr>taskBuf := b\<rparr>) + mset (take batchSize xs)"
    and "overflowClosed b = overflowClosed (taskBuf p)"
proof -
  have "buf_rep (taskBuf p) xs" using shape by (simp add: conc_shape_def)
  from PopBatch_ok [OF this, of "replicate batchSize None"] obtain b where
    b: "PopBatch (replicate batchSize None) (taskBuf p) =
        Some (min batchSize (length xs), take batchSize xs @ drop (length xs) (replicate batchSize None), b)"
      "buf_rep b (drop batchSize xs)" "overflowClosed b = overflowClosed (taskBuf p)"
    by auto
  have h: "held xs p = held (drop batchSize xs) (p\<lparr>taskBuf := b\<rparr>) + mset (take batchSize xs)"
  proof -
    have "mset xs = mset (take batchSize xs) + mset (drop batchSize xs)" by (metis append_take_drop_id mset_append)
    then show ?thesis by (simp add: held_def ac_simps)
  qed
  then have "conc_shape m (drop batchSize xs) (p\<lparr>taskBuf := b\<rparr>)" using shape b(2) by (auto simp: conc_shape_def)
  moreover have "min (min batchSize (length xs)) batchSize = min batchSize (length xs)" by simp
  then have "worker_step env now priority pick (WPop w) p =
      Some (if xs = [] then WPark w else WHand w (take batchSize xs), p\<lparr>taskBuf := b\<rparr>)"
    using b(1) by (cases "xs = []") (auto simp: batchSize_def min_def)
  ultimately show thesis using that h b(3) by blast
qed

lemma task_frame [simp]:
  "taskQueues (task_begin env t p) = taskQueues p" "shardMask (task_begin env t p) = shardMask p"
  "taskBuf (task_begin env t p) = taskBuf p" "idleWorks (task_begin env t p) = idleWorks p"
  "pendingTasks (task_begin env t p) = pendingTasks p" "started (task_begin env t p) = started p"
  "capacity (task_begin env t p) = capacity p" "runningWorkersNum (task_begin env t p) = runningWorkersNum p"
  "closed (task_begin env t p) = closed p" "closePoolCn (task_begin env t p) = closePoolCn p"
  "taskQueues (task_body env t p) = taskQueues p" "shardMask (task_body env t p) = shardMask p"
  "taskBuf (task_body env t p) = taskBuf p" "idleWorks (task_body env t p) = idleWorks p"
  "pendingTasks (task_body env t p) = pendingTasks p"
  "closed (task_body env t p) = closed p" "closePoolCn (task_body env t p) = closePoolCn p"
  by (simp_all add: task_begin_def task_body_def case_prod_beta Let_def)

lemma task_body_frame [simp]:
  "runningWorkersNum (task_body env t p) = runningWorkersNum p" "started (task_body env t p) = started p"
  "capacity (task_body env t p) = capacity p"
proof -
  have "crew (task_body env t p) = crew p" "static (task_body env t p) = static p"
    by (simp_all add: task_body_def case_prod_beta Let_def)
  then show "runningWorkersNum (task_body env t p) = runningWorkersNum p" "started (task_body env t p) = started p"
    "capacity (task_body env t p) = capacity p"
    by (simp_all add: crew_def static_def)
qed

text \<open>
  Every step of a worker: none gets stuck but in \<open>WEnd\<close>, what is taken from the queues is
  in the worker's hands, and the pending count falls where a task is settled.
\<close>

definition worker_post ::
  "nat \<Rightarrow> ('f, 'b, 'c) Task option list \<Rightarrow> ('f, 'b, 'c) worker_phase \<Rightarrow> ('f, 'b, 'c, 'v, 'w) Pool \<Rightarrow>
   ('f, 'b, 'c) worker_phase \<Rightarrow> ('f, 'b, 'c, 'v, 'w) Pool \<Rightarrow> bool" where
  "worker_post m xs ph p ph' q \<longleftrightarrow>
     (\<exists>xs'. conc_shape m xs' q \<and> held xs' q + in_hand ph' + newly_finished ph = held xs p + in_hand ph) \<and>
     pendingTasks q = pendingTasks p - int (size (newly_finished ph)) \<and>
     runningWorkersNum q + int (worker_duty ph) = runningWorkersNum p + int (worker_duty ph') \<and> worker_duty ph' \<le> worker_duty ph \<and>
     started q = started p \<and> capacity q = capacity p \<and> closed q = closed p \<and> closePoolCn q = closePoolCn p \<and>
     overflowClosed (taskBuf q) = overflowClosed (taskBuf p)"

lemma worker_postI:
  assumes "conc_shape m xs p" and "taskQueues q = taskQueues p" "shardMask q = shardMask p" "taskBuf q = taskBuf p" "idleWorks q = idleWorks p"
    and "in_hand ph' + newly_finished ph = in_hand ph" and "pendingTasks q = pendingTasks p - int (size (newly_finished ph))"
    and "runningWorkersNum q + int (worker_duty ph) = runningWorkersNum p + int (worker_duty ph')" "worker_duty ph' \<le> worker_duty ph"
    and "started q = started p" "capacity q = capacity p" "closed q = closed p" "closePoolCn q = closePoolCn p"
  shows "worker_post m xs ph p ph' q"
  using assms conc_shape_cong [OF assms(2-5)] by (auto simp: worker_post_def add.assoc intro!: exI [of _ xs])

lemma worker_step_ok:
  assumes shape: "conc_shape m xs p" and ok: "worker_ok m ph" and live: "ph \<noteq> WEnd"
  shows "\<exists>ph' q. worker_step env now priority pick ph p = Some (ph', q) \<and> worker_post m xs ph p ph' q"
proof (cases ph)
  case (WScan w i)
  show ?thesis
  proof (cases "i < length (taskQueues p)")
    case True
    show ?thesis
      by (cases rule: scan_step [OF shape True, of env now priority pick w])
        (auto simp: WScan worker_post_def shape simp del: worker_step.simps intro!: exI [of _ xs])
  next
    case False
    then show ?thesis by (auto simp: WScan intro!: worker_postI [OF shape])
  qed
next
  case (WPop w)
  show ?thesis
    by (rule pop_step [OF shape, of env now priority pick w]) (auto simp: WPop worker_post_def simp del: worker_step.simps)
next
  case (WHand w ts)
  then have "\<forall>t\<in>set ts. t \<noteq> Some (ContextTask None)" using ok by (auto simp: worker_ok_def)
  then show ?thesis by (cases ts) (auto simp: WHand intro!: worker_postI [OF shape])
next
  case (WIdle w)
  obtain c where "idle_Add priority pick w (idleWorks p) = Some c" "idle_invar c"
    using works.add_ok shape unfolding conc_shape_def by blast
  then show ?thesis using shape by (auto simp: WIdle addToIdle_def worker_post_def conc_shape_def held_def)
qed (use live in \<open>auto simp: addRunningWorkersNum_def intro!: worker_postI [OF shape]\<close>)

lemma worker_post_ok:
  assumes "worker_post m xs ph p ph' q" and "conc_shape m xs p" and "worker_ok m ph"
  shows "worker_ok m ph'"
proof -
  obtain xs' where "held xs' q + in_hand ph' + newly_finished ph = held xs p + in_hand ph"
    using assms(1) by (auto simp: worker_post_def)
  then have "t \<in># held xs p + in_hand ph" if "t \<in># in_hand ph'" for t
    using that by (metis union_iff)
  then show ?thesis using assms(2,3) by (auto simp: worker_ok_def conc_shape_def)
qed

lemma worker_stepD:
  assumes "worker_step env now priority pick ph p = Some (ph', q)" and "conc_shape m xs p" and "worker_ok m ph"
  shows "worker_post m xs ph p ph' q"
proof -
  have "ph \<noteq> WEnd" using assms(1) by auto
  then show ?thesis using worker_step_ok [OF assms(2,3), of env now priority pick] assms(1) by auto
qed

text \<open>The scaler: only its add raises the running count, by what it is about to launch.\<close>

definition scaler_post ::
  "nat \<Rightarrow> ('f, 'b, 'c) Task option list \<Rightarrow> scaler_phase \<Rightarrow> ('f, 'b, 'c, 'v, 'w) Pool \<Rightarrow> scaler_phase \<Rightarrow> ('f, 'b, 'c, 'v, 'w) Pool \<Rightarrow> bool" where
  "scaler_post m xs ph p ph' q \<longleftrightarrow>
     conc_shape m xs q \<and> held xs q = held xs p \<and> pendingTasks q = pendingTasks p \<and> capacity q = capacity p \<and>
     closed q = closed p \<and> closePoolCn q = closePoolCn p \<and> overflowClosed (taskBuf q) = overflowClosed (taskBuf p) \<and>
     ((\<forall>cur a. ph \<noteq> KAdd cur a) \<longrightarrow> runningWorkersNum q = runningWorkersNum p)"

text \<open>The scaler adds only a positive number.\<close>

fun scaler_ok :: "nat \<Rightarrow> scaler_phase \<Rightarrow> bool" where
  "scaler_ok m (KAdd cur a) \<longleftrightarrow> 0 < a"
| "scaler_ok m _ \<longleftrightarrow> True"

lemma scaler_step_ok:
  assumes "conc_shape m xs p" and "scaler_ok m ph" and "ph \<noteq> KStopped"
  shows "\<exists>ph' q. scaler_step n ph p = Some (ph', q) \<and> scaler_post m xs ph p ph' q \<and> scaler_ok m ph' \<and>
    runningWorkersNum q + int (scaler_duty ph) = runningWorkersNum p + int (scaler_duty ph') + int (size (launched p q))"
proof (cases ph)
  case (KLaunch k)
  show ?thesis
  proof (cases k)
    case (Suc j)
    obtain q where q: "spawn_loop 1 p = Some q" "spawned 1 p q"
      using spawn_loop_ok [of p 1] assms(1) by (auto simp: conc_shape_def)
    from q(2) show ?thesis
      by (rule spawned_eq)
        (use q(1) KLaunch Suc assms(1) in \<open>auto simp: scaler_post_def conc_shape_def held_def launched_def\<close>)
  qed (use assms KLaunch in \<open>auto simp: scaler_post_def\<close>)
qed (use assms in \<open>auto simp: scaler_post_def addRunningWorkersNum_def Let_def conc_shape_def held_def\<close>)

lemma close_step_ok:
  assumes "conc_shape m xs p" and "close_step ph p = Some (ph', q)"
  shows "conc_shape m xs q \<and> held xs q = held xs p \<and> pendingTasks q = pendingTasks p \<and> capacity q = capacity p \<and>
    runningWorkersNum q = runningWorkersNum p \<and> started q = started p \<and> (closed p \<longrightarrow> closed q)"
  using assms tbuf.shut_law [of "taskBuf p" xs]
  by (cases ph) (auto simp: conc_shape_def held_def split: if_splits)

section \<open>The kinds of goroutines keep the contract\<close>

definition submitter_moves ::
  "('f, 'b, 'c, 'v, 'w) task_env \<Rightarrow> ('f, 'b, 'c) submitter \<Rightarrow> ('f, 'b, 'c, 'v, 'w) Pool \<Rightarrow>
   ('f, 'b, 'c) submitter \<Rightarrow> ('f, 'b, 'c, 'v, 'w) Pool \<Rightarrow> bool" where
  "submitter_moves env x p x' q \<longleftrightarrow>
     (\<exists>pick sel ctx task ph ph'. x = (ctx, task, ph) \<and> x' = (ctx, task, ph') \<and>
        submit_step env pick sel ctx task ph p = Some (ph', q))"

definition worker_moves ::
  "('f, 'b, 'c, 'v, 'w) task_env \<Rightarrow> ('f, 'b, 'c) worker_phase \<Rightarrow> ('f, 'b, 'c, 'v, 'w) Pool \<Rightarrow>
   ('f, 'b, 'c) worker_phase \<Rightarrow> ('f, 'b, 'c, 'v, 'w) Pool \<Rightarrow> bool" where
  "worker_moves env ph p ph' q \<longleftrightarrow> (\<exists>now priority pick. worker_step env now priority pick ph p = Some (ph', q))"

definition scaler_moves ::
  "scaler_phase \<Rightarrow> ('f, 'b, 'c, 'v, 'w) Pool \<Rightarrow> scaler_phase \<Rightarrow> ('f, 'b, 'c, 'v, 'w) Pool \<Rightarrow> bool" where
  "scaler_moves ph p ph' q \<longleftrightarrow> (\<exists>n. scaler_step n ph p = Some (ph', q))"

definition closer_moves ::
  "close_phase \<Rightarrow> ('f, 'b, 'c, 'v, 'w) Pool \<Rightarrow> close_phase \<Rightarrow> ('f, 'b, 'c, 'v, 'w) Pool \<Rightarrow> bool" where
  "closer_moves ph p ph' q \<longleftrightarrow> close_step ph p = Some (ph', q)"

interpretation subs: goroutines "submitter_moves env" submitter_ok "\<lambda>x. {#}" "\<lambda>x. registered (snd (snd x))"
  "\<lambda>x. submit_duty (snd (snd x))" "\<lambda>x. newly_accepted (fst (snd x)) (snd (snd x))" "\<lambda>x. {#}"
proof
  fix x p x' q m xs
  assume "submitter_moves env x p x' q" and ok: "submitter_ok m x" and shape: "conc_shape m xs p"
  then obtain pick sel ctx task ph ph' where x: "x = (ctx, task, ph)" "x' = (ctx, task, ph')"
    and s: "submit_step env pick sel ctx task ph p = Some (ph', q)"
    by (auto simp: submitter_moves_def)
  note t = submit_step_tasks [OF s ok [unfolded x] shape] and d = submit_step_duty [OF s]
  then obtain xs' where xs: "conc_shape m xs' q" "held xs' q = held xs p + newly_accepted task ph'"
    "pendingTasks q = pendingTasks p - (if ph = PReject then 1 else 0)"
    by blast
  have "int (registered ph) = int (registered ph') + int (size (newly_accepted task ph')) + (if ph = PReject then 1 else 0)"
    using s by (cases rule: submit_step.cases [of "(env, pick, sel, ctx, task, ph, p)"])
      (auto simp: newly_accepted_def Let_def split: if_splits option.splits taskBufferPushResult.splits prod.splits)
  then show "\<exists>xs'. conc_shape m xs' q \<and> held xs' q + {#} + {#} = held xs p + {#} + newly_accepted (fst (snd x')) (snd (snd x')) \<and>
      pendingTasks q + int (registered (snd (snd x))) + int (size (held xs p)) =
      pendingTasks p + int (registered (snd (snd x'))) + int (size (held xs' q))"
    using xs x by auto
qed (auto simp: submitter_moves_def submit_step_duty submit_step_tasks)

interpretation wrks: goroutines "worker_moves env" worker_ok in_hand "\<lambda>x. size (in_hand x)" worker_duty "\<lambda>x. {#}" newly_finished
proof
  fix x p x' q m xs
  assume "worker_moves env x p x' q" and ok: "worker_ok m x" and shape: "conc_shape m xs p"
  then obtain now priority pick where "worker_step env now priority pick x p = Some (x', q)"
    by (auto simp: worker_moves_def)
  then have post: "worker_post m xs x p x' q" by (rule worker_stepD [OF _ shape ok])
  then obtain xs' where xs: "conc_shape m xs' q" "held xs' q + in_hand x' + newly_finished x = held xs p + in_hand x"
    "pendingTasks q = pendingTasks p - int (size (newly_finished x))"
    by (auto simp: worker_post_def)
  have "size (held xs' q) + size (in_hand x') + size (newly_finished x) = size (held xs p) + size (in_hand x)"
    unfolding size_union [symmetric] by (rule arg_cong [OF xs(2)])
  then show "\<exists>xs'. conc_shape m xs' q \<and> held xs' q + in_hand x' + newly_finished x = held xs p + in_hand x + {#} \<and>
      pendingTasks q + int (size (in_hand x)) + int (size (held xs p)) =
      pendingTasks p + int (size (in_hand x')) + int (size (held xs' q))"
    using xs by (intro exI [of _ xs']) simp
  show "worker_ok m x'" by (rule worker_post_ok [OF post shape ok])
  show "runningWorkersNum q + int (worker_duty x) = runningWorkersNum p + int (worker_duty x') + int (size (launched p q))"
    "capacity q = capacity p"
    using post by (simp_all add: worker_post_def)
qed

interpretation scal: goroutines scaler_moves scaler_ok "\<lambda>x. {#}" "\<lambda>x. 0" scaler_duty "\<lambda>x. {#}" "\<lambda>x. {#}"
proof
  fix x p x' q m xs
  assume "scaler_moves x p x' q" and ok: "scaler_ok m x" and shape: "conc_shape m xs p"
  then obtain n where s: "scaler_step n x p = Some (x', q)" by (auto simp: scaler_moves_def)
  then have live: "x \<noteq> KStopped" by auto
  then have post: "scaler_post m xs x p x' q" "scaler_ok m x'"
    "runningWorkersNum q + int (scaler_duty x) = runningWorkersNum p + int (scaler_duty x') + int (size (launched p q))"
    using s scaler_step_ok [OF shape ok live, of n] by auto
  then show "scaler_ok m x'" "runningWorkersNum q + int (scaler_duty x) = runningWorkersNum p + int (scaler_duty x') + int (size (launched p q))"
    "capacity q = capacity p"
    "\<exists>xs'. conc_shape m xs' q \<and> held xs' q + {#} + {#} = held xs p + {#} + {#} \<and>
      pendingTasks q + int 0 + int (size (held xs p)) = pendingTasks p + int 0 + int (size (held xs' q))"
    by (auto simp: scaler_post_def intro!: exI [of _ xs])
qed

interpretation clos: goroutines closer_moves "\<lambda>m x. True" "\<lambda>x. {#}" "\<lambda>x. 0" "\<lambda>x. 0" "\<lambda>x. {#}" "\<lambda>x. {#}"
  by unfold_locales (auto simp: closer_moves_def dest!: close_step_ok [rotated] intro!: exI)

end
