(* ===== verification/Concurrent_Ledger.thy ===== *)
theory Concurrent_Ledger
  imports Concurrent_Pool
begin

text \<open>
  The invariant of the concurrent pool: the ledger of the tasks, the count of the workers,
  and the end of the scaler. It holds in every state that any interleaving reaches.
\<close>

section \<open>The ledger\<close>

text \<open>
  In every state, the tasks accepted so far are those finished, those in the queues and
  those in the workers' hands, and the pending count is the number of the latter two plus
  the submissions in flight.
\<close>

definition hands :: "('f, 'b, 'c, 'v, 'w) conc \<Rightarrow> ('f, 'b, 'c) tasks" where
  "hands s = (\<Sum>ph\<in>#workers s. in_hand ph)"

definition in_flight :: "('f, 'b, 'c, 'v, 'w) conc \<Rightarrow> nat" where
  "in_flight s = (\<Sum>x\<in>#submitters s. registered (snd (snd x)))"

definition conc_ledger :: "nat \<Rightarrow> ('f, 'b, 'c, 'v, 'w) conc \<Rightarrow> bool" where
  "conc_ledger m s \<longleftrightarrow>
     (\<forall>x\<in>#submitters s. submitter_ok m x) \<and> (\<forall>ph\<in>#workers s. worker_ok m ph) \<and> scaler_ok m (scalerAt s) \<and>
     (\<exists>xs. conc_shape m xs (shared s) \<and> accepted s = finished s + held xs (shared s) + hands s \<and>
        pendingTasks (shared s) = int (size (held xs (shared s))) + int (in_flight s) + int (size (hands s)))"

lemma size_sum_mset: "size (\<Sum>x\<in>#M. (f x :: 'a multiset)) = (\<Sum>x\<in>#M. size (f x))"
  by (induction M) simp_all

lemma start_sums:
  "(\<Sum>ph\<in>#mset (map WStart ws). in_hand ph) = {#}" "(\<Sum>ph\<in>#mset (map WStart ws). worker_duty ph) = length ws"
  by (induction ws) simp_all

lemma launched_sums [simp]:
  "(\<Sum>ph\<in>#launched p q. in_hand ph) = {#}" "(\<Sum>ph\<in>#launched p q. worker_duty ph) = size (launched p q)"
  "ph \<in># launched p q \<Longrightarrow> worker_ok m ph"
  by (auto simp: launched_def start_sums worker_ok_def simp del: mset_map)

lemma conc_ledgerE:
  assumes "conc_ledger m s"
  obtains xs where "\<forall>x\<in>#submitters s. submitter_ok m x" and "\<forall>ph\<in>#workers s. worker_ok m ph" and "scaler_ok m (scalerAt s)"
    and "conc_shape m xs (shared s)" and "accepted s = finished s + held xs (shared s) + hands s"
    and "pendingTasks (shared s) = int (size (held xs (shared s))) + int (in_flight s) + int (size (hands s))"
  using assms by (auto simp: conc_ledger_def)

lemma ledger_same:
  assumes "conc_ledger m s"
    and "\<And>xs. conc_shape m xs (shared s) \<Longrightarrow> conc_shape m xs q \<and> held xs q = held xs (shared s)"
    and "pendingTasks q = pendingTasks (shared s)"
  shows "conc_ledger m (s\<lparr>shared := q\<rparr>)"
proof -
  have "hands (s\<lparr>shared := q\<rparr>) = hands s" "in_flight (s\<lparr>shared := q\<rparr>) = in_flight s" by (simp_all add: hands_def in_flight_def)
  then show ?thesis using assms unfolding conc_ledger_def by force
qed

lemma ledger_submitter:
  assumes inv: "conc_ledger m s" and S: "submitters s = add_mset (ctx, task, ph) S"
    and step: "submit_step env pick sel ctx task ph (shared s) = Some (ph', q)"
  shows "conc_ledger m (s\<lparr>shared := q, submitters := add_mset (ctx, task, ph') S,
      workers := workers s + launched (shared s) q, accepted := accepted s + newly_accepted task ph'\<rparr>)"
proof -
  obtain xs where l: "\<forall>x\<in>#submitters s. submitter_ok m x" "\<forall>ph\<in>#workers s. worker_ok m ph" "scaler_ok m (scalerAt s)"
    "conc_shape m xs (shared s)" "accepted s = finished s + held xs (shared s) + hands s"
    "pendingTasks (shared s) = int (size (held xs (shared s))) + int (in_flight s) + int (size (hands s))"
    by (rule conc_ledgerE [OF inv])
  have mv: "submitter_moves env (ctx, task, ph) (shared s) (ctx, task, ph') q"
    using step by (auto simp: submitter_moves_def)
  have 1: "accepted s = finished s + held xs (shared s) + (\<Sum>y\<in>#add_mset (ctx, task, ph) S. {#}) + hands s"
    using l(5) by simp
  have 2: "pendingTasks (shared s) =
      int (size (held xs (shared s))) + int (\<Sum>y\<in>#add_mset (ctx, task, ph) S. registered (snd (snd y))) + int (size (hands s))"
    using l(6) by (simp add: in_flight_def S)
  show ?thesis
    using subs.step_keeps [OF mv l(1) [unfolded S] l(4) 1 2] l by (auto simp: conc_ledger_def hands_def in_flight_def)
qed

lemma ledger_worker:
  assumes inv: "conc_ledger m s" and W: "workers s = add_mset ph W"
    and step: "worker_step env now priority pick ph (shared s) = Some (ph', q)"
  shows "conc_ledger m (s\<lparr>shared := q, workers := add_mset ph' W, finished := finished s + newly_finished ph\<rparr>)"
proof -
  obtain xs where l: "\<forall>x\<in>#submitters s. submitter_ok m x" "\<forall>ph\<in>#workers s. worker_ok m ph" "scaler_ok m (scalerAt s)"
    "conc_shape m xs (shared s)" "accepted s = finished s + held xs (shared s) + hands s"
    "pendingTasks (shared s) = int (size (held xs (shared s))) + int (in_flight s) + int (size (hands s))"
    by (rule conc_ledgerE [OF inv])
  have mv: "worker_moves env ph (shared s) ph' q" using step by (auto simp: worker_moves_def)
  have 1: "accepted s = finished s + held xs (shared s) + (\<Sum>y\<in>#add_mset ph W. in_hand y) + {#}"
    using l(5) by (simp add: hands_def W)
  have 2: "pendingTasks (shared s) =
      int (size (held xs (shared s))) + int (\<Sum>y\<in>#add_mset ph W. size (in_hand y)) + int (in_flight s)"
    using l(6) by (simp only: hands_def W size_sum_mset)
  from wrks.step_keeps [OF mv l(2) [unfolded W] l(4) 1 2] l show ?thesis
    unfolding conc_ledger_def hands_def size_sum_mset by (auto simp: in_flight_def add.assoc add.commute add.left_commute)
qed

lemma ledger_scaler:
  assumes inv: "conc_ledger m s" and step: "scaler_step n (scalerAt s) (shared s) = Some (ph', q)"
  shows "conc_ledger m (s\<lparr>shared := q, scalerAt := ph', workers := workers s + launched (shared s) q\<rparr>)"
proof -
  have live: "scalerAt s \<noteq> KStopped" using step by auto
  have "scaler_ok m ph' \<and> scaler_post m xs (scalerAt s) (shared s) ph' q" if "conc_shape m xs (shared s)" for xs
    using scaler_step_ok [OF that _ live, of n] inv step by (auto simp: conc_ledger_def)
  then show ?thesis using inv by (fastforce simp: conc_ledger_def hands_def in_flight_def scaler_post_def)
qed

lemma cleaner_frame:
  assumes "expiredWorkerCleaner now p = Some q" and "conc_shape m xs p"
  shows "conc_shape m xs q" and "held xs q = held xs p" and "\<exists>c. q = p\<lparr>idleWorks := c\<rparr>"
proof -
  have "idle_invar (idleWorks p)" using assms(2) by (simp add: conc_shape_def)
  then obtain k c where c: "idle_RemoveExpired now Second (idleWorks p) = Some (k, c)" "idle_invar c"
    using works.rem_ok [of "idleWorks p" Second now] by auto
  have "\<exists>c. q = p\<lparr>idleWorks := c\<rparr> \<and> idle_invar c"
  proof (cases "closePoolCn p")
    case True
    then show ?thesis using assms \<open>idle_invar (idleWorks p)\<close>
      by (intro exI [of _ "idleWorks p"]) (simp add: expiredWorkerCleaner_def)
  qed (use assms c in \<open>auto simp: expiredWorkerCleaner_def\<close>)
  then show "conc_shape m xs q" "held xs q = held xs p" "\<exists>c. q = p\<lparr>idleWorks := c\<rparr>"
    using assms(2) by (auto simp: conc_shape_def held_def)
qed

lemma sampler_frame:
  assumes "statsSampler p = Some (e, q)"
  shows "\<exists>a b c. q = p\<lparr>submitCount := 0, consumeCount := 0, exitCount := 0, submitHist := a, consumeHist := b, exitHist := c\<rparr>"
  using assms by (auto simp: statsSampler_def sampleRates_def Let_def split: option.splits)

lemma ledger_step:
  assumes "conc_step env s s'" and "conc_ledger m s"
  shows "conc_ledger m s'"
  using assms(1)
proof cases
  case (client task ctx)
  then show ?thesis using assms(2)
    by (auto simp: conc_ledger_def hands_def in_flight_def submitter_ok_def conc_shape_def held_def pool_addPending_def)
next
  case shut
  then show ?thesis using assms(2) by (simp add: conc_ledger_def hands_def in_flight_def)
next
  case (closer ph C ph' q)
  then show ?thesis using assms(2) close_step_ok [of m _ "shared s" ph ph' q]
    by (fastforce simp: conc_ledger_def hands_def in_flight_def)
next
  case (cleaner now q)
  from assms(2) obtain xs where "conc_shape m xs (shared s)" by (auto simp: conc_ledger_def)
  then have "pendingTasks q = pendingTasks (shared s)" using cleaner_frame(3) [OF cleaner(2)] by fastforce
  then show ?thesis unfolding cleaner(1) by (intro ledger_same [OF assms(2)]) (simp_all add: cleaner_frame [OF cleaner(2)])
next
  case (sampler e q)
  then show ?thesis using sampler_frame [OF sampler(2)] by (auto simp: conc_shape_def held_def intro!: ledger_same [OF assms(2)])
qed (auto simp: assms(2) conc_shape_def held_def pool_Wait_def intro!: ledger_same [OF assms(2)]
      ledger_submitter [OF assms(2)] ledger_worker [OF assms(2)] ledger_scaler [OF assms(2)])

section \<open>The running count\<close>

definition on_duty :: "('f, 'b, 'c, 'v, 'w) conc \<Rightarrow> nat" where
  "on_duty s = (\<Sum>x\<in>#submitters s. submit_duty (snd (snd x))) + (\<Sum>ph\<in>#workers s. worker_duty ph) + scaler_duty (scalerAt s)"

text \<open>
  While the scaler is between its load and its add, the count cannot rise above what it
  read, or above 1 if it read 0: only a cold start raises it, and only from 0.
\<close>

definition count_ok :: "('f, 'b, 'c, 'v, 'w) conc \<Rightarrow> bool" where
  "count_ok s \<longleftrightarrow> runningWorkersNum (shared s) = int (on_duty s) \<and> runningWorkersNum (shared s) \<le> capacity (shared s) + 1 \<and>
     0 < capacity (shared s) \<and> capacity (shared s) \<le> MaxInt64 \<and>
     (\<forall>cur a. scalerAt s = KAdd cur a \<longrightarrow> 0 \<le> cur \<and> cur + a \<le> capacity (shared s) \<and> 0 < a \<and>
        runningWorkersNum (shared s) \<le> max cur 1)"

lemma count_okI:
  assumes "count_ok s" and "capacity q = capacity (shared s)" and "runningWorkersNum q = int (on_duty s')" and "shared s' = q"
    and "runningWorkersNum q \<le> runningWorkersNum (shared s) \<or> runningWorkersNum q \<le> 1" and "scalerAt s' = scalerAt s"
  shows "count_ok s'"
proof -
  have "runningWorkersNum q \<le> max cur 1" if "scalerAt s' = KAdd cur a" for cur a
  proof -
    have "runningWorkersNum (shared s) \<le> max cur 1" using assms(1,6) that unfolding count_ok_def by metis
    then show ?thesis using assms(5) by linarith
  qed
  then show ?thesis using assms by (auto simp: count_ok_def)
qed

lemma count_submitter:
  assumes inv: "count_ok s" and S: "submitters s = add_mset (ctx, task, ph) S"
    and step: "submit_step env pick sel ctx task ph (shared s) = Some (ph', q)"
  shows "count_ok (s\<lparr>shared := q, submitters := add_mset (ctx, task, ph') S,
      workers := workers s + launched (shared s) q, accepted := accepted s + newly_accepted task ph'\<rparr>)"
  using inv submit_step_duty [OF step] by (intro count_okI [OF inv]) (auto simp: count_ok_def on_duty_def S)

lemma count_worker:
  assumes inv: "count_ok s" and W: "workers s = add_mset ph W" and post: "worker_post m xs ph (shared s) ph' q"
  shows "count_ok (s\<lparr>shared := q, workers := add_mset ph' W, finished := finished s + newly_finished ph\<rparr>)"
  using inv post by (intro count_okI [OF inv]) (auto simp: count_ok_def on_duty_def W worker_post_def)

lemma actualSpawn_min:
  assumes "0 \<le> cur" and "cur \<le> cap + 1" and "cap \<le> MaxInt64"
  shows "actualSpawn cap cur n = min n (cap - cur)"
proof -
  have "wrap64 (cap - cur) = cap - cur" using assms by (intro wrap64_id) (simp add: int64_range_def)
  then show ?thesis by (simp add: actualSpawn_def Let_def min_def)
qed

lemma count_scaler:
  assumes inv: "count_ok s" and led: "conc_ledger m s" and step: "scaler_step n (scalerAt s) (shared s) = Some (ph', q)"
  shows "count_ok (s\<lparr>shared := q, scalerAt := ph', workers := workers s + launched (shared s) q\<rparr>)" (is "count_ok ?s")
proof -
  let ?p = "shared s"
  have live: "scalerAt s \<noteq> KStopped" using step by auto
  obtain xs where "conc_shape m xs ?p" "scaler_ok m (scalerAt s)" using led by (auto simp: conc_ledger_def)
  from scaler_step_ok [OF this live, of n] have cap: "capacity q = capacity ?p"
    and run: "runningWorkersNum q + int (scaler_duty (scalerAt s)) = runningWorkersNum ?p + int (scaler_duty ph') + int (size (launched ?p q))"
    and other: "(\<forall>cur a. scalerAt s \<noteq> KAdd cur a) \<longrightarrow> runningWorkersNum q = runningWorkersNum ?p"
    using step by (auto simp: scaler_post_def)
  have "on_duty ?s + scaler_duty (scalerAt s) = on_duty s + scaler_duty ph' + size (launched ?p q)" by (simp add: on_duty_def)
  then have duty: "runningWorkersNum q = int (on_duty ?s)" using inv run unfolding count_ok_def by linarith
  have b: "runningWorkersNum ?p = int (on_duty s)" "int (on_duty s) \<le> capacity ?p + 1" "0 < capacity ?p" "capacity ?p \<le> MaxInt64"
    and add: "\<And>cur a. scalerAt s = KAdd cur a \<Longrightarrow> 0 \<le> cur \<and> cur + a \<le> capacity ?p \<and> 0 < a \<and> int (on_duty s) \<le> max cur 1"
    using inv unfolding count_ok_def by auto
  have "runningWorkersNum q \<le> capacity ?p + 1 \<and>
      (\<forall>cur a. ph' = KAdd cur a \<longrightarrow> 0 \<le> cur \<and> cur + a \<le> capacity ?p \<and> 0 < a \<and> runningWorkersNum q \<le> max cur 1)"
  proof (cases "scalerAt s")
    case KTick
    then show ?thesis using step b actualSpawn_min [of "int (on_duty s)" "capacity ?p" n]
      by (auto simp: Let_def split: if_splits)
  next
    case (KAdd cur a)
    then show ?thesis using step b add [OF KAdd] by (auto simp: addRunningWorkersNum_def)
  next
    case (KLaunch k)
    then have "\<forall>cur a. ph' \<noteq> KAdd cur a" using step by (cases k) (auto simp del: spawn_loop.simps)
    then show ?thesis using other KLaunch b by simp
  qed (use step b in \<open>auto split: if_splits\<close>)
  then show ?thesis using duty b cap by (simp add: count_ok_def)
qed

section \<open>The end of the scaler\<close>

text \<open>The phases from which a submitter of a closed pool cannot enqueue any more.\<close>

fun turned_away :: "submit_phase \<Rightarrow> bool" where
  "turned_away PClosed \<longleftrightarrow> True"
| "turned_away PReject \<longleftrightarrow> True"
| "turned_away ph \<longleftrightarrow> registered ph = 0"

definition stop_ok :: "('f, 'b, 'c, 'v, 'w) conc \<Rightarrow> bool" where
  "stop_ok s \<longleftrightarrow> (scalerAt s = KPending \<or> scalerAt s = KStopped \<longrightarrow> closed (shared s)) \<and>
     (scalerAt s = KStopped \<longrightarrow> accepted s = finished s \<and> (\<forall>x\<in>#submitters s. turned_away (snd (snd x))))"

lemma turned_away_step:
  assumes "submit_step env pick sel ctx task ph p = Some (ph', q)" and "turned_away ph" and "closed p"
  shows "turned_away ph' \<and> newly_accepted task ph' = {#}"
  using assms by (cases ph) (auto simp: newly_accepted_def)

lemma registered_turned: "registered ph = 0 \<Longrightarrow> turned_away ph"
  by (cases ph) auto

lemma ledger_idle:
  assumes "conc_ledger m s" and "pendingTasks (shared s) = 0"
  shows "accepted s = finished s" and "hands s = {#}" and "x \<in># submitters s \<Longrightarrow> registered (snd (snd x)) = 0"
proof -
  obtain xs where l: "accepted s = finished s + held xs (shared s) + hands s"
    "pendingTasks (shared s) = int (size (held xs (shared s))) + int (in_flight s) + int (size (hands s))"
    using assms(1) by (auto simp: conc_ledger_def)
  have "size (held xs (shared s)) = 0" "in_flight s = 0" "size (hands s) = 0" using l(2) assms(2) by linarith+
  then have z: "held xs (shared s) = {#}" "in_flight s = 0" "hands s = {#}" by simp_all
  show "accepted s = finished s" "hands s = {#}" using l(1) z by simp_all
  show "registered (snd (snd x)) = 0" if "x \<in># submitters s"
    using z(2) that by (auto simp: in_flight_def sum_mset_0_iff)
qed

lemma hands_empty: "ph \<in># workers s \<Longrightarrow> hands s = {#} \<Longrightarrow> newly_finished ph = {#}"
  by (cases ph) (auto simp: hands_def dest!: multi_member_split)

lemma stop_submitter:
  assumes inv: "stop_ok s" and S: "submitters s = add_mset (ctx, task, ph) S"
    and step: "submit_step env pick sel ctx task ph (shared s) = Some (ph', q)"
  shows "stop_ok (s\<lparr>shared := q, submitters := add_mset (ctx, task, ph') S,
      workers := workers s + launched (shared s) q, accepted := accepted s + newly_accepted task ph'\<rparr>)"
  using inv S submit_step_duty(3) [OF step] turned_away_step [OF step] by (auto simp: stop_ok_def)

lemma stop_worker:
  assumes inv: "stop_ok s" and led: "conc_ledger m s" and W: "workers s = add_mset ph W" and "closed q = closed (shared s)"
  shows "stop_ok (s\<lparr>shared := q, workers := add_mset ph' W, finished := finished s + newly_finished ph\<rparr>)"
proof (cases "scalerAt s = KStopped")
  case True
  obtain xs where "accepted s = finished s + held xs (shared s) + hands s" using led by (auto simp: conc_ledger_def)
  then have "hands s = {#}" using inv True by (simp add: stop_ok_def)
  then have "newly_finished ph = {#}" using hands_empty [of ph s] W by simp
  then show ?thesis using inv assms(4) by (simp add: stop_ok_def)
qed (use inv assms(4) in \<open>simp add: stop_ok_def\<close>)

lemma stop_scaler:
  assumes inv: "stop_ok s" and led: "conc_ledger m s" and step: "scaler_step n (scalerAt s) (shared s) = Some (ph', q)"
    and "closed q = closed (shared s)"
  shows "stop_ok (s\<lparr>shared := q, scalerAt := ph', workers := workers s + launched (shared s) q\<rparr>)"
proof (cases "scalerAt s")
  case KPending
  then show ?thesis using step inv ledger_idle [OF led] registered_turned by (auto simp: stop_ok_def split: if_splits)
next
  case (KLaunch k)
  then show ?thesis using step by (cases k) (auto simp: stop_ok_def simp del: spawn_loop.simps)
qed (use step assms(4) in \<open>auto simp: stop_ok_def Let_def split: if_splits\<close>)

section \<open>Who owns a worker\<close>

text \<open>
  A worker object is either run by one goroutine, or handed to the idle container by the
  goroutine that ran it, or in that container, once. The name \<open>wid\<close> stands for the pointer.
\<close>

fun run_by :: "('f, 'b, 'c) worker_phase \<Rightarrow> worker multiset" where
  "run_by (WStart w) = {#w#}"
| "run_by (WScan w i) = {#w#}"
| "run_by (WPop w) = {#w#}"
| "run_by (WHand w ts) = {#w#}"
| "run_by (WBusy w t ts) = {#w#}"
| "run_by (WSettle w t ts) = {#w#}"
| "run_by (WPark w) = {#w#}"
| "run_by (WExit w) = {#w#}"
| "run_by (WIdle w) = {#w#}"
| "run_by WEnd = {#}"

definition worker_ids :: "('f, 'b, 'c) worker_phase multiset \<Rightarrow> ('f, 'b, 'c, 'v, 'w) Pool \<Rightarrow> nat multiset" where
  "worker_ids W p = image_mset wid ((\<Sum>ph\<in>#W. run_by ph) + idle_elems (idleWorks p))"

definition owners_ok :: "('f, 'b, 'c, 'v, 'w) conc \<Rightarrow> bool" where
  "owners_ok s \<longleftrightarrow> 0 \<le> workerCreateCount (shared s) \<and>
     (\<forall>i. count (worker_ids (workers s) (shared s)) i \<le> (if int i < workerCreateCount (shared s) then 1 else 0))"

text \<open>A step moves workers about, drops some, or adds the one it allocates.\<close>

definition ids_move :: "('f, 'b, 'c) worker_phase multiset \<Rightarrow> ('f, 'b, 'c, 'v, 'w) Pool \<Rightarrow>
    ('f, 'b, 'c) worker_phase multiset \<Rightarrow> ('f, 'b, 'c, 'v, 'w) Pool \<Rightarrow> bool" where
  "ids_move W p W' q \<longleftrightarrow>
     worker_ids W' q \<subseteq># worker_ids W p \<and> workerCreateCount q = workerCreateCount p \<or>
     worker_ids W' q = add_mset (nat (workerCreateCount p)) (worker_ids W p) \<and> workerCreateCount q = workerCreateCount p + 1"

lemma owners_move:
  assumes "owners_ok s" and "ids_move (workers s) (shared s) (workers s') (shared s')"
  shows "owners_ok s'"
proof -
  let ?A = "worker_ids (workers s) (shared s)" and ?B = "worker_ids (workers s') (shared s')"
  have a: "0 \<le> workerCreateCount (shared s)" "\<And>i. count ?A i \<le> (if int i < workerCreateCount (shared s) then 1 else 0)"
    using assms(1) by (simp_all add: owners_ok_def)
  from assms(2) consider "?B \<subseteq># ?A" "workerCreateCount (shared s') = workerCreateCount (shared s)"
    | "?B = add_mset (nat (workerCreateCount (shared s))) ?A" "workerCreateCount (shared s') = workerCreateCount (shared s) + 1"
    by (auto simp: ids_move_def)
  then show ?thesis
  proof cases
    case 1
    then have "count ?B i \<le> count ?A i" for i by (simp add: mset_subset_eq_count)
    then show ?thesis using a 1(2) order_trans unfolding owners_ok_def by metis
  next
    case 2
    have "count ?B i \<le> (if int i < workerCreateCount (shared s) + 1 then 1 else 0)" for i
      using a(1) a(2) [of i] unfolding 2(1) by (cases "i = nat (workerCreateCount (shared s))") (auto split: if_splits)
    then show ?thesis using a(1) 2(2) by (simp add: owners_ok_def)
  qed
qed

lemma ids_same: "idleWorks q = idleWorks p \<Longrightarrow> workerCreateCount q = workerCreateCount p \<Longrightarrow> ids_move W p W q"
  by (simp add: ids_move_def worker_ids_def)

lemma ids_submitter:
  assumes "submit_step env pick sel ctx task ph p = Some (ph', q)"
  shows "ids_move W p (W + launched p q) q"
proof (cases ph)
  case (PSelect i)
  from assms [unfolded PSelect] show ?thesis by (cases rule: select_step) (simp_all add: ids_same)
next
  case PLaunch
  then show ?thesis using assms
    by (auto simp: ids_move_def worker_ids_def workerPool_Get_def startWorker_def Let_def launched_def)
qed (use assms in \<open>auto simp: Let_def dispatchTaskEnqueuedFor_def intro!: ids_same split: if_splits prod.splits option.splits\<close>)

lemma task_body_created [simp]: "workerCreateCount (task_body env t p) = workerCreateCount p"
  by (auto simp: task_body_def recover_task_def handlePanic_def Let_def split: prod.splits outcome.splits option.splits)

lemma ids_worker:
  assumes shape: "conc_shape m xs p" and ok: "worker_ok m ph" and step: "worker_step env now priority pick ph p = Some (ph', q)"
  shows "ids_move (add_mset ph W) p (add_mset ph' W) q"
proof -
  have same: ?thesis if "image_mset wid (run_by ph') = image_mset wid (run_by ph)" "idleWorks q = idleWorks p"
      "workerCreateCount q = workerCreateCount p"
    using that by (simp add: ids_move_def worker_ids_def)
  show ?thesis
  proof (cases ph)
    case (WScan w i)
    then show ?thesis using step same by (auto simp: Let_def split: if_splits option.splits)
  next
    case (WPop w)
    then show ?thesis using step same by (auto split: if_splits option.splits)
  next
    case (WHand w ts)
    then show ?thesis using step same by (cases ts) (auto simp: task_begin_def split: if_splits)
  next
    case (WBusy w t ts)
    then show ?thesis using step same by auto
  next
    case (WIdle w)
    obtain c where "idle_Add priority pick w (idleWorks p) = Some c" "idle_elems c = add_mset w (idle_elems (idleWorks p))"
      using works.add_ok shape unfolding conc_shape_def by blast
    then show ?thesis using step WIdle by (auto simp: addToIdle_def ids_move_def worker_ids_def)
  qed (use step same in \<open>auto simp: addRunningWorkersNum_def\<close>)
qed

lemma ids_scaler:
  assumes "conc_shape m xs p" and "scaler_step n ph p = Some (ph', q)"
  shows "ids_move W p (W + launched p q) q"
proof (cases ph)
  case (KLaunch k)
  show ?thesis
  proof (cases k)
    case (Suc j)
    then have q: "spawn_loop 1 p = Some q" using assms(2) KLaunch by auto
    have inv: "idle_invar (idleWorks p)" using assms(1) by (simp add: conc_shape_def)
    show ?thesis
    proof (cases "idle_elems (idleWorks p) = {#}")
      case True
      then have "idle_Pop (idleWorks p) = Some (None, idleWorks p)" using works.pop_none inv by blast
      then show ?thesis using q
        by (auto simp: ids_move_def worker_ids_def workerPool_Get_def startWorker_def Let_def launched_def)
    next
      case False
      obtain w c where "idle_Pop (idleWorks p) = Some (Some w, c)" "idle_elems (idleWorks p) = add_mset w (idle_elems c)"
        using works.pop_some [OF inv False] by blast
      then show ?thesis using q by (auto simp: ids_move_def worker_ids_def startWorker_def Let_def launched_def)
    qed
  qed (use assms(2) KLaunch in \<open>simp add: ids_same\<close>)
qed (use assms(2) in \<open>auto simp: Let_def addRunningWorkersNum_def intro!: ids_same\<close>)

lemma ids_cleaner:
  assumes "expiredWorkerCleaner now p = Some q" and "conc_shape m xs p"
  shows "ids_move W p W q"
proof (cases "closePoolCn p")
  case False
  have "idle_invar (idleWorks p)" using assms(2) by (simp add: conc_shape_def)
  then obtain k c where "idle_RemoveExpired now Second (idleWorks p) = Some (k, c)" "idle_elems c \<subseteq># idle_elems (idleWorks p)"
    using works.rem_ok [of "idleWorks p" Second now] by auto
  then show ?thesis using assms(1) False
    by (auto simp: expiredWorkerCleaner_def ids_move_def worker_ids_def intro: image_mset_subseteq_mono)
qed (use assms(1) in \<open>simp add: expiredWorkerCleaner_def ids_same\<close>)

section \<open>Every reachable state\<close>

definition conc_inv :: "nat \<Rightarrow> ('f, 'b, 'c, 'v, 'w) conc \<Rightarrow> bool" where
  "conc_inv m s \<longleftrightarrow> conc_ledger m s \<and> count_ok s \<and> stop_ok s \<and> owners_ok s"

lemma frame_inv:
  assumes "conc_inv m s" and "conc_ledger m s'" and "capacity (shared s') = capacity (shared s)"
    and "runningWorkersNum (shared s') = runningWorkersNum (shared s)" and "closed (shared s) \<longrightarrow> closed (shared s')"
    and "on_duty s' = on_duty s" and "scalerAt s' = scalerAt s" and "accepted s' = accepted s" and "finished s' = finished s"
    and "\<And>x. x \<in># submitters s' \<Longrightarrow> x \<in># submitters s \<or> turned_away (snd (snd x))"
    and "ids_move (workers s) (shared s) (workers s') (shared s')"
  shows "conc_inv m s'"
proof -
  have inv: "count_ok s" "stop_ok s" using assms(1) by (simp_all add: conc_inv_def)
  have "count_ok s'" using inv(1) assms(3,4,6,7) by (intro count_okI [OF inv(1), of "shared s'"]) (simp_all add: count_ok_def)
  moreover have "stop_ok s'" using inv(2) assms(5,7-9) assms(10) unfolding stop_ok_def by metis
  moreover have "owners_ok s'" using assms(1,11) owners_move by (auto simp: conc_inv_def)
  ultimately show ?thesis using assms(2) by (simp add: conc_inv_def)
qed

lemma conc_inv_step:
  assumes "conc_step env s s'" and "conc_inv m s"
  shows "conc_inv m s'"
proof -
  have inv: "conc_ledger m s" "count_ok s" "stop_ok s" "owners_ok s" using assms(2) by (simp_all add: conc_inv_def)
  obtain xs where shape: "conc_shape m xs (shared s)" "\<forall>ph\<in>#workers s. worker_ok m ph" "scaler_ok m (scalerAt s)"
    using inv(1) by (auto simp: conc_ledger_def)
  have led: "conc_ledger m s'" by (rule ledger_step [OF assms(1) inv(1)])
  from assms(1) show ?thesis
  proof cases
    case (submitter ctx task ph S pick sel ph' q)
    have "owners_ok s'" by (rule owners_move [OF inv(4)]) (simp add: submitter(1) ids_submitter [OF submitter(3)])
    then show ?thesis
      using led submitter(1) count_submitter [OF inv(2) submitter(2,3)] stop_submitter [OF inv(3) submitter(2,3)]
      by (simp add: conc_inv_def)
  next
    case (worker ph W now priority pick ph' q)
    then have ok: "worker_ok m ph" using shape(2) by simp
    have post: "worker_post m xs ph (shared s) ph' q" by (rule worker_stepD [OF worker(3) shape(1) ok])
    then show ?thesis
      using led worker count_worker [OF inv(2) worker(2) post] stop_worker [OF inv(3,1) worker(2)]
        owners_move [OF inv(4)] ids_worker [OF shape(1) ok worker(3)]
      by (simp add: conc_inv_def worker_post_def)
  next
    case (scaler n ph' q)
    then have live: "scalerAt s \<noteq> KStopped" by auto
    have "closed q = closed (shared s)"
      using scaler(2) scaler_step_ok [OF shape(1,3) live, of n] by (auto simp: scaler_post_def)
    then show ?thesis
      using led scaler count_scaler [OF inv(2,1)] stop_scaler [OF inv(3,1)] owners_move [OF inv(4)] ids_scaler [OF shape(1)]
      by (simp add: conc_inv_def)
  next
    case (cleaner now q)
    then show ?thesis using cleaner_frame(3) [OF cleaner(2) shape(1)] ids_cleaner [OF cleaner(2) shape(1)]
      by (intro frame_inv [OF assms(2) led]) (auto simp: on_duty_def)
  next
    case (sampler e q)
    then show ?thesis using sampler_frame [OF sampler(2)]
      by (intro frame_inv [OF assms(2) led]) (auto simp: on_duty_def intro!: ids_same)
  next
    case (closer ph C ph' q)
    then have "idleWorks q = idleWorks (shared s) \<and> workerCreateCount q = workerCreateCount (shared s)"
      by (cases ph) (auto split: if_splits)
    then show ?thesis using closer close_step_ok [OF shape(1) closer(3)]
      by (intro frame_inv [OF assms(2) led]) (auto simp: on_duty_def intro!: ids_same)
  qed (rule frame_inv [OF assms(2) led]; auto simp: on_duty_def pool_addPending_def pool_Wait_def intro!: ids_same)+
qed

lemma conc_init_inv:
  assumes "config_valid c" and "taskQueueSize c < 2 ^ 62" and "shards_want procs c \<le> 2 ^ 62"
    and "NewPool procs (Some c) w = Some p"
  shows "\<exists>m. conc_inv m (conc_init p)"
proof -
  have "0 < taskQueueSize c" using assms(1) by (simp add: config_valid_def pos64_def)
  then obtain m where p: "pool_inv m [] p" "held [] p = {#}" "pendingTasks p = 0" "runningWorkersNum p = 0"
    using NewPool_ok [OF _ assms(2,3), of w] assms(4) by auto
  have "0 < capacity p" "capacity p \<le> MaxInt64" "scale_ok p" using NewPool_scale_ok [OF assms(1,4)] by (simp_all add: scale_ok_def)
  moreover have "idleWorks p = new_idleWorks (idleContainerType c)" "workerCreateCount p = 0"
    using assms(4) by (auto simp: NewPool_def split: option.splits)
  moreover have "owners_ok (conc_init p)" using calculation(4,5) works.empty_ok by (simp add: owners_ok_def worker_ids_def conc_init_def)
  ultimately show ?thesis using p
    by (auto simp: conc_inv_def conc_ledger_def count_ok_def stop_ok_def conc_init_def hands_def in_flight_def on_duty_def
        conc_shape_def pool_inv_def intro!: exI [of _ m] exI [of _ "[]"])
qed

lemma conc_reach_inv: "conc_reach env p s \<Longrightarrow> conc_inv m (conc_init p) \<Longrightarrow> conc_inv m s"
  by (induction rule: conc_reach.induct) (auto intro: conc_inv_step)

lemma conc_run_inv: "(conc_step env)\<^sup>*\<^sup>* s s' \<Longrightarrow> conc_inv m s \<Longrightarrow> conc_inv m s'"
  by (induction rule: rtranclp_induct) (auto intro: conc_inv_step)

lemma conc_run_reach: "(conc_step env)\<^sup>*\<^sup>* s s' \<Longrightarrow> conc_reach env p s \<Longrightarrow> conc_reach env p s'"
  by (induction rule: rtranclp_induct) (auto intro: conc_more)

text \<open>After the scaler has ended no task is accepted and none is left to finish.\<close>

lemma stopped_step:
  assumes "conc_step env s s'" and "conc_inv m s" and "scalerAt s = KStopped"
  shows "scalerAt s' = KStopped \<and> accepted s' = accepted s"
  using assms(1)
proof cases
  case (submitter ctx task ph S pick sel ph' q)
  then show ?thesis using assms(2,3) turned_away_step [OF submitter(3)] by (simp add: conc_inv_def stop_ok_def)
qed (use assms(3) in auto)

lemma stopped_run:
  assumes "(conc_step env)\<^sup>*\<^sup>* s s'" and "conc_inv m s" and "scalerAt s = KStopped"
  shows "scalerAt s' = KStopped \<and> accepted s' = accepted s"
  using assms
proof (induction rule: rtranclp_induct)
  case (step y z)
  then show ?case using stopped_step [OF step.hyps(2), of m] conc_run_inv [OF step.hyps(1), of m] by simp
qed simp

end
