(* ===== verification/Concurrent_Calls.thy ===== *)
theory Concurrent_Calls
  imports Concurrent_Ledger
begin

text \<open>
  The steps of \<open>Concurrent_Pool\<close> against the calls of the sequential model: a call that
  nobody interrupts is a sequence of steps with the same result.
\<close>

section \<open>Solo runs\<close>

definition submitter_solo ::
  "('f, 'b, 'c, 'v, 'w) task_env \<Rightarrow> nat option \<Rightarrow> nat \<Rightarrow> 'c \<Rightarrow> ('f, 'b, 'c) Task \<Rightarrow>
   submit_phase \<times> ('f, 'b, 'c, 'v, 'w) Pool \<Rightarrow> submit_phase \<times> ('f, 'b, 'c, 'v, 'w) Pool \<Rightarrow> bool" where
  "submitter_solo env pick sel ctx task x y \<longleftrightarrow> submit_step env pick sel ctx task (fst x) (snd x) = Some y"

definition worker_solo ::
  "('f, 'b, 'c, 'v, 'w) task_env \<Rightarrow> ('w \<Rightarrow> time) \<Rightarrow> int \<Rightarrow> nat option \<Rightarrow>
   ('f, 'b, 'c) worker_phase \<times> ('f, 'b, 'c, 'v, 'w) Pool \<Rightarrow> ('f, 'b, 'c) worker_phase \<times> ('f, 'b, 'c, 'v, 'w) Pool \<Rightarrow> bool" where
  "worker_solo env now priority pick x y \<longleftrightarrow> worker_step env now priority pick (fst x) (snd x) = Some y"

fun submit_result :: "submit_end \<Rightarrow> submit_phase" where
  "submit_result Accepted = PEnd True"
| "submit_result Rejected = PEnd False"
| "submit_result (Waiting i) = PSelect i"

lemma solo_step:
  "submit_step env pick sel ctx task ph p = Some y \<Longrightarrow> (submitter_solo env pick sel ctx task)\<^sup>*\<^sup>* y z \<Longrightarrow>
   (submitter_solo env pick sel ctx task)\<^sup>*\<^sup>* (ph, p) z"
  by (rule converse_rtranclp_into_rtranclp) (simp_all add: submitter_solo_def)

lemma worker_solo_step:
  "worker_step env now priority pick ph p = Some y \<Longrightarrow> (worker_solo env now priority pick)\<^sup>*\<^sup>* y z \<Longrightarrow>
   (worker_solo env now priority pick)\<^sup>*\<^sup>* (ph, p) z"
  by (rule converse_rtranclp_into_rtranclp) (simp_all add: worker_solo_def)

section \<open>Submission\<close>

lemma select_solo:
  assumes "submit_select env sel ctx task i p = (r, q)"
  shows "(submitter_solo env pick sel ctx task)\<^sup>*\<^sup>* (PSelect i, p) (submit_result r, q)"
proof -
  define ready where "ready = (if chan_room (taskQueues p ! i) then [0::nat] else []) @
      (if ctxErr env ctx (world p) then [1] else []) @ (if closePoolCn p then [2] else [])"
  let ?k = "ready ! (sel mod length ready)"
  let ?q = "p\<lparr>taskQueues := (taskQueues p)[i := chan_send (Some task) (taskQueues p ! i)]\<rparr>"
  have s: "submit_step env pick sel ctx task (PSelect i) p =
      (if ready = [] then None else if ?k = 0 then Some (PEnqueued, ?q) else Some (PReject, p))"
    unfolding submit_step.simps Let_def ready_def [symmetric] ..
  have "(r, q) = (if ready = [] then (Waiting i, p) else if ?k = 0 then (Accepted, dispatchTaskEnqueuedFor env task ?q)
      else (Rejected, pool_done p))"
    unfolding assms [symmetric] submit_select_def Let_def ready_def [symmetric] ..
  then show ?thesis using s by (auto split: if_splits intro!: solo_step [where ph = "PSelect i"] solo_step [where ph = PReject]
        solo_step [where ph = PEnqueued])
qed

lemma buffer_solo:
  assumes "submit_buffer env pick sel ctx task p = Some (r, q)"
  shows "(submitter_solo env pick sel ctx task)\<^sup>*\<^sup>* (PBuffer, p) (submit_result r, q)"
proof -
  obtain result b seq qs where f:
    "PushAndForward pick (Some task) (try_send (shardMask p)) (taskBuf p, sendSeq p, taskQueues p) = Some (result, b, seq, qs)"
    using assms by (auto simp: submit_buffer_def split: option.splits)
  let ?p = "p\<lparr>taskBuf := b, sendSeq := seq, taskQueues := qs\<rparr>"
  show ?thesis
  proof (cases result)
    case taskBufferFull
    let ?n = "nextShard (shardMask ?p) (sendSeq ?p)"
    have "submit_select env sel ctx task (fst ?n) (?p\<lparr>sendSeq := snd ?n\<rparr>) = (r, q)"
      using assms f taskBufferFull by (simp add: submit_buffer_def case_prod_beta)
    from select_solo [OF this, of pick] show ?thesis
      using f taskBufferFull by (auto simp: case_prod_beta intro!: solo_step [where ph = PBuffer] solo_step [where ph = PFull])
  qed (use assms f in \<open>auto simp: submit_buffer_def intro!: solo_step [where ph = PBuffer] solo_step [where ph = PReject]
        solo_step [where ph = PEnqueued]\<close>)
qed

lemma cold_start_solo:
  assumes "(submitter_solo env pick sel ctx task)\<^sup>*\<^sup>* (PHook, cold_start p) z"
  shows "(submitter_solo env pick sel ctx task)\<^sup>*\<^sup>* (PLoad, p) z"
  using assms by (cases "runningWorkersNum p = 0")
    (auto simp: cold_start_def case_prod_beta intro!: solo_step [where ph = PLoad] solo_step [where ph = PCas] solo_step [where ph = PLaunch])

lemma submit_solo:
  assumes "submit env pick sel ctx task p = Some (r, q)"
  shows "(submitter_solo env pick sel ctx task)\<^sup>*\<^sup>* (PClosed, pool_addPending p) (submit_result r, q)"
proof (cases "closed p")
  case True
  then have "closed (pool_addPending p)" by (simp add: pool_addPending_def)
  then show ?thesis using assms
    by (auto simp: submit_def intro!: solo_step [where ph = PClosed] solo_step [where ph = PReject])
next
  case False
  then have opn: "\<not> closed (pool_addPending p)" by (simp add: pool_addPending_def)
  define p1 where "p1 = (pool_addPending p)\<lparr>submitCount := submitCount (pool_addPending p) + 1\<rparr>"
  define p2 where "p2 = submit_enter env task (pool_addPending p)"
  define i where "i = fst (nextShard (shardMask p2) (sendSeq p2))"
  define p2' where "p2' = p2\<lparr>sendSeq := snd (nextShard (shardMask p2) (sendSeq p2))\<rparr>"
  define p3 where "p3 = p2'\<lparr>taskQueues := (taskQueues p2')[i := chan_send (Some task) (taskQueues p2' ! i)]\<rparr>"
  have tr: "try_shard (Some task) p2 = (if chan_room (taskQueues p2' ! i) then (True, p3) else (False, p2'))"
    by (simp add: try_shard_def try_send_def p3_def p2'_def i_def case_prod_beta Let_def)
  have p2: "p2 = dispatchHook (\<lambda>h. iTaskSubmitted h (hook_ctx env task)) (cold_start p1)"
    by (simp add: p2_def submit_enter_def p1_def)
  have cfg: "config p2' = config p2" by (simp add: p2'_def)
  have "(submitter_solo env pick sel ctx task)\<^sup>*\<^sup>* (PTry i, p2') (submit_result r, q)"
  proof (cases "chan_room (taskQueues p2' ! i)")
    case True
    then show ?thesis using assms opn tr cfg
      by (auto simp: submit_def p2_def [symmetric] p3_def split: if_splits
          intro!: solo_step [where ph = "PTry i"] solo_step [where ph = PEnqueued])
  next
    case full: False
    show ?thesis
    proof (cases "workMode (config p2') = NONBLOCK")
      case True
      then show ?thesis using assms opn tr cfg full
        by (auto simp: submit_def p2_def [symmetric] split: if_splits
            intro!: solo_step [where ph = "PTry i"] solo_step [where ph = PReject])
    next
      case False
      then have "submit_buffer env pick sel ctx task p2' = Some (r, q)"
        using assms opn tr cfg full by (auto simp: submit_def p2_def [symmetric] split: if_splits)
      from buffer_solo [OF this] show ?thesis using False full by (auto intro!: solo_step [where ph = "PTry i"])
    qed
  qed
  then have "(submitter_solo env pick sel ctx task)\<^sup>*\<^sup>* (PHook, cold_start p1) (submit_result r, q)"
    by (auto simp: case_prod_beta p2'_def i_def p2 [symmetric] intro!: solo_step [where ph = PHook] solo_step [where ph = PNext])
  then show ?thesis using opn cold_start_solo [of env pick sel ctx task p1]
    by (auto simp: p1_def intro!: solo_step [where ph = PClosed] solo_step [where ph = PCount])
qed

section \<open>The worker\<close>

lemma runTask_halves:
  "t \<noteq> Some (ContextTask None) \<Longrightarrow> runTask env t p = Some (pool_done (task_body env t (task_begin env t p)))"
  by (simp add: runTask_def task_body_def task_begin_def Let_def case_prod_beta)

lemma batch_solo:
  assumes "run_batch env now ts (w, p) = Some (w', q)"
  shows "(worker_solo env now priority pick)\<^sup>*\<^sup>* (WHand w ts, p) (WScan w' 0, q)"
  using assms
proof (induction ts arbitrary: w p)
  case Nil
  then show ?case by (auto intro!: worker_solo_step [where ph = "WHand _ []"])
next
  case (Cons t ts)
  then have nil: "t \<noteq> Some (ContextTask None)" by (auto simp: runTask_def)
  then have "(worker_solo env now priority pick)\<^sup>*\<^sup>*
      (WHand (w\<lparr>lastActiveAt := now (world p)\<rparr>) ts, pool_done (task_body env t (task_begin env t p))) (WScan w' 0, q)"
    using Cons.prems runTask_halves [OF nil, of env p] by (intro Cons.IH) simp
  then show ?case using nil
    by (auto intro!: worker_solo_step [where ph = "WHand _ (_ # _)"] worker_solo_step [where ph = "WBusy _ _ _"]
        worker_solo_step [where ph = "WSettle _ _ _"])
qed

lemma scan_solo:
  assumes "shard_scan (shardMask p) (cursor w) i k (taskQueues p) = Some (found, qs)" and "i + k = length (taskQueues p)"
  shows "(worker_solo env now priority pick)\<^sup>*\<^sup>* (WScan w i, p)
    (case found of None \<Rightarrow> WPop w | Some (idx, t) \<Rightarrow> WHand (w\<lparr>cursor := idx\<rparr>) [Some t], p\<lparr>taskQueues := qs\<rparr>)"
  using assms
proof (induction k arbitrary: i p)
  case 0
  then show ?case by (auto intro!: worker_solo_step [where ph = "WScan _ _"])
next
  case (Suc k)
  let ?idx = "(cursor w + of_nat i) AND shardMask p"
  have lt: "unat ?idx < length (taskQueues p)" "i < length (taskQueues p)" using Suc.prems by (auto simp: Let_def split: if_splits)
  have it: "Suc i + k = length (taskQueues p)" using Suc.prems by simp
  show ?case
  proof (cases "chan_recv (taskQueues p ! unat ?idx)")
    case None
    then have "shard_scan (shardMask p) (cursor w) (Suc i) k (taskQueues p) = Some (found, qs)"
      using Suc.prems(1) lt by (simp add: Let_def)
    from Suc.IH [OF this it] show ?thesis
      by (rule worker_solo_step [rotated]) (use None lt in \<open>simp add: Let_def\<close>)
  next
    case (Some x)
    then obtain t ch where x: "chan_recv (taskQueues p ! unat ?idx) = Some (t, ch)" by (cases x) auto
    let ?p = "p\<lparr>taskQueues := (taskQueues p)[unat ?idx := ch]\<rparr>"
    show ?thesis
    proof (cases t)
      case None
      then have "shard_scan (shardMask ?p) (cursor w) (Suc i) k (taskQueues ?p) = Some (found, qs)"
        using Suc.prems(1) lt x by (simp add: Let_def)
      from Suc.IH [OF this] it have "(worker_solo env now priority pick)\<^sup>*\<^sup>* (WScan w (Suc i), ?p)
        (case found of None \<Rightarrow> WPop w | Some (idx, t) \<Rightarrow> WHand (w\<lparr>cursor := idx\<rparr>) [Some t], p\<lparr>taskQueues := qs\<rparr>)" by simp
      then show ?thesis by (rule worker_solo_step [rotated]) (use None x lt in \<open>simp add: Let_def\<close>)
    next
      case (Some t')
      then show ?thesis using Suc.prems(1) lt x
        by (auto simp: Let_def intro!: worker_solo_step [where ph = "WScan _ _"])
    qed
  qed
qed

lemma nextShardTask_solo:
  assumes "nextShardTask w p = Some (found, w', q)"
  shows "(worker_solo env now priority pick)\<^sup>*\<^sup>* (WScan w 0, p)
    (case found of None \<Rightarrow> WPop w' | Some t \<Rightarrow> WHand w' [Some t], q)"
proof -
  obtain f qs where s: "shard_scan (shardMask p) (cursor w) 0 (length (taskQueues p)) (taskQueues p) = Some (f, qs)"
    using assms by (auto simp: nextShardTask_def split: option.splits)
  show ?thesis using scan_solo [OF s, of env now priority pick] s assms
    by (auto simp: nextShardTask_def split: option.splits)
qed

lemma park_solo:
  assumes "park priority pick w p = Some q"
  shows "(worker_solo env now priority pick)\<^sup>*\<^sup>* (WPark w, p) (WEnd, q)"
  using assms by (auto simp: park_def Let_def intro!: worker_solo_step [where ph = "WPark _"] worker_solo_step [where ph = "WExit _"]
      worker_solo_step [where ph = "WIdle _"])

lemma taken_solo:
  assumes "runTask env (Some t) p = Some q"
    and "(worker_solo env now priority pick)\<^sup>*\<^sup>* (WScan (w\<lparr>lastActiveAt := now (world p)\<rparr>) 0, q) z"
  shows "(worker_solo env now priority pick)\<^sup>*\<^sup>* (WHand w [Some t], p) z"
  using batch_solo [of env now "[Some t]" w p] assms by (auto intro: rtranclp_trans)

lemma popped_solo:
  assumes "PopBatch (replicate batchSize None) (taskBuf p) = Some (n, batch, b)"
    and "0 < n \<Longrightarrow> \<exists>w' q. run_batch env now (take n batch) (w, p\<lparr>taskBuf := b\<rparr>) = Some (w', q) \<and>
           (worker_solo env now priority pick)\<^sup>*\<^sup>* (WScan w' 0, q) z"
    and "n = 0 \<Longrightarrow> \<exists>q. park priority pick w (p\<lparr>taskBuf := b\<rparr>) = Some q \<and> z = (WEnd, q)"
  shows "(worker_solo env now priority pick)\<^sup>*\<^sup>* (WPop w, p) z"
proof (cases "0 < n")
  case True
  then have "(worker_solo env now priority pick)\<^sup>*\<^sup>* (WHand w (take n batch), p\<lparr>taskBuf := b\<rparr>) z"
    using assms(2) batch_solo by (meson rtranclp_trans)
  then show ?thesis using assms(1) True by (auto intro!: worker_solo_step [where ph = "WPop _"])
next
  case False
  then have "(worker_solo env now priority pick)\<^sup>*\<^sup>* (WPark w, p\<lparr>taskBuf := b\<rparr>) z" using assms(3) park_solo by auto
  then show ?thesis using assms(1) False by (auto intro!: worker_solo_step [where ph = "WPop _"])
qed

lemma run_loop_solo:
  assumes "run_loop env now priority pick w p = Some x"
  shows "(worker_solo env now priority pick)\<^sup>*\<^sup>* (WScan w 0, p) (WEnd, snd x)"
proof (rule run_loop.raw_induct [where P = "\<lambda>env now priority pick w p x.
    (worker_solo env now priority pick)\<^sup>*\<^sup>* (WScan w 0, p) (WEnd, snd x)", OF _ assms], goal_cases)
  case (1 loop env now priority pick w p x)
  note IH = 1(1) and body = 1(2)
  let ?solo = "worker_solo env now priority pick"
  obtain found w1 p1 where n: "nextShardTask w p = Some (found, w1, p1)" using body by (auto split: option.splits)
  note scan = nextShardTask_solo [OF n, of env now priority pick]
  have "?solo\<^sup>*\<^sup>* (case found of None \<Rightarrow> WPop w1 | Some t \<Rightarrow> WHand w1 [Some t], p1) (WEnd, snd x)"
  proof (cases found)
    case (Some t)
    then show ?thesis using body n by (auto split: option.splits intro!: taken_solo IH)
  next
    case None
    obtain k batch b where "PopBatch (replicate batchSize None) (taskBuf p1) = Some (k, batch, b)"
      using body n None by (auto split: option.splits)
    then show ?thesis using body n None by (auto split: option.splits if_splits intro!: popped_solo IH)
  qed
  with scan show ?case by (rule rtranclp_trans)
qed

lemma run_solo:
  assumes "run env now priority pick None w p = Some (w', q)"
  shows "(worker_solo env now priority pick)\<^sup>*\<^sup>* (WStart w, p) (WEnd, q)"
proof -
  have "run_loop env now priority pick (w\<lparr>lastActiveAt := now (world p)\<rparr>) p = Some (w', q)"
    using assms by (simp add: run_def Let_def)
  from run_loop_solo [OF this] show ?thesis by (auto intro!: worker_solo_step [where ph = "WStart _"])
qed

section \<open>Solo runs among the others\<close>

text \<open>What a submitter in this phase has contributed to \<open>accepted\<close>.\<close>

fun has_enqueued :: "('f, 'b, 'c) Task \<Rightarrow> submit_phase \<Rightarrow> ('f, 'b, 'c) tasks" where
  "has_enqueued task PEnqueued = {#Some task#}"
| "has_enqueued task (PEnd True) = {#Some task#}"
| "has_enqueued task _ = {#}"

lemma has_enqueued_step:
  assumes "submit_step env pick sel ctx task ph p = Some (ph', q)"
  shows "has_enqueued task ph' = has_enqueued task ph + newly_accepted task ph'"
proof (cases ph)
  case (PSelect i)
  from assms [unfolded PSelect] show ?thesis by (cases rule: select_step) (simp_all add: PSelect newly_accepted_def)
qed (use assms in \<open>auto simp: newly_accepted_def Let_def split: if_splits option.splits taskBufferPushResult.splits prod.splits\<close>)

lemma submit_step_started:
  assumes "submit_step env pick sel ctx task ph p = Some (ph', q)"
  shows "started q = started p @ drop (length (started p)) (started q)"
proof (cases ph)
  case (PSelect i)
  from assms [unfolded PSelect] show ?thesis by (cases rule: select_step) simp_all
qed (use assms in \<open>auto simp: Let_def workerPool_Get_def startWorker_def split: if_splits prod.splits option.splits\<close>)

lemma submitter_lift:
  assumes "(submitter_solo env pick sel ctx task)\<^sup>*\<^sup>* x y" and "submitters s = add_mset (ctx, task, fst x) S" and "shared s = snd x"
  shows "\<exists>s' ws. (conc_step env)\<^sup>*\<^sup>* s s' \<and> shared s' = snd y \<and> submitters s' = add_mset (ctx, task, fst y) S \<and>
    accepted s' + has_enqueued task (fst x) = accepted s + has_enqueued task (fst y) \<and> finished s' = finished s \<and>
    scalerAt s' = scalerAt s \<and> closers s' = closers s \<and>
    started (snd y) = started (snd x) @ ws \<and> workers s' = workers s + mset (map WStart ws)"
  using assms
proof (induction arbitrary: s rule: converse_rtranclp_induct)
  case base
  then show ?case by (intro exI [of _ s] exI [of _ "[]"]) simp
next
  case (step x z)
  let ?s = "s\<lparr>shared := snd z, submitters := add_mset (ctx, task, fst z) S,
      workers := workers s + launched (shared s) (snd z), accepted := accepted s + newly_accepted task (fst z)\<rparr>"
  let ?new = "drop (length (started (snd x))) (started (snd z))"
  have st: "submit_step env pick sel ctx task (fst x) (shared s) = Some (fst z, snd z)"
    using step by (simp add: submitter_solo_def)
  have "conc_step env s ?s" by (rule conc_step.submitter [OF step.prems(1) st])
  moreover obtain s' ws where "(conc_step env)\<^sup>*\<^sup>* ?s s'" "shared s' = snd y" "submitters s' = add_mset (ctx, task, fst y) S"
    "accepted s' + has_enqueued task (fst z) = accepted ?s + has_enqueued task (fst y)" "finished s' = finished s"
    "scalerAt s' = scalerAt s" "closers s' = closers s" "started (snd y) = started (snd z) @ ws"
    "workers s' = workers s + launched (shared s) (snd z) + mset (map WStart ws)"
    using step.IH [of ?s] by auto
  moreover have "started (snd z) = started (snd x) @ ?new" using submit_step_started [OF st] step.prems(2) by simp
  ultimately show ?case using has_enqueued_step [OF st] step.prems(2)
    by (intro exI [of _ s'] exI [of _ "?new @ ws"]) (auto simp: launched_def intro: converse_rtranclp_into_rtranclp)
qed

lemma worker_lift:
  assumes "(worker_solo env now priority pick)\<^sup>*\<^sup>* x y" and "workers s = add_mset (fst x) W" and "shared s = snd x"
  shows "\<exists>s'. (conc_step env)\<^sup>*\<^sup>* s s' \<and> shared s' = snd y \<and> workers s' = add_mset (fst y) W \<and>
    submitters s' = submitters s \<and> accepted s' = accepted s \<and> scalerAt s' = scalerAt s \<and> closers s' = closers s"
  using assms
proof (induction arbitrary: s rule: converse_rtranclp_induct)
  case (step x z)
  let ?s = "s\<lparr>shared := snd z, workers := add_mset (fst z) W, finished := finished s + newly_finished (fst x)\<rparr>"
  have st: "worker_step env now priority pick (fst x) (shared s) = Some (fst z, snd z)"
    using step by (simp add: worker_solo_def)
  have "conc_step env s ?s" by (rule conc_step.worker [OF step.prems(1) st])
  moreover obtain s' where "(conc_step env)\<^sup>*\<^sup>* ?s s'" "shared s' = snd y" "workers s' = add_mset (fst y) W"
    "submitters s' = submitters s" "accepted s' = accepted s" "scalerAt s' = scalerAt s" "closers s' = closers s"
    using step.IH [of ?s] by auto
  ultimately show ?case by (intro exI [of _ s']) (auto intro: converse_rtranclp_into_rtranclp)
qed auto

lemma submit_execution:
  assumes "submit env pick sel ctx task (shared s) = Some (r, q)" and "\<not> isNilTask (Some task)"
  shows "\<exists>s' ws. (conc_step env)\<^sup>*\<^sup>* s s' \<and> shared s' = q \<and> submitters s' = add_mset (ctx, task, submit_result r) (submitters s) \<and>
    accepted s' = accepted s + gained r task \<and> finished s' = finished s \<and> scalerAt s' = scalerAt s \<and> closers s' = closers s \<and>
    started q = started (shared s) @ ws \<and> workers s' = workers s + mset (map WStart ws)"
proof -
  let ?s = "s\<lparr>shared := pool_addPending (shared s), submitters := add_mset (ctx, task, PClosed) (submitters s)\<rparr>"
  have "conc_step env s ?s" using assms(2) by (rule conc_step.client)
  moreover have "started (pool_addPending (shared s)) = started (shared s)" by (simp add: pool_addPending_def)
  moreover obtain s' ws where "(conc_step env)\<^sup>*\<^sup>* ?s s'" "shared s' = q" "submitters s' = add_mset (ctx, task, submit_result r) (submitters s)"
    "accepted s' = accepted s + has_enqueued task (submit_result r)" "finished s' = finished s"
    "scalerAt s' = scalerAt s" "closers s' = closers s" "started q = started (pool_addPending (shared s)) @ ws"
    "workers s' = workers s + mset (map WStart ws)"
    using submitter_lift [OF submit_solo [OF assms(1)], of ?s "submitters s"] by auto
  ultimately show ?thesis
    by (intro exI [of _ s'] exI [of _ ws], cases r) (auto simp: gained_def intro: converse_rtranclp_into_rtranclp)
qed

lemma run_execution:
  assumes "run env now priority pick None w (shared s) = Some (w', q)" and "workers s = add_mset (WStart w) W"
  shows "\<exists>s'. (conc_step env)\<^sup>*\<^sup>* s s' \<and> shared s' = q \<and> workers s' = add_mset WEnd W \<and>
    submitters s' = submitters s \<and> accepted s' = accepted s \<and> scalerAt s' = scalerAt s \<and> closers s' = closers s"
  using worker_lift [OF run_solo [OF assms(1)], of s W] assms(2) by simp

end
