(* ===== verification/Concurrent_Results.thy ===== *)
theory Concurrent_Results
  imports Concurrent_Calls
begin

text \<open>
  The results that submitters of the concurrent pool get: which tasks were accepted, and
  when a submission may be turned away.
\<close>

section \<open>What a submitter is told\<close>

text \<open>
  The tasks accepted are those whose submitter returns true, or is about to; in \<^verbatim>\<open>BLOCK\<close> mode
  nobody is turned away but by a closed pool or an expired context; and the pool is closed
  only by a call of \<^verbatim>\<open>Close\<close>.
\<close>

definition results_ok :: "('f, 'b, 'c, 'v, 'w) task_env \<Rightarrow> ('f, 'b, 'c, 'v, 'w) PanicHandler Config \<Rightarrow> ('f, 'b, 'c, 'v, 'w) conc \<Rightarrow> bool" where
  "results_ok env cfg s \<longleftrightarrow>
     accepted s = (\<Sum>x\<in>#submitters s. has_enqueued (fst (snd x)) (snd (snd x))) \<and> config (shared s) = cfg \<and>
     (overflowClosed (taskBuf (shared s)) \<or> closePoolCn (shared s) \<longrightarrow> closed (shared s)) \<and>
     (closed (shared s) \<longrightarrow> closers s \<noteq> {#}) \<and> (CBuffer \<in># closers s \<or> CChan \<in># closers s \<longrightarrow> closed (shared s)) \<and>
     (workMode cfg = BLOCK \<longrightarrow> (\<forall>(ctx, task, ph)\<in>#submitters s. ph = PReject \<or> ph = PEnd False \<longrightarrow>
        closed (shared s) \<or> (\<exists>w. ctxErr env ctx w)))"

lemma submit_step_config:
  assumes "submit_step env pick sel ctx task ph p = Some (ph', q)"
  shows "config q = config p"
proof (cases ph)
  case (PSelect i)
  from assms [unfolded PSelect] show ?thesis by (cases rule: select_step) simp_all
qed (use assms in \<open>auto simp: Let_def dispatchTaskEnqueuedFor_def workerPool_Get_def startWorker_def
      split: if_splits prod.splits option.splits\<close>)

lemma submit_step_rejects:
  assumes "submit_step env pick sel ctx task ph p = Some (ph', q)" and "ph' = PReject \<or> ph' = PEnd False"
    and "workMode (config p) = BLOCK" and shape: "conc_shape m xs p" and "\<not> isNilTask (Some task)"
  shows "ph = PReject \<or> closed p \<or> overflowClosed (taskBuf p) \<or> closePoolCn p \<or> ctxErr env ctx (world p)"
proof (cases ph)
  case (PSelect i)
  from assms(1) [unfolded PSelect] show ?thesis by (cases rule: select_step) (use assms(2) in auto)
next
  case PBuffer
  from shape_push [OF shape assms(5), of pick] obtain r b seq qs where
    "PushAndForward pick (Some task) (try_send (shardMask p)) (taskBuf p, sendSeq p, taskQueues p) = Some (r, b, seq, qs)"
    "r = taskBufferClosed \<longleftrightarrow> overflowClosed (taskBuf p)"
    by metis
  then show ?thesis using assms(1,2) PBuffer by (cases r) auto
qed (use assms in \<open>auto simp: Let_def split: if_splits prod.splits\<close>)

lemma submit_step_shut:
  assumes "submit_step env pick sel ctx task ph p = Some (ph', q)" and shape: "conc_shape m xs p" and "\<not> isNilTask (Some task)"
  shows "overflowClosed (taskBuf q) = overflowClosed (taskBuf p)"
proof (cases ph)
  case (PSelect i)
  from assms(1) [unfolded PSelect] show ?thesis by (cases rule: select_step) simp_all
next
  case PBuffer
  from shape_push [OF shape assms(3), of pick] obtain r b seq qs where
    "PushAndForward pick (Some task) (try_send (shardMask p)) (taskBuf p, sendSeq p, taskQueues p) = Some (r, b, seq, qs)"
    "overflowClosed b = overflowClosed (taskBuf p)"
    by metis
  then show ?thesis using assms(1) PBuffer by auto
qed (use assms in \<open>auto simp: Let_def workerPool_Get_def startWorker_def split: if_splits prod.splits\<close>)

lemma results_submitter:
  assumes inv: "results_ok env cfg s" and led: "conc_ledger m s" and S: "submitters s = add_mset (ctx, task, ph) S"
    and step: "submit_step env pick sel ctx task ph (shared s) = Some (ph', q)"
  shows "results_ok env cfg (s\<lparr>shared := q, submitters := add_mset (ctx, task, ph') S,
      workers := workers s + launched (shared s) q, accepted := accepted s + newly_accepted task ph'\<rparr>)"
proof -
  obtain xs where shape: "conc_shape m xs (shared s)" "\<not> isNilTask (Some task)"
    using led S by (auto simp: conc_ledger_def submitter_ok_def)
  note fr = submit_step_config [OF step] submit_step_shut [OF step shape] submit_step_duty(3,4) [OF step] has_enqueued_step [OF step]
  have "closed (shared s) \<or> (\<exists>w. ctxErr env ctx w)" if "workMode cfg = BLOCK" "ph' = PReject \<or> ph' = PEnd False"
    using submit_step_rejects [OF step that(2) _ shape] that(1) inv S by (auto simp: results_ok_def)
  then show ?thesis using inv fr S by (auto simp: results_ok_def)
qed

lemma worker_step_config:
  assumes "worker_step env now priority pick ph p = Some (ph', q)"
  shows "config q = config p"
proof (cases ph)
  case (WHand w ts)
  then show ?thesis using assms by (cases ts) (auto simp: task_begin_def split: if_splits)
qed (use assms in \<open>auto simp: Let_def task_body_def case_prod_beta addToIdle_def addRunningWorkersNum_def
      split: if_splits prod.splits option.splits\<close>)

lemma scaler_step_config:
  assumes "scaler_step n ph p = Some (ph', q)" and "conc_shape m xs p"
  shows "config q = config p"
proof (cases ph)
  case (KLaunch k)
  show ?thesis
  proof (cases k)
    case (Suc j)
    obtain r where r: "spawn_loop 1 p = Some r" "spawned 1 p r"
      using spawn_loop_ok [of p 1] assms(2) by (auto simp: conc_shape_def)
    from r(2) have "config r = config p" by (rule spawned_eq) simp
    then show ?thesis using assms(1) KLaunch Suc r(1) by auto
  qed (use assms(1) KLaunch in simp)
qed (use assms(1) in \<open>auto simp: Let_def addRunningWorkersNum_def\<close>)

lemma results_same:
  assumes "results_ok env cfg s" and "config (shared s') = config (shared s)" and "closed (shared s') = closed (shared s)"
    and "closePoolCn (shared s') = closePoolCn (shared s)"
    and "overflowClosed (taskBuf (shared s')) = overflowClosed (taskBuf (shared s))"
    and "accepted s' = accepted s" and "submitters s' = submitters s" and "closers s' = closers s"
  shows "results_ok env cfg s'"
  using assms by (simp add: results_ok_def)

lemma results_closer:
  assumes inv: "results_ok env cfg s" and C: "closers s = add_mset ph C" and step: "close_step ph (shared s) = Some (ph', q)"
  shows "results_ok env cfg (s\<lparr>shared := q, closers := add_mset ph' C\<rparr>)"
proof -
  have "config q = config (shared s)" "closed (shared s) \<longrightarrow> closed q"
    and "ph' = CBuffer \<or> ph' = CChan \<or> overflowClosed (taskBuf q) \<or> closePoolCn q \<longrightarrow> closed q"
    using inv step C by (cases ph; auto simp: results_ok_def buffer_Close_def split: if_splits)+
  then show ?thesis using inv C by (auto simp: results_ok_def)
qed

lemma results_step:
  assumes "conc_step env s s'" and "results_ok env cfg s" and "conc_inv m s"
  shows "results_ok env cfg s'"
proof -
  have led: "conc_ledger m s" using assms(3) by (simp add: conc_inv_def)
  obtain xs where shape: "conc_shape m xs (shared s)" "\<forall>ph\<in>#workers s. worker_ok m ph" "scaler_ok m (scalerAt s)"
    using led by (auto simp: conc_ledger_def)
  from assms(1) show ?thesis
  proof cases
    case (client task ctx)
    then show ?thesis using assms(2) by (auto simp: results_ok_def pool_addPending_def)
  next
    case shut
    then show ?thesis using assms(2) by (simp add: results_ok_def)
  next
    case (submitter ctx task ph S pick sel ph' q)
    then show ?thesis using results_submitter [OF assms(2) led] by simp
  next
    case (worker ph W now priority pick ph' q)
    then have "worker_post m xs ph (shared s) ph' q" using worker_stepD [OF worker(3) shape(1)] shape(2) by simp
    then show ?thesis using worker worker_step_config [OF worker(3)]
      by (intro results_same [OF assms(2)]) (simp_all add: worker_post_def)
  next
    case (scaler n ph' q)
    then have live: "scalerAt s \<noteq> KStopped" by auto
    have "scaler_post m xs (scalerAt s) (shared s) ph' q"
      using scaler(2) scaler_step_ok [OF shape(1,3) live, of n] by auto
    then show ?thesis using scaler scaler_step_config [OF scaler(2) shape(1)]
      by (intro results_same [OF assms(2)]) (simp_all add: scaler_post_def)
  next
    case (closer ph C ph' q)
    then show ?thesis using results_closer [OF assms(2)] by simp
  next
    case (cleaner now q)
    then show ?thesis using cleaner_frame(3) [OF cleaner(2) shape(1)] by (intro results_same [OF assms(2)]) auto
  next
    case (sampler e q)
    then show ?thesis using sampler_frame [OF sampler(2)] by (intro results_same [OF assms(2)]) auto
  qed (rule results_same [OF assms(2)]; simp add: pool_Wait_def)+
qed

lemma results_init:
  assumes "NewPool procs (Some c) w = Some p"
  shows "results_ok env c (conc_init p)"
  using assms by (auto simp: results_ok_def conc_init_def NewPool_def newChunkedTaskBuffer_def Let_def split: option.splits)

lemma reach_results:
  assumes "config_valid c" and "taskQueueSize c < 2 ^ 62" and "shards_want procs c \<le> 2 ^ 62"
    and "NewPool procs (Some c) w = Some p" and "conc_reach env p s"
  shows "results_ok env c s"
proof -
  obtain m where init: "conc_inv m (conc_init p)" using conc_init_inv [OF assms(1-4)] by blast
  from assms(5) show ?thesis
  proof induction
    case conc_start
    then show ?case by (rule results_init [OF assms(4)])
  next
    case (conc_more s s')
    then show ?case using results_step [OF conc_more(2,3)] conc_reach_inv [OF conc_more(1) init] by blast
  qed
qed

end
