(* ===== verification/Concurrent_Safety.thy ===== *)
theory Concurrent_Safety
  imports Concurrent_Results
begin

text \<open>What holds of the concurrent pool in every interleaving.\<close>

section \<open>Progress\<close>

lemma conc_invD:
  assumes "conc_inv m s"
  obtains xs where "conc_shape m xs (shared s)" and "\<forall>x\<in>#submitters s. submitter_ok m x"
    and "\<forall>ph\<in>#workers s. worker_ok m ph" and "scaler_ok m (scalerAt s)"
  using assms by (auto simp: conc_inv_def conc_ledger_def)

lemma submitter_progress:
  assumes "conc_shape m xs p" and "submitter_ok m (ctx, task, ph)"
  obtains (ended) b where "ph = PEnd b"
    | (blocked) i where "ph = PSelect i" "\<not> chan_room (taskQueues p ! i)" "\<not> ctxErr env ctx (world p)" "\<not> closePoolCn p"
    | (moves) x where "submit_step env pick sel ctx task ph p = Some x"
proof (cases ph)
  case PBuffer
  have "\<not> isNilTask (Some task)" using assms(2) by (simp add: submitter_ok_def)
  from shape_push [OF assms(1) this, of pick] obtain r b seq qs where
    "PushAndForward pick (Some task) (try_send (shardMask p)) (taskBuf p, sendSeq p, taskQueues p) = Some (r, b, seq, qs)"
    by metis
  then show ?thesis using moves PBuffer by auto
next
  case (PSelect i)
  show ?thesis
  proof (cases "submit_step env pick sel ctx task ph p")
    case None
    then show ?thesis using PSelect blocked by (auto simp: Let_def split: if_splits)
  qed (use moves in blast)
qed (use ended moves in \<open>auto simp: case_prod_beta\<close>)

lemma queued_held:
  assumes "conc_shape m xs p"
  shows "queuedTasks p = int (size (held xs p))"
proof -
  have "chunkLen (taskBuf p) = int (length xs)" using assms buf_rep_len by (auto simp: conc_shape_def)
  then show ?thesis by (simp add: queuedTasks_def GetTaskQueueLen_def buffer_Len_def held_def size_shards_mset)
qed

lemma stopped_drained:
  assumes "conc_inv m s" and "scalerAt s = KStopped"
  shows "accepted s = finished s" and "queuedTasks (shared s) = 0" and "hands s = {#}" and "closed (shared s)"
    and "\<And>ctx task ph. (ctx, task, ph) \<in># submitters s \<Longrightarrow> turned_away ph"
proof -
  show af: "accepted s = finished s" and "closed (shared s)" and "\<And>ctx task ph. (ctx, task, ph) \<in># submitters s \<Longrightarrow> turned_away ph"
    using assms by (auto simp: conc_inv_def stop_ok_def)
  obtain xs where xs: "conc_shape m xs (shared s)" "accepted s = finished s + held xs (shared s) + hands s"
    using assms(1) by (auto simp: conc_inv_def conc_ledger_def)
  then show "queuedTasks (shared s) = 0" "hands s = {#}" using af queued_held [OF xs(1)] by simp_all
qed

section \<open>Launching what was counted\<close>

text \<open>What the clients see of a state does not change while only workers and the scaler run.\<close>

definition same_clients :: "('f, 'b, 'c, 'v, 'w) conc \<Rightarrow> ('f, 'b, 'c, 'v, 'w) conc \<Rightarrow> bool" where
  "same_clients s s' \<longleftrightarrow> submitters s' = submitters s \<and> closers s' = closers s \<and> accepted s' = accepted s"

fun starting :: "('f, 'b, 'c) worker_phase \<Rightarrow> bool" where
  "starting (WStart w) \<longleftrightarrow> True"
| "starting _ \<longleftrightarrow> False"

lemma scaler_can_step:
  assumes "conc_inv m s" and "scalerAt s \<noteq> KStopped"
  obtains ph' q where "scaler_step n (scalerAt s) (shared s) = Some (ph', q)"
    and "conc_step env s (s\<lparr>shared := q, scalerAt := ph', workers := workers s + launched (shared s) q\<rparr>)"
    and "runningWorkersNum q + int (scaler_duty (scalerAt s)) =
           runningWorkersNum (shared s) + int (scaler_duty ph') + int (size (launched (shared s) q))"
    and "(\<forall>cur a. scalerAt s \<noteq> KAdd cur a) \<longrightarrow> runningWorkersNum q = runningWorkersNum (shared s)"
proof -
  obtain xs where "conc_shape m xs (shared s)" "scaler_ok m (scalerAt s)" by (rule conc_invD [OF assms(1)])
  from scaler_step_ok [OF this assms(2), of n] that conc_step.scaler [of n s] show thesis by (auto simp: scaler_post_def)
qed

text \<open>The scaler launches as many workers as it has counted.\<close>

lemma scaler_launches:
  assumes "conc_inv m s" and "scalerAt s = KLaunch k"
  shows "\<exists>s' W. (conc_step env)\<^sup>*\<^sup>* s s' \<and> scalerAt s' = KLaunch 0 \<and> same_clients s s' \<and>
    workers s' = workers s + W \<and> size W = k \<and> (\<forall>ph\<in>#W. starting ph) \<and>
    runningWorkersNum (shared s') = runningWorkersNum (shared s)"
  using assms
proof (induction k arbitrary: s)
  case 0
  then show ?case by (intro exI [of _ s] exI [of _ "{#}"]) (simp add: same_clients_def)
next
  case (Suc k)
  obtain ph' q where q: "scaler_step 0 (scalerAt s) (shared s) = Some (ph', q)"
    "conc_step env s (s\<lparr>shared := q, scalerAt := ph', workers := workers s + launched (shared s) q\<rparr>)" (is "conc_step env s ?s")
    "runningWorkersNum q + int (scaler_duty (scalerAt s)) =
       runningWorkersNum (shared s) + int (scaler_duty ph') + int (size (launched (shared s) q))"
    "(\<forall>cur a. scalerAt s \<noteq> KAdd cur a) \<longrightarrow> runningWorkersNum q = runningWorkersNum (shared s)"
    by (rule scaler_can_step [OF Suc.prems(1)]) (use Suc.prems(2) in auto)
  have ph: "ph' = KLaunch k" using q(1) Suc.prems(2) by (auto simp del: spawn_loop.simps)
  have one: "size (launched (shared s) q) = 1" using q(3,4) Suc.prems(2) ph by simp
  obtain s' W where "(conc_step env)\<^sup>*\<^sup>* ?s s'" "scalerAt s' = KLaunch 0" "same_clients ?s s'"
    "workers s' = workers ?s + W" "size W = k" "\<forall>ph\<in>#W. starting ph"
    "runningWorkersNum (shared s') = runningWorkersNum q"
    using Suc.IH [OF conc_inv_step [OF q(2) Suc.prems(1)]] ph by auto
  then show ?case using q(2,4) one Suc.prems(2)
    by (intro exI [of _ s'] exI [of _ "launched (shared s) q + W"])
      (auto simp: same_clients_def launched_def intro: converse_rtranclp_into_rtranclp)
qed

lemma cold_start_counts:
  assumes "\<not> closed p" and "runningWorkersNum p = 0"
  shows "(submitter_solo env pick sel ctx task)\<^sup>*\<^sup>* (PClosed, p) (PLaunch, p\<lparr>submitCount := submitCount p + 1, runningWorkersNum := 1\<rparr>)"
  using assms by (auto intro!: solo_step [where ph = PClosed] solo_step [where ph = PCount] solo_step [where ph = PLoad] solo_step [where ph = PCas])

section \<open>Properties\<close>

lemma reach_inv:
  assumes "config_valid c" and "taskQueueSize c < 2 ^ 62" and "shards_want procs c \<le> 2 ^ 62"
    and "NewPool procs (Some c) w = Some p" and "conc_reach env p s"
  obtains m where "conc_inv m s"
  using conc_init_inv [OF assms(1-4)] conc_reach_inv [OF assms(5)] by blast

text \<open>
  C1. No task is lost, duplicated or run twice, whatever the interleaving: in every reachable
  state the tasks whose submission returned true, or is about to, are exactly the finished
  ones, those in the shards and the overflow buffer and those in the hands of workers, and
  the pending count is exactly the number of the latter plus the submissions in flight. So whoever reads a pending count of
  zero, as \<^verbatim>\<open>Wait\<close> does, knows that every task accepted so far has finished.
\<close>

theorem tasks_exactly_once:
  assumes "config_valid c" and "taskQueueSize c < 2 ^ 62" and "shards_want procs c \<le> 2 ^ 62"
    and "NewPool procs (Some c) w = Some p" and "conc_reach env p s"
  shows "\<exists>xs. buf_rep (taskBuf (shared s)) xs \<and>
      accepted s = (\<Sum>x\<in>#submitters s. has_enqueued (fst (snd x)) (snd (snd x))) \<and>
      accepted s = finished s + (shards_mset (taskQueues (shared s)) + mset xs) + hands s \<and>
      pendingTasks (shared s) = queuedTasks (shared s) + int (size (hands s)) + int (in_flight s) \<and>
      (pendingTasks (shared s) = 0 \<longrightarrow> accepted s = finished s)"
proof -
  obtain m where inv: "conc_inv m s" by (rule reach_inv [OF assms])
  then have led: "conc_ledger m s" by (simp add: conc_inv_def)
  from conc_ledgerE [OF led] obtain xs where xs: "conc_shape m xs (shared s)" "accepted s = finished s + held xs (shared s) + hands s"
    "pendingTasks (shared s) = int (size (held xs (shared s))) + int (in_flight s) + int (size (hands s))" by metis
  moreover have "buf_rep (taskBuf (shared s)) xs" using xs(1) by (simp add: conc_shape_def)
  moreover have "accepted s = (\<Sum>x\<in>#submitters s. has_enqueued (fst (snd x)) (snd (snd x)))"
    using reach_results [OF assms] by (simp add: results_ok_def)
  ultimately show ?thesis using ledger_idle(1) [OF led] queued_held [OF xs(1)] unfolding held_def by auto
qed

lemma small_pool:
  fixes c defines "c \<equiv> NewConfig [WithTaskQueueSize 1, WithWorkerNumCapacity 2] :: (nat, unit, nat, nat, example_world) PanicHandler Config"
  obtains m p where "NewPool 8 (Some c) ([], []) = Some p" and "pool_inv m [] p" and "\<not> closed p" and "workMode (config p) = BLOCK"
    and "runningWorkersNum p = 0" and "capacity p = 2" and "pendingTasks p = 0"
proof -
  have v: "config_valid c" "taskQueueSize c < 2 ^ 62" "shards_want 8 c \<le> 2 ^ 62" unfolding c_def by (rule small_config)+
  obtain m p where p: "NewPool 8 (Some c) ([], []) = Some p" "pool_inv m [] p" "\<not> closed p" "config p = c"
    "runningWorkersNum p = 0" "pendingTasks p = 0"
    using NewPool_ok [of c 8 "([], [])"] v by (auto simp: config_valid_def pos64_def)
  moreover have "workMode c = BLOCK" "workerNumCapacity c = 2"
    by (simp_all add: c_def NewConfig_def WithTaskQueueSize_def WithWorkerNumCapacity_def config_consts)
  ultimately show thesis using that NewPool_scale_ok(2) [OF v(1) p(1)] by simp
qed

text \<open>A task accepted by a new pool and not yet taken.\<close>

lemma one_accepted:
  assumes "pool_inv m [] p" and "\<not> closed p" and "workMode (config p) = BLOCK" and "\<not> isNilTask (Some task)"
  shows "\<exists>q s. submit env pick sel ctx task p = Some (Accepted, q) \<and> conc_reach env p s \<and> shared s = q \<and>
    accepted s = {#Some task#} \<and> finished s = {#}"
proof -
  obtain q where q: "submit env pick sel ctx task p = Some (Accepted, q)"
    using submit_ok [OF assms(1,4), of env pick sel ctx] assms(2,3) by (auto simp: block_promise_def maxChunkLen_def)
  then have "submit env pick sel ctx task (shared (conc_init p)) = Some (Accepted, q)" by (simp add: conc_init_def)
  from submit_execution [OF this assms(4)] show ?thesis
    using q conc_run_reach [OF _ conc_start, of env p] by (fastforce simp: conc_init_def gained_def)
qed

theorem tasks_exactly_once_witness:
  "\<exists>p s xs. NewPool 8 (Some (NewConfig [WithTaskQueueSize 1, WithWorkerNumCapacity 2])) ([], []) = Some p \<and>
     conc_reach example_env p s \<and> accepted s = {#Some (TaskFunc (Some 1))#} \<and> finished s = {#} \<and>
     {#Some (TaskFunc (Some 1))#} = (shards_mset (taskQueues (shared s)) + mset xs) + hands s"
proof -
  obtain m and p :: "(nat, unit, nat, nat, example_world) Pool" where
    p: "NewPool 8 (Some (NewConfig [WithTaskQueueSize 1, WithWorkerNumCapacity 2])) ([], []) = Some p" "pool_inv m [] p"
      "\<not> closed p" "workMode (config p) = BLOCK" by (rule small_pool)
  obtain s where s: "conc_reach example_env p s" "accepted s = {#Some (TaskFunc (Some 1))#}" "finished s = {#}"
    using one_accepted [OF p(2-4), of "TaskFunc (Some 1)" example_env None 0 "Background example_env"] by auto
  show ?thesis using tasks_exactly_once [OF small_config p(1) s(1)] p(1) s by auto
qed

text \<open>
  C2. The scaler does not stop early. It outlives \<^verbatim>\<open>Close\<close>; when it does end, the pool is
  closed and drained: every accepted task has finished, no task is queued or in a worker's
  hands, and no execution that continues from there accepts another task, although
  submissions may still be between their registration and the closed check.
\<close>

theorem scaler_stops_only_when_drained:
  assumes "config_valid c" and "taskQueueSize c < 2 ^ 62" and "shards_want procs c \<le> 2 ^ 62"
    and "NewPool procs (Some c) w = Some p" and "conc_reach env p s" and "scalerAt s = KStopped"
    and "(conc_step env)\<^sup>*\<^sup>* s s'"
  shows "closed (shared s') \<and> accepted s' = accepted s \<and> finished s' = accepted s \<and>
           queuedTasks (shared s') = 0 \<and> hands s' = {#} \<and> scalerAt s' = KStopped"
proof -
  obtain m where inv: "conc_inv m s" by (rule reach_inv [OF assms(1-5)])
  have s': "scalerAt s' = KStopped" "accepted s' = accepted s" using stopped_run [OF assms(7) inv assms(6)] by simp_all
  have "conc_inv m s'" by (rule conc_run_inv [OF assms(7) inv])
  from stopped_drained [OF this s'(1)] s' show ?thesis by auto
qed

lemma close_run:
  assumes "\<not> closed p" and "pendingTasks p = 0"
  shows "\<exists>s. conc_reach env p s \<and> scalerAt s = KStopped"
proof -
  let ?q = "p\<lparr>closed := True\<rparr>"
  let ?s = "\<lambda>q k C. (conc_init p)\<lparr>shared := q, scalerAt := k, closers := C\<rparr>"
  have "conc_reach env p (conc_init p)" by (rule conc_start)
  moreover have "conc_init p = ?s p KTick {#}" by (simp add: conc_init_def)
  ultimately have "conc_reach env p (?s p KTick {#})" by simp
  from conc_more [OF this conc_step.shut] have "conc_reach env p (?s p KTick {#CCas#})" by (simp add: conc_init_def)
  from conc_more [OF this conc_step.closer [of _ CCas "{#}" CBuffer ?q]] assms(1)
  have "conc_reach env p (?s ?q KTick {#CBuffer#})" by (simp add: conc_init_def)
  from conc_more [OF this conc_step.scaler [of 0 _ KClosed ?q]] have "conc_reach env p (?s ?q KClosed {#CBuffer#})"
    by (simp add: conc_init_def Let_def)
  from conc_more [OF this conc_step.scaler [of 0 _ KPending ?q]] have "conc_reach env p (?s ?q KPending {#CBuffer#})"
    by (simp add: conc_init_def)
  from conc_more [OF this conc_step.scaler [of 0 _ KStopped ?q]] assms(2) have "conc_reach env p (?s ?q KStopped {#CBuffer#})"
    by (simp add: conc_init_def)
  then show ?thesis by fastforce
qed

theorem scaler_stops_only_when_drained_witness:
  "\<exists>p s. NewPool 8 (Some (NewConfig [WithTaskQueueSize 1, WithWorkerNumCapacity 2])) ([], []) = Some p \<and>
     conc_reach example_env p s \<and> scalerAt s = KStopped \<and> queuedTasks (shared s) = 0"
proof -
  obtain m and p :: "(nat, unit, nat, nat, example_world) Pool" where
    p: "NewPool 8 (Some (NewConfig [WithTaskQueueSize 1, WithWorkerNumCapacity 2])) ([], []) = Some p"
      "\<not> closed p" "pendingTasks p = 0" by (rule small_pool)
  obtain s where s: "conc_reach example_env p s" "scalerAt s = KStopped" using close_run [OF p(2,3)] by blast
  show ?thesis using scaler_stops_only_when_drained [OF small_config p(1) s, of s] p(1) s by blast
qed

text \<open>
  C5. Nothing in the pool deadlocks or panics, whatever the interleaving. In every reachable
  state every worker that has not ended can take its next step, and so can every submitter
  but one that waits in the last \<^verbatim>\<open>select\<close>, its shard full, its context live and the pool
  not shut. While a task is queued or a submitter waits, the scaler has not ended and can
  take its next step.
\<close>

theorem no_deadlock:
  assumes "config_valid c" and "taskQueueSize c < 2 ^ 62" and "shards_want procs c \<le> 2 ^ 62"
    and "NewPool procs (Some c) w = Some p" and "conc_reach env p s"
  shows "(\<forall>ph\<in>#workers s. ph = WEnd \<or> (\<exists>x. worker_step env now priority pick ph (shared s) = Some x)) \<and>
    (\<forall>(ctx, task, ph)\<in>#submitters s. (\<exists>b. ph = PEnd b) \<or>
       (\<exists>i. ph = PSelect i \<and> \<not> chan_room (taskQueues (shared s) ! i) \<and> \<not> ctxErr env ctx (world (shared s)) \<and>
          \<not> closePoolCn (shared s)) \<or>
       (\<exists>x. submit_step env pick sel ctx task ph (shared s) = Some x)) \<and>
    (queuedTasks (shared s) \<noteq> 0 \<or> (\<exists>ctx task i. (ctx, task, PSelect i) \<in># submitters s) \<longrightarrow>
       (\<exists>x. scaler_step n (scalerAt s) (shared s) = Some x))"
proof -
  obtain m where inv: "conc_inv m s" by (rule reach_inv [OF assms])
  then have "conc_ledger m s" by (simp add: conc_inv_def)
  from conc_ledgerE [OF this] obtain xs where l: "\<forall>x\<in>#submitters s. submitter_ok m x" "\<forall>ph\<in>#workers s. worker_ok m ph"
    "scaler_ok m (scalerAt s)" "conc_shape m xs (shared s)" by metis
  have "ph = WEnd \<or> (\<exists>x. worker_step env now priority pick ph (shared s) = Some x)" if "ph \<in># workers s" for ph
    using worker_step_ok [OF l(4), of ph env now priority pick] l(2) that by blast
  moreover have "(\<exists>b. ph = PEnd b) \<or> (\<exists>i. ph = PSelect i \<and> \<not> chan_room (taskQueues (shared s) ! i) \<and>
      \<not> ctxErr env ctx (world (shared s)) \<and> \<not> closePoolCn (shared s)) \<or> (\<exists>x. submit_step env pick sel ctx task ph (shared s) = Some x)"
    if "(ctx, task, ph) \<in># submitters s" for ctx task ph
  proof -
    have "submitter_ok m (ctx, task, ph)" using that l(1) by blast
    then show ?thesis by (cases rule: submitter_progress [OF l(4), where env = env and pick = pick and sel = sel]) auto
  qed
  moreover have "scalerAt s \<noteq> KStopped"
    if "queuedTasks (shared s) \<noteq> 0 \<or> (\<exists>ctx task i. (ctx, task, PSelect i) \<in># submitters s)"
    using that stopped_drained [OF inv] by fastforce
  ultimately show ?thesis using scaler_step_ok [OF l(4,3), of n] by fast
qed

theorem no_deadlock_witness:
  "\<exists>p s. NewPool 8 (Some (NewConfig [WithTaskQueueSize 1, WithWorkerNumCapacity 2])) ([], []) = Some p \<and>
     conc_reach example_env p s \<and> accepted s = {#Some (TaskFunc (Some 1))#} \<and>
     (\<forall>ph\<in>#workers s. ph = WEnd \<or> (\<exists>x. worker_step example_env (\<lambda>w. 0) 0 None ph (shared s) = Some x))"
proof -
  obtain m and p :: "(nat, unit, nat, nat, example_world) Pool" where
    p: "NewPool 8 (Some (NewConfig [WithTaskQueueSize 1, WithWorkerNumCapacity 2])) ([], []) = Some p" "pool_inv m [] p"
      "\<not> closed p" "workMode (config p) = BLOCK" by (rule small_pool)
  obtain s where s: "conc_reach example_env p s" "accepted s = {#Some (TaskFunc (Some 1))#}"
    using one_accepted [OF p(2-4), of "TaskFunc (Some 1)" example_env None 0 "Background example_env"] by auto
  show ?thesis using no_deadlock [OF small_config p(1) s(1)] p(1) s by blast
qed

text \<open>
  In \<^verbatim>\<open>BLOCK\<close> mode nobody is turned away without a reason: whatever the interleaving, a
  submission that returns false found the pool closed or its context expired.
\<close>

theorem block_mode_rejections_justified:
  assumes "config_valid c" and "taskQueueSize c < 2 ^ 62" and "shards_want procs c \<le> 2 ^ 62"
    and "NewPool procs (Some c) w = Some p" and "conc_reach env p s" and "workMode c = BLOCK"
    and "(ctx, task, PEnd False) \<in># submitters s"
  shows "closed (shared s) \<or> (\<exists>w. ctxErr env ctx w)"
  using reach_results [OF assms(1-5)] assms(6,7) by (fastforce simp: results_ok_def)

lemma rejected_run:
  assumes "\<not> closed p"
  shows "\<exists>s. conc_reach env p s \<and> (Background env, TaskFunc (Some f), PEnd False) \<in># submitters s"
proof -
  let ?t = "TaskFunc (Some f)"
  define s1 where "s1 = (conc_init p)\<lparr>closers := {#CCas#}\<rparr>"
  define s2 where "s2 = s1\<lparr>shared := p\<lparr>closed := True\<rparr>, closers := {#CBuffer#}\<rparr>"
  have "conc_step env (conc_init p) s1" using conc_step.shut [of env "conc_init p"] by (simp add: s1_def conc_init_def)
  moreover have "conc_step env s1 s2"
    using conc_step.closer [of s1 CCas "{#}" CBuffer "p\<lparr>closed := True\<rparr>" env] assms by (simp add: s1_def s2_def conc_init_def)
  moreover have "submit env None 0 (Background env) ?t (shared s2) = Some (Rejected, pool_done (pool_addPending (shared s2)))"
    by (simp add: submit_def s2_def pool_addPending_def)
  from submit_execution [OF this] obtain s3 where "(conc_step env)\<^sup>*\<^sup>* s2 s3" "(Background env, ?t, PEnd False) \<in># submitters s3"
    by auto
  ultimately have "(conc_step env)\<^sup>*\<^sup>* (conc_init p) s3" "(Background env, ?t, PEnd False) \<in># submitters s3"
    by (meson converse_rtranclp_into_rtranclp)+
  then show ?thesis using conc_run_reach [OF _ conc_start] by blast
qed

theorem block_mode_rejections_justified_witness:
  "\<exists>p s. NewPool 8 (Some (NewConfig [WithTaskQueueSize 1, WithWorkerNumCapacity 2])) ([], []) = Some p \<and>
     conc_reach example_env p s \<and> (Background example_env, TaskFunc (Some 1), PEnd False) \<in># submitters s \<and>
     (closed (shared s) \<or> (\<exists>w. ctxErr example_env (Background example_env) w))"
proof -
  let ?c = "NewConfig [WithTaskQueueSize 1, WithWorkerNumCapacity 2] :: (nat, unit, nat, nat, example_world) PanicHandler Config"
  obtain m and p :: "(nat, unit, nat, nat, example_world) Pool" where
    p: "NewPool 8 (Some ?c) ([], []) = Some p" "\<not> closed p" by (rule small_pool)
  have "workMode ?c = BLOCK" by (simp add: NewConfig_def WithTaskQueueSize_def WithWorkerNumCapacity_def config_consts)
  moreover obtain s where s: "conc_reach example_env p s" "(Background example_env, TaskFunc (Some 1), PEnd False) \<in># submitters s"
    using rejected_run [OF p(2), of example_env 1] by blast
  ultimately show ?thesis using block_mode_rejections_justified [OF small_config p(1) s(1) _ s(2)] p(1) s by blast
qed

text \<open>
  C14. No worker is shared: in every reachable state each worker object is run by at most one
  goroutine or lies in the idle container at most once, never both, so that two goroutines
  cannot race on its fields and the container holds no duplicates.
\<close>

theorem worker_never_shared:
  assumes "config_valid c" and "taskQueueSize c < 2 ^ 62" and "shards_want procs c \<le> 2 ^ 62"
    and "NewPool procs (Some c) w = Some p" and "conc_reach env p s"
  shows "count (image_mset wid ((\<Sum>ph\<in>#workers s. run_by ph) + idle_elems (idleWorks (shared s)))) i \<le> 1"
proof -
  obtain m where "conc_inv m s" by (rule reach_inv [OF assms])
  then have "count (worker_ids (workers s) (shared s)) i \<le> (if int i < workerCreateCount (shared s) then 1 else 0)"
    by (simp add: conc_inv_def owners_ok_def)
  then show ?thesis unfolding worker_ids_def by (rule order_trans) simp
qed

theorem worker_never_shared_witness:
  "\<exists>p s. NewPool 8 (Some (NewConfig [WithTaskQueueSize 1, WithWorkerNumCapacity 2])) ([], []) = Some p \<and>
     conc_reach example_env p s \<and> accepted s = {#Some (TaskFunc (Some 1))#} \<and>
     count (image_mset wid ((\<Sum>ph\<in>#workers s. run_by ph) + idle_elems (idleWorks (shared s)))) 0 \<le> 1"
proof -
  obtain m and p :: "(nat, unit, nat, nat, example_world) Pool" where
    p: "NewPool 8 (Some (NewConfig [WithTaskQueueSize 1, WithWorkerNumCapacity 2])) ([], []) = Some p" "pool_inv m [] p"
      "\<not> closed p" "workMode (config p) = BLOCK" by (rule small_pool)
  obtain s where s: "conc_reach example_env p s" "accepted s = {#Some (TaskFunc (Some 1))#}"
    using one_accepted [OF p(2-4), of "TaskFunc (Some 1)" example_env None 0 "Background example_env"] by auto
  show ?thesis using worker_never_shared [OF small_config p(1) s(1)] p(1) s by blast
qed

text \<open>
  C23. Under every interleaving the running count is the number of workers that were launched
  and have not parked, plus those about to be launched by whoever raised it; it is never
  negative and exceeds the capacity by at most one.
\<close>

theorem running_count_bound:
  assumes "config_valid c" and "taskQueueSize c < 2 ^ 62" and "shards_want procs c \<le> 2 ^ 62"
    and "NewPool procs (Some c) w = Some p" and "conc_reach env p s"
  shows "runningWorkersNum (shared s) = int (on_duty s) \<and> runningWorkersNum (shared s) \<le> capacity (shared s) + 1"
proof -
  obtain m where "conc_inv m s" by (rule reach_inv [OF assms])
  then show ?thesis by (simp add: conc_inv_def count_ok_def)
qed

theorem running_count_bound_witness:
  "\<exists>p s. NewPool 8 (Some (NewConfig [WithTaskQueueSize 1, WithWorkerNumCapacity 2])) ([], []) = Some p \<and>
     conc_reach example_env p s \<and> scalerAt s = KStopped \<and> runningWorkersNum (shared s) = int (on_duty s)"
proof -
  obtain m and p :: "(nat, unit, nat, nat, example_world) Pool" where
    p: "NewPool 8 (Some (NewConfig [WithTaskQueueSize 1, WithWorkerNumCapacity 2])) ([], []) = Some p"
      "\<not> closed p" "pendingTasks p = 0" by (rule small_pool)
  obtain s where s: "conc_reach example_env p s" "scalerAt s = KStopped" using close_run [OF p(2,3)] by blast
  show ?thesis using running_count_bound [OF small_config p(1) s(1)] p(1) s by blast
qed

end
