(* ===== verification/Concurrent_Progress.thy ===== *)
theory Concurrent_Progress
  imports Concurrent_Safety
begin

text \<open>
  From every reachable state the pool can be drained: a schedule that runs the goroutines
  one after the other brings every submission and every accepted task to its end. Each
  goroutine ends, or rests in the last \<^verbatim>\<open>select\<close> of \<^verbatim>\<open>submit\<close>, after finitely many steps of
  its own.
\<close>

section \<open>A worker comes to its end\<close>

fun worker_rank :: "nat \<Rightarrow> ('f, 'b, 'c) worker_phase \<Rightarrow> nat" where
  "worker_rank n (WStart w) = n + 12"
| "worker_rank n (WScan w i) = 10 + (n - i)"
| "worker_rank n (WPop w) = 9"
| "worker_rank n (WHand w ts) = (if ts = [] then n + 11 else 8)"
| "worker_rank n (WBusy w t ts) = 7"
| "worker_rank n (WSettle w t ts) = 6"
| "worker_rank n (WPark w) = 3"
| "worker_rank n (WExit w) = 2"
| "worker_rank n (WIdle w) = 1"
| "worker_rank n WEnd = 0"

text \<open>What a worker that runs alone knows of the queues.\<close>

fun scan_clear :: "nat \<Rightarrow> ('f, 'b, 'c) worker_phase \<Rightarrow> ('f, 'b, 'c, 'v, 'w) Pool \<Rightarrow> bool" where
  "scan_clear m (WScan w i) p \<longleftrightarrow> (\<forall>j<i. chanItems (taskQueues p ! scan_pos m (cursor w) j) = [])"
| "scan_clear m (WPop w) p \<longleftrightarrow> shards_mset (taskQueues p) = {#}"
| "scan_clear m (WPark w) p \<longleftrightarrow> queuedTasks p = 0"
| "scan_clear m (WExit w) p \<longleftrightarrow> queuedTasks p = 0"
| "scan_clear m (WIdle w) p \<longleftrightarrow> queuedTasks p = 0"
| "scan_clear m WEnd p \<longleftrightarrow> queuedTasks p = 0"
| "scan_clear m _ p \<longleftrightarrow> True"

definition worker_measure :: "('f, 'b, 'c) worker_phase \<Rightarrow> ('f, 'b, 'c, 'v, 'w) Pool \<Rightarrow> nat" where
  "worker_measure ph p =
     (nat (queuedTasks p) + size (in_hand ph)) * (length (taskQueues p) + 13) + worker_rank (length (taskQueues p)) ph"

lemma worker_rank_bound: "worker_rank n ph \<le> n + 12"
  by (cases ph) auto

lemma scan_clear_shards:
  assumes "shards_ok m msk qs" and "\<forall>j<length qs. chanItems (qs ! scan_pos m start j) = []"
  shows "shards_mset qs = {#}"
proof -
  have "chanItems q = []" if q: "q \<in> set qs" for q
  proof -
    obtain i where i: "i < length qs" "q = qs ! i" using q by (auto simp: in_set_conv_nth)
    have len: "length qs = 2 ^ m" using assms(1) by (simp add: shards_ok_def)
    obtain j where "j < 2 ^ m" "scan_pos m start j = i" using scan_pos_onto [of i m start] i(1) len by auto
    then show ?thesis using assms(2) i(2) len by auto
  qed
  then show ?thesis by (simp add: shards_mset_empty_iff)
qed

lemma scan_step_clear:
  assumes shape: "conc_shape m xs p" and i: "i < length (taskQueues p)"
    and step: "worker_step env now priority pick (WScan w i) p = Some (ph', q)"
  shows "(scan_clear m (WScan w i) p \<longrightarrow> scan_clear m ph' q) \<and> worker_rank (length (taskQueues p)) ph' < worker_rank (length (taskQueues p)) (WScan w i) \<and>
    length (taskQueues q) = length (taskQueues p)"
proof -
  have s: "shards_ok m (shardMask p) (taskQueues p)" using shape by (simp add: conc_shape_def)
  then have idx: "unat ((cursor w + of_nat i) AND shardMask p) = scan_pos m (cursor w) i"
    by (simp add: shards_ok_def unat_and_mask unat_plus_mod scan_pos_def)
  have lt: "scan_pos m (cursor w) i < length (taskQueues p)" using s by (simp add: shards_ok_def scan_pos_def)
  show ?thesis
  proof (cases "chanItems (taskQueues p ! scan_pos m (cursor w) i)")
    case Nil
    then have "ph' = WScan w (Suc i)" "q = p" using step i idx lt by (auto simp: chan_recv_def Let_def)
    then show ?thesis using Nil i by (auto simp: less_Suc_eq)
  next
    case (Cons x ts)
    have "x \<in># held xs p" using shards_recv(2) [OF s lt Cons] by (simp add: held_def)
    then obtain t where "x = Some t" using shape by (cases x) (auto simp: conc_shape_def)
    then show ?thesis using step i idx lt Cons by (auto simp: chan_recv_def Let_def)
  qed
qed

lemma worker_step_measure:
  assumes shape: "conc_shape m xs p" and ok: "worker_ok m ph"
    and step: "worker_step env now priority pick ph p = Some (ph', q)"
  shows "(scan_clear m ph p \<longrightarrow> scan_clear m ph' q) \<and> length (taskQueues q) = length (taskQueues p) \<and>
    (newly_finished ph = {#} \<longrightarrow> worker_rank (length (taskQueues p)) ph' < worker_rank (length (taskQueues p)) ph)"
proof (cases ph)
  case (WScan w i)
  show ?thesis
  proof (cases "i < length (taskQueues p)")
    case True
    then show ?thesis using scan_step_clear [OF shape True step [unfolded WScan]] WScan by simp
  next
    case False
    have "shards_ok m (shardMask p) (taskQueues p)" using shape by (simp add: conc_shape_def)
    from scan_clear_shards [OF this, of "cursor w"] show ?thesis using step False WScan by auto
  qed
next
  case (WPop w)
  obtain b where b: "worker_step env now priority pick (WPop w) p =
      Some (if xs = [] then WPark w else WHand w (take batchSize xs), p\<lparr>taskBuf := b\<rparr>)"
    "conc_shape m (drop batchSize xs) (p\<lparr>taskBuf := b\<rparr>)" by (rule pop_step [OF shape])
  then have "queuedTasks (p\<lparr>taskBuf := b\<rparr>) = 0" if "xs = []" "scan_clear m ph p"
    using queued_held [OF b(2)] WPop that by (simp add: held_def)
  then show ?thesis using step WPop b(1) by (auto simp: batchSize_def simp del: worker_step.simps)
next
  case (WHand w ts)
  then show ?thesis using step by (cases ts) (auto split: if_splits)
next
  case (WIdle w)
  then show ?thesis using step by (auto simp: addToIdle_def queuedTasks_def GetTaskQueueLen_def buffer_Len_def)
qed (use step in \<open>auto simp: addRunningWorkersNum_def queuedTasks_def GetTaskQueueLen_def buffer_Len_def\<close>)

lemma worker_measure_step:
  assumes "conc_shape m xs p" and "worker_ok m ph" and "worker_step env now priority pick ph p = Some (ph', q)"
  shows "worker_measure ph' q < worker_measure ph p"
proof -
  let ?n = "length (taskQueues p)"
  have post: "worker_post m xs ph p ph' q" by (rule worker_stepD [OF assms(3,1,2)])
  then obtain xs' where xs: "conc_shape m xs' q" "held xs' q + in_hand ph' + newly_finished ph = held xs p + in_hand ph"
    by (auto simp: worker_post_def)
  have "size (held xs' q) + size (in_hand ph') + size (newly_finished ph) = size (held xs p) + size (in_hand ph)"
    unfolding size_union [symmetric] by (rule arg_cong [OF xs(2)])
  then have total: "nat (queuedTasks q) + size (in_hand ph') + size (newly_finished ph) = nat (queuedTasks p) + size (in_hand ph)"
    using queued_held [OF assms(1)] queued_held [OF xs(1)] by simp
  note st = worker_step_measure [OF assms]
  show ?thesis
  proof (cases "newly_finished ph = {#}")
    case True
    then show ?thesis using st total by (simp add: worker_measure_def)
  next
    case False
    then have "newly_finished ph \<noteq> {#}" and "size (newly_finished ph) = 1" by (cases ph; simp)+
    then have e: "nat (queuedTasks p) + size (in_hand ph) = Suc (nat (queuedTasks q) + size (in_hand ph'))" using total by simp
    have "worker_rank ?n ph' < ?n + 13" using worker_rank_bound [of ?n ph'] by simp
    then show ?thesis using st unfolding worker_measure_def e by simp
  qed
qed

text \<open>A worker that runs alone ends; if it has seen the queues empty so far, it leaves them empty.\<close>

lemma worker_solo_ends:
  assumes "conc_inv m s" and "workers s = add_mset ph W"
  shows "\<exists>s'. (conc_step env)\<^sup>*\<^sup>* s s' \<and> workers s' = add_mset WEnd W \<and> same_clients s s' \<and> scalerAt s' = scalerAt s \<and>
    (scan_clear m ph (shared s) \<longrightarrow> queuedTasks (shared s') = 0)"
  using assms
proof (induction "worker_measure ph (shared s)" arbitrary: ph s rule: less_induct)
  case less
  show ?case
  proof (cases "ph = WEnd")
    case True
    then show ?thesis using less.prems by (intro exI [of _ s]) (simp add: same_clients_def)
  next
    case False
    obtain xs where shape: "conc_shape m xs (shared s)" "\<forall>ph\<in>#workers s. worker_ok m ph" by (rule conc_invD [OF less.prems(1)])
    then have ok: "worker_ok m ph" using less.prems(2) by simp
    obtain ph' q where st: "worker_step env (\<lambda>_. 0) 0 None ph (shared s) = Some (ph', q)"
      using worker_step_ok [OF shape(1) ok False] by blast
    let ?s = "s\<lparr>shared := q, workers := add_mset ph' W, finished := finished s + newly_finished ph\<rparr>"
    have c: "conc_step env s ?s" by (rule conc_step.worker [OF less.prems(2) st])
    have "worker_measure ph' (shared ?s) < worker_measure ph (shared s)"
      using worker_measure_step [OF shape(1) ok st] by simp
    moreover have "conc_inv m ?s" by (rule conc_inv_step [OF c less.prems(1)])
    ultimately obtain s' where "(conc_step env)\<^sup>*\<^sup>* ?s s'" "workers s' = add_mset WEnd W" "same_clients ?s s'"
      "scalerAt s' = scalerAt s" "scan_clear m ph' q \<longrightarrow> queuedTasks (shared s') = 0"
      using less.hyps [of ph' ?s] by auto
    moreover have "scan_clear m ph (shared s) \<longrightarrow> scan_clear m ph' q" using worker_step_measure [OF shape(1) ok st] by simp
    ultimately show ?thesis using c by (intro exI [of _ s']) (auto simp: same_clients_def intro: converse_rtranclp_into_rtranclp)
  qed
qed

lemma filter_mset_none: "filter_mset P M = {#} \<longleftrightarrow> (\<forall>x\<in>#M. \<not> P x)"
  by (induction M) auto

text \<open>
  All workers can run to their end, one after the other. If they are about to start, the
  first one empties the queues.
\<close>

lemma workers_end:
  assumes "conc_inv m s"
  shows "\<exists>s'. (conc_step env)\<^sup>*\<^sup>* s s' \<and> (\<forall>ph\<in>#workers s'. ph = WEnd) \<and> same_clients s s' \<and> scalerAt s' = scalerAt s \<and>
    ((\<forall>ph\<in>#workers s. ph = WEnd \<or> starting ph) \<and> (queuedTasks (shared s) = 0 \<or> (\<exists>ph\<in>#workers s. starting ph)) \<longrightarrow>
       queuedTasks (shared s') = 0)"
  using assms
proof (induction "size (filter_mset (\<lambda>ph. ph \<noteq> WEnd) (workers s))" arbitrary: s)
  case 0
  then have "\<forall>ph\<in>#workers s. ph = WEnd" by (auto simp: filter_mset_none)
  then show ?case by (intro exI [of _ s]) (auto simp: same_clients_def)
next
  case (Suc k)
  have "filter_mset (\<lambda>ph. ph \<noteq> WEnd) (workers s) \<noteq> {#}" using Suc.hyps(2) by (metis size_empty nat.distinct(1))
  then obtain ph where "ph \<in># workers s" and live: "ph \<noteq> WEnd" by (auto simp: filter_mset_none)
  then obtain W where W: "workers s = add_mset ph W" by (auto dest: multi_member_split)
  obtain s1 where s1: "(conc_step env)\<^sup>*\<^sup>* s s1" "workers s1 = add_mset WEnd W" "same_clients s s1" "scalerAt s1 = scalerAt s"
    "scan_clear m ph (shared s) \<longrightarrow> queuedTasks (shared s1) = 0"
    using worker_solo_ends [OF Suc.prems W] by blast
  have "k = size (filter_mset (\<lambda>ph. ph \<noteq> WEnd) (workers s1))" using Suc.hyps(2) W live s1(2) by simp
  from Suc.hyps(1) [OF this conc_run_inv [OF s1(1) Suc.prems]] obtain s' where
    s': "(conc_step env)\<^sup>*\<^sup>* s1 s'" "\<forall>ph\<in>#workers s'. ph = WEnd" "same_clients s1 s'" "scalerAt s' = scalerAt s1"
    "(\<forall>ph\<in>#W. ph = WEnd \<or> starting ph) \<and> queuedTasks (shared s1) = 0 \<longrightarrow> queuedTasks (shared s') = 0"
    unfolding s1(2) by auto
  have "scan_clear m ph (shared s)" if "starting ph" using that by (cases ph) auto
  then show ?case using s1 s' W live by (intro exI [of _ s']) (auto simp: same_clients_def intro: rtranclp_trans)
qed

section \<open>A submitter comes to rest\<close>

fun submit_rank :: "submit_phase \<Rightarrow> nat" where
  "submit_rank PClosed = 13"
| "submit_rank PCount = 12"
| "submit_rank PLoad = 11"
| "submit_rank PCas = 10"
| "submit_rank PLaunch = 9"
| "submit_rank PHook = 8"
| "submit_rank PNext = 7"
| "submit_rank (PTry i) = 6"
| "submit_rank PBuffer = 5"
| "submit_rank PFull = 4"
| "submit_rank (PSelect i) = 3"
| "submit_rank PEnqueued = 2"
| "submit_rank PReject = 2"
| "submit_rank (PEnd b) = 0"

text \<open>Whether a submitter has returned, and whether it has returned or waits.\<close>

fun ended :: "submit_phase \<Rightarrow> bool" where
  "ended (PEnd b) \<longleftrightarrow> True"
| "ended _ \<longleftrightarrow> False"

fun rests :: "submit_phase \<Rightarrow> bool" where
  "rests (PEnd b) \<longleftrightarrow> True"
| "rests (PSelect i) \<longleftrightarrow> True"
| "rests _ \<longleftrightarrow> False"

lemma submit_step_rank:
  assumes "submit_step env pick sel ctx task ph p = Some (ph', q)"
  shows "submit_rank ph' < submit_rank ph"
proof (cases ph)
  case (PSelect i)
  from assms [unfolded PSelect] show ?thesis by (cases rule: select_step) (simp_all add: PSelect)
qed (use assms in \<open>auto simp: Let_def split: if_splits option.splits taskBufferPushResult.splits prod.splits\<close>)

lemma submitter_steps_on:
  assumes "conc_inv m s" and "submitters s = add_mset (ctx, task, ph) S"
    and "\<not> ended ph" and "\<And>i. ph = PSelect i \<Longrightarrow> chan_room (taskQueues (shared s) ! i)"
  obtains ph' s' where "conc_step env s s'" and "submit_rank ph' < submit_rank ph" and "submitters s' = add_mset (ctx, task, ph') S"
    and "scalerAt s' = scalerAt s" and "closers s' = closers s"
proof -
  obtain xs where shape: "conc_shape m xs (shared s)" "\<forall>x\<in>#submitters s. submitter_ok m x" by (rule conc_invD [OF assms(1)])
  then have ok: "submitter_ok m (ctx, task, ph)" using assms(2) by simp
  have "\<exists>x. submit_step env None 0 ctx task ph (shared s) = Some x"
    by (cases rule: submitter_progress [OF shape(1) ok, where env = env and pick = None and sel = 0]) (use assms(3,4) in auto)
  then obtain ph' q where st: "submit_step env None 0 ctx task ph (shared s) = Some (ph', q)" by auto
  show thesis by (rule that [OF conc_step.submitter [OF assms(2) st] submit_step_rank [OF st]]) simp_all
qed

lemma submitter_rests:
  assumes "conc_inv m s" and "submitters s = add_mset (ctx, task, ph) S"
  shows "\<exists>s' ph'. (conc_step env)\<^sup>*\<^sup>* s s' \<and> submitters s' = add_mset (ctx, task, ph') S \<and> rests ph' \<and> submit_rank ph' \<le> submit_rank ph \<and>
    scalerAt s' = scalerAt s \<and> closers s' = closers s"
  using assms
proof (induction "submit_rank ph" arbitrary: ph s rule: less_induct)
  case less
  show ?case
  proof (cases "rests ph")
    case True
    then show ?thesis using less.prems by blast
  next
    case False
    then have ne: "\<not> ended ph" "\<And>i. ph \<noteq> PSelect i" by (cases ph; simp)+
    obtain ph1 s1 where s1: "conc_step env s s1" "submit_rank ph1 < submit_rank ph" "submitters s1 = add_mset (ctx, task, ph1) S"
      "scalerAt s1 = scalerAt s" "closers s1 = closers s"
      by (rule submitter_steps_on [OF less.prems ne(1)]) (use ne(2) in blast)+
    from less.hyps [OF s1(2) conc_inv_step [OF s1(1) less.prems(1)] s1(3)] obtain s' ph' where
      "(conc_step env)\<^sup>*\<^sup>* s1 s'" "submitters s' = add_mset (ctx, task, ph') S" "rests ph'" "submit_rank ph' \<le> submit_rank ph1"
      "scalerAt s' = scalerAt s1" "closers s' = closers s1"
      by blast
    then show ?thesis using s1 by (intro exI [of _ s'] exI [of _ ph']) (auto intro: converse_rtranclp_into_rtranclp)
  qed
qed

definition unended :: "('f, 'b, 'c, 'v, 'w) conc \<Rightarrow> nat" where
  "unended s = size (filter_mset (\<lambda>x. \<not> ended (snd (snd x))) (submitters s))"

text \<open>The submissions made so far, each with its context and its task.\<close>

definition calls :: "('f, 'b, 'c, 'v, 'w) conc \<Rightarrow> ('c \<times> ('f, 'b, 'c) Task) multiset" where
  "calls s = image_mset (\<lambda>x. (fst x, fst (snd x))) (submitters s)"

lemma submitters_rest:
  assumes "conc_inv m s"
  shows "\<exists>s'. (conc_step env)\<^sup>*\<^sup>* s s' \<and> (\<forall>x\<in>#submitters s'. rests (snd (snd x))) \<and> unended s' \<le> unended s \<and>
    calls s' = calls s \<and> scalerAt s' = scalerAt s \<and> closers s' = closers s"
  using assms
proof (induction "size (filter_mset (\<lambda>x. \<not> rests (snd (snd x))) (submitters s))" arbitrary: s)
  case 0
  then have "\<forall>x\<in>#submitters s. rests (snd (snd x))" by (auto simp: filter_mset_none)
  then show ?case by blast
next
  case (Suc k)
  have "filter_mset (\<lambda>x. \<not> rests (snd (snd x))) (submitters s) \<noteq> {#}" using Suc.hyps(2) by (metis size_empty nat.distinct(1))
  then obtain ctx task ph where "(ctx, task, ph) \<in># submitters s" and live: "\<not> rests ph" by (auto simp: filter_mset_none)
  then obtain S where S: "submitters s = add_mset (ctx, task, ph) S" by (auto dest: multi_member_split)
  obtain s1 ph' where s1: "(conc_step env)\<^sup>*\<^sup>* s s1" "submitters s1 = add_mset (ctx, task, ph') S" "rests ph'"
    "scalerAt s1 = scalerAt s" "closers s1 = closers s"
    using submitter_rests [OF Suc.prems S] by blast
  have "k = size (filter_mset (\<lambda>x. \<not> rests (snd (snd x))) (submitters s1))" using Suc.hyps(2) S live s1 by simp
  from Suc.hyps(1) [OF this conc_run_inv [OF s1(1) Suc.prems]] obtain s' where
    "(conc_step env)\<^sup>*\<^sup>* s1 s'" "\<forall>x\<in>#submitters s'. rests (snd (snd x))" "unended s' \<le> unended s1"
    "calls s' = calls s1" "scalerAt s' = scalerAt s1" "closers s' = closers s1" by blast
  moreover have "\<not> ended ph" using live by (cases ph) auto
  then have "unended s1 \<le> unended s" "calls s1 = calls s" using S s1(2) by (simp_all add: unended_def calls_def)
  ultimately show ?case using s1 by (intro exI [of _ s']) (auto intro: rtranclp_trans)
qed

lemma submitter_ends:
  assumes "conc_inv m s" and "submitters s = add_mset (ctx, task, PSelect i) S" and "chan_room (taskQueues (shared s) ! i)"
  shows "\<exists>s'. (conc_step env)\<^sup>*\<^sup>* s s' \<and> unended s' < unended s \<and> calls s' = calls s \<and>
    scalerAt s' = scalerAt s \<and> closers s' = closers s"
proof -
  obtain ph1 s1 where s1: "conc_step env s s1" "submit_rank ph1 < submit_rank (PSelect i)" "submitters s1 = add_mset (ctx, task, ph1) S"
    "scalerAt s1 = scalerAt s" "closers s1 = closers s"
    by (rule submitter_steps_on [OF assms(1,2)]) (use assms(3) in auto)
  obtain s2 ph2 where s2: "(conc_step env)\<^sup>*\<^sup>* s1 s2" "submitters s2 = add_mset (ctx, task, ph2) S" "rests ph2" "submit_rank ph2 \<le> submit_rank ph1"
    "scalerAt s2 = scalerAt s1" "closers s2 = closers s1"
    using submitter_rests [OF conc_inv_step [OF s1(1) assms(1)] s1(3)] by blast
  have "ended ph2" using s1(2) s2(3,4) by (cases ph2) auto
  then have "unended s2 < unended s" using s2(2) assms(2) by (simp add: unended_def)
  then show ?thesis using s1 s2 assms(2) by (intro exI [of _ s2]) (auto simp: calls_def intro: converse_rtranclp_into_rtranclp)
qed

section \<open>The scaler starts a worker\<close>

fun scaler_rank :: "scaler_phase \<Rightarrow> nat" where
  "scaler_rank (KAdd cur a) = 4 + nat a"
| "scaler_rank (KLaunch k) = 3 + k"
| "scaler_rank KClosed = 2"
| "scaler_rank KPending = 1"
| "scaler_rank _ = 0"

lemma scaler_step_rank:
  assumes "scaler_step n ph p = Some (ph', q)" and "ph \<noteq> KTick"
  shows "scaler_rank ph' < scaler_rank ph"
proof (cases ph)
  case (KLaunch k)
  then show ?thesis using assms(1) by (cases k) (auto simp del: spawn_loop.simps)
qed (use assms in \<open>auto split: if_splits\<close>)

lemma scaler_ticks:
  assumes "conc_inv m s"
  shows "\<exists>s'. (conc_step env)\<^sup>*\<^sup>* s s' \<and> (scalerAt s' = KTick \<or> scalerAt s' = KStopped) \<and> same_clients s s'"
  using assms
proof (induction "scaler_rank (scalerAt s)" arbitrary: s rule: less_induct)
  case less
  show ?case
  proof (cases "scalerAt s = KTick \<or> scalerAt s = KStopped")
    case True
    then show ?thesis by (intro exI [of _ s]) (simp add: same_clients_def)
  next
    case False
    then have live: "scalerAt s \<noteq> KStopped" by simp
    obtain ph' q where q: "scaler_step 0 (scalerAt s) (shared s) = Some (ph', q)"
      "conc_step env s (s\<lparr>shared := q, scalerAt := ph', workers := workers s + launched (shared s) q\<rparr>)" (is "conc_step env s ?s")
      by (rule scaler_can_step [OF less.prems live])
    have "scaler_rank (scalerAt ?s) < scaler_rank (scalerAt s)" using scaler_step_rank [OF q(1)] False by simp
    from less.hyps [OF this conc_inv_step [OF q(2) less.prems]] obtain s' where
      "(conc_step env)\<^sup>*\<^sup>* ?s s'" "scalerAt s' = KTick \<or> scalerAt s' = KStopped" "same_clients ?s s'" by blast
    then show ?thesis using q(2) by (intro exI [of _ s']) (auto simp: same_clients_def intro: converse_rtranclp_into_rtranclp)
  qed
qed

text \<open>A tick that asks for \<open>n\<close> workers while none runs starts that many, or the capacity.\<close>

lemma scaler_starts_workers:
  assumes inv: "conc_inv m s" and tick: "scalerAt s = KTick" and idle: "runningWorkersNum (shared s) = 0" and n: "0 < n"
  shows "\<exists>s' W. (conc_step env)\<^sup>*\<^sup>* s s' \<and> same_clients s s' \<and> workers s' = workers s + W \<and>
    int (size W) = min n (capacity (shared s)) \<and> (\<forall>ph\<in>#W. starting ph)"
proof -
  let ?a = "min n (capacity (shared s))"
  have cap: "0 < capacity (shared s)" "capacity (shared s) \<le> MaxInt64" using inv by (simp_all add: conc_inv_def count_ok_def)
  then have a: "actualSpawn (capacity (shared s)) 0 n = ?a" using actualSpawn_min [of 0 "capacity (shared s)" n] n by simp
  define s1 where "s1 = s\<lparr>scalerAt := KAdd 0 ?a\<rparr>"
  have r1: "conc_step env s s1"
    using conc_step.scaler [of n s "KAdd 0 ?a" "shared s" env] tick idle a n cap by (simp add: s1_def Let_def)
  define s2 where "s2 = s1\<lparr>shared := addRunningWorkersNum ?a (shared s), scalerAt := KLaunch (nat ?a)\<rparr>"
  have r2: "conc_step env s1 s2"
    using conc_step.scaler [of 0 s1 "KLaunch (nat ?a)" "addRunningWorkersNum ?a (shared s)" env]
    by (simp add: s1_def s2_def addRunningWorkersNum_def)
  have "conc_inv m s2" "scalerAt s2 = KLaunch (nat ?a)" using conc_inv_step [OF r2 conc_inv_step [OF r1 inv]] by (simp_all add: s2_def)
  from scaler_launches [OF this] obtain s' W where s': "(conc_step env)\<^sup>*\<^sup>* s2 s'" "same_clients s2 s'"
    "workers s' = workers s2 + W" "size W = nat ?a" "\<forall>ph\<in>#W. starting ph"
    by blast
  have "(conc_step env)\<^sup>*\<^sup>* s s'" using r1 r2 s'(1) by (meson converse_rtranclp_into_rtranclp)
  then show ?thesis using s' n cap by (intro exI [of _ s'] exI [of _ W]) (simp add: s1_def s2_def same_clients_def)
qed

section \<open>The pool drains\<close>

lemma chan_empty_room: "chan_ok q \<Longrightarrow> chanItems q = [] \<Longrightarrow> chan_room q"
  by (auto simp: chan_ok_def chan_room_def)

text \<open>Once every worker has ended and nobody launches, the count is zero.\<close>

lemma all_parked:
  assumes "conc_inv m s" and "\<forall>ph\<in>#workers s. ph = WEnd" and "\<forall>x\<in>#submitters s. rests (snd (snd x))"
    and "scaler_duty (scalerAt s) = 0"
  shows "runningWorkersNum (shared s) = 0"
proof -
  have "submit_duty ph = 0" if "rests ph" for ph using that by (cases ph) auto
  then have "(\<Sum>x\<in>#submitters s. submit_duty (snd (snd x))) = 0" using assms(3) by (auto simp: sum_mset_0_iff)
  moreover have "(\<Sum>ph\<in>#workers s. worker_duty ph) = 0" using assms(2) by (auto simp: sum_mset_0_iff)
  ultimately have "on_duty s = 0" using assms(4) by (simp add: on_duty_def)
  then show ?thesis using assms(1) by (simp add: conc_inv_def count_ok_def)
qed

text \<open>Nothing is left once the queues are empty, the workers have ended and nobody waits.\<close>

definition drained :: "('f, 'b, 'c, 'v, 'w) conc \<Rightarrow> bool" where
  "drained s \<longleftrightarrow> pendingTasks (shared s) = 0 \<and> accepted s = finished s \<and> (\<forall>x\<in>#submitters s. ended (snd (snd x)))"

lemma drainedI:
  assumes inv: "conc_inv m s" and "queuedTasks (shared s) = 0" and "hands s = {#}" and "\<forall>x\<in>#submitters s. ended (snd (snd x))"
  shows "drained s"
proof -
  have led: "conc_ledger m s" using inv by (simp add: conc_inv_def)
  from conc_ledgerE [OF led] obtain xs where xs: "conc_shape m xs (shared s)"
    "pendingTasks (shared s) = int (size (held xs (shared s))) + int (in_flight s) + int (size (hands s))" by metis
  have "registered ph = 0" if "ended ph" for ph using that by (cases ph) auto
  then have "in_flight s = 0" using assms(4) by (auto simp: in_flight_def sum_mset_0_iff)
  then have "pendingTasks (shared s) = 0" using xs queued_held [OF xs(1)] assms(2,3) by simp
  then show ?thesis using ledger_idle(1) [OF led] assms(4) by (simp add: drained_def)
qed

lemma queued_pending:
  assumes "conc_inv m s" and "queuedTasks (shared s) \<noteq> 0"
  shows "0 < pendingTasks (shared s)"
proof -
  have "conc_ledger m s" using assms(1) by (simp add: conc_inv_def)
  from conc_ledgerE [OF this] obtain xs where xs: "conc_shape m xs (shared s)"
    "pendingTasks (shared s) = int (size (held xs (shared s))) + int (in_flight s) + int (size (hands s))" by metis
  then show ?thesis using queued_held [OF xs(1)] assms(2) by linarith
qed

text \<open>A pool whose queues are empty has room in every shard.\<close>

lemma empty_has_room:
  assumes "conc_inv m s" and "queuedTasks (shared s) = 0" and "(ctx, task, PSelect i) \<in># submitters s"
  shows "chan_room (taskQueues (shared s) ! i)"
proof -
  obtain xs where xs: "conc_shape m xs (shared s)" "\<forall>x\<in>#submitters s. submitter_ok m x" by (rule conc_invD [OF assms(1)])
  have s: "shards_ok m (shardMask (shared s)) (taskQueues (shared s))" using xs(1) by (simp add: conc_shape_def)
  have "i < length (taskQueues (shared s))" using xs(2) assms(3) s by (fastforce simp: submitter_ok_def shards_ok_def)
  moreover have "held xs (shared s) = {#}" using queued_held [OF xs(1)] assms(2) by simp
  then have "shards_mset (taskQueues (shared s)) = {#}" by (simp add: held_def)
  ultimately show ?thesis using s
    by (intro chan_empty_room) (simp_all add: shards_ok_def shards_mset_empty_iff)
qed

text \<open>One round: everybody runs to the end or to the last \<^verbatim>\<open>select\<close>, and the queues are empty.\<close>

lemma round_runs:
  assumes "conc_inv m s"
  shows "\<exists>s'. (conc_step env)\<^sup>*\<^sup>* s s' \<and> (\<forall>x\<in>#submitters s'. rests (snd (snd x))) \<and> unended s' \<le> unended s \<and>
    calls s' = calls s \<and> closers s' = closers s \<and> queuedTasks (shared s') = 0 \<and> hands s' = {#}"
proof -
  obtain s1 where s1: "(conc_step env)\<^sup>*\<^sup>* s s1" "\<forall>x\<in>#submitters s1. rests (snd (snd x))" "unended s1 \<le> unended s"
    "calls s1 = calls s" "closers s1 = closers s" using submitters_rest [OF assms] by blast
  obtain s2 where s2: "(conc_step env)\<^sup>*\<^sup>* s1 s2" "scalerAt s2 = KTick \<or> scalerAt s2 = KStopped" "same_clients s1 s2"
    using scaler_ticks [OF conc_run_inv [OF s1(1) assms]] by blast
  note inv2 = conc_run_inv [OF s2(1) conc_run_inv [OF s1(1) assms]]
  obtain s3 where s3: "(conc_step env)\<^sup>*\<^sup>* s2 s3" "\<forall>ph\<in>#workers s3. ph = WEnd" "same_clients s2 s3" "scalerAt s3 = scalerAt s2"
    using workers_end [OF inv2] by blast
  note inv3 = conc_run_inv [OF s3(1) inv2]
  have r3: "(conc_step env)\<^sup>*\<^sup>* s s3" using s1(1) s2(1) s3(1) by simp
  have c3: "same_clients s1 s3" using s2(3) s3(3) by (simp add: same_clients_def)
  show ?thesis
  proof (cases "queuedTasks (shared s3) = 0")
    case True
    moreover have "hands s3 = {#}" using s3(2) by (auto simp: hands_def sum_mset_0_iff)
    ultimately show ?thesis using r3 c3 s1 by (intro exI [of _ s3]) (simp add: same_clients_def unended_def calls_def)
  next
    case False
    then have tick: "scalerAt s3 = KTick" using s2(2) s3(4) stopped_drained(2) [OF inv3] by auto
    have rest3: "\<forall>x\<in>#submitters s3. rests (snd (snd x))" using c3 s1(2) by (simp add: same_clients_def)
    have "scaler_duty (scalerAt s3) = 0" using tick by simp
    note idle = all_parked [OF inv3 s3(2) rest3 this]
    have pend: "0 < pendingTasks (shared s3)" by (rule queued_pending [OF inv3 False])
    obtain s4 W where s4: "(conc_step env)\<^sup>*\<^sup>* s3 s4" "same_clients s3 s4" "workers s4 = workers s3 + W"
      "int (size W) = min (pendingTasks (shared s3)) (capacity (shared s3))" "\<forall>ph\<in>#W. starting ph"
      using scaler_starts_workers [OF inv3 tick idle pend] by blast
    have "0 < capacity (shared s3)" using inv3 by (simp add: conc_inv_def count_ok_def)
    then have "\<exists>ph\<in>#W. starting ph" using s4(4,5) pend by (cases W) auto
    moreover have "\<forall>ph\<in>#workers s4. ph = WEnd \<or> starting ph" using s3(2) s4(3,5) by auto
    ultimately obtain s5 where s5: "(conc_step env)\<^sup>*\<^sup>* s4 s5" "\<forall>ph\<in>#workers s5. ph = WEnd" "same_clients s4 s5"
      "queuedTasks (shared s5) = 0"
      using workers_end [OF conc_run_inv [OF s4(1) inv3], of env] s4(3) by auto
    have "hands s5 = {#}" using s5(2) by (auto simp: hands_def sum_mset_0_iff)
    moreover have "(conc_step env)\<^sup>*\<^sup>* s s5" using r3 s4(1) s5(1) by simp
    ultimately show ?thesis using c3 s4(2) s5(3,4) s1 by (intro exI [of _ s5]) (simp add: same_clients_def unended_def calls_def)
  qed
qed

lemma pool_drains:
  assumes "conc_inv m s"
  shows "\<exists>s'. (conc_step env)\<^sup>*\<^sup>* s s' \<and> drained s' \<and> calls s' = calls s \<and> closers s' = closers s"
  using assms
proof (induction "unended s" arbitrary: s rule: less_induct)
  case less
  obtain s1 where s1: "(conc_step env)\<^sup>*\<^sup>* s s1" "\<forall>x\<in>#submitters s1. rests (snd (snd x))" "unended s1 \<le> unended s"
    "calls s1 = calls s" "closers s1 = closers s" "queuedTasks (shared s1) = 0" "hands s1 = {#}"
    using round_runs [OF less.prems] by blast
  note inv1 = conc_run_inv [OF s1(1) less.prems]
  show ?case
  proof (cases "\<exists>ctx task i. (ctx, task, PSelect i) \<in># submitters s1")
    case True
    then obtain ctx task i where x: "(ctx, task, PSelect i) \<in># submitters s1" by blast
    then obtain S where S: "submitters s1 = add_mset (ctx, task, PSelect i) S" by (auto dest: multi_member_split)
    from submitter_ends [OF inv1 S empty_has_room [OF inv1 s1(6) x]] obtain s2 where
      s2: "(conc_step env)\<^sup>*\<^sup>* s1 s2" "unended s2 < unended s1" "calls s2 = calls s1" "closers s2 = closers s1" by blast
    then have "unended s2 < unended s" using s1(3) by simp
    from less.hyps [OF this conc_run_inv [OF s2(1) inv1]] s1 s2 show ?thesis by (metis rtranclp_trans)
  next
    case False
    have "ended (snd (snd x))" if x: "x \<in># submitters s1" for x
    proof -
      obtain ctx task ph where e: "x = (ctx, task, ph)" by (cases x)
      then show ?thesis using s1(2) x False by (cases ph) auto
    qed
    then have "drained s1" using drainedI [OF inv1 s1(6,7)] by blast
    then show ?thesis using s1 by blast
  qed
qed

section \<open>The pool shuts down\<close>

lemma finished_grows: "(conc_step env)\<^sup>*\<^sup>* s s' \<Longrightarrow> finished s \<subseteq># finished s'"
proof (induction rule: rtranclp_induct)
  case (step y z)
  from step.hyps(2) have "finished y \<subseteq># finished z" by cases auto
  then show ?case using step.IH by (rule subset_mset.order_trans [rotated])
qed simp

lemma drained_stays:
  assumes "conc_inv m s" and "(conc_step env)\<^sup>*\<^sup>* s s'" and "same_clients s s'" and "drained s"
  shows "drained s'"
proof -
  have inv: "conc_inv m s'" by (rule conc_run_inv [OF assms(2,1)])
  from conc_ledgerE obtain xs where xs: "conc_shape m xs (shared s')" "accepted s' = finished s' + held xs (shared s') + hands s'"
    using inv by (auto simp: conc_inv_def conc_ledger_def)
  have "accepted s' \<subseteq># finished s'" using finished_grows [OF assms(2)] assms(3,4) by (simp add: same_clients_def drained_def)
  then have "held xs (shared s') + hands s' = {#}" using xs(2) by (simp add: add.assoc)
  then show ?thesis using assms(3,4) queued_held [OF xs(1)] by (intro drainedI [OF inv]) (auto simp: same_clients_def drained_def)
qed

lemma closed_stays:
  assumes "conc_step env s s'" and "conc_inv m s" and "closed (shared s)"
  shows "closed (shared s')"
proof -
  obtain xs where shape: "conc_shape m xs (shared s)" "\<forall>ph\<in>#workers s. worker_ok m ph" "scaler_ok m (scalerAt s)"
    by (rule conc_invD [OF assms(2)])
  from assms(1) show ?thesis
  proof cases
    case (submitter ctx task ph S pick sel ph' q)
    then show ?thesis using assms(3) submit_step_duty(3) [OF submitter(3)] by simp
  next
    case (worker ph W now priority pick ph' q)
    then have "worker_ok m ph" using shape(2) by simp
    from worker_stepD [OF worker(3) shape(1) this] show ?thesis using worker(1) assms(3) by (simp add: worker_post_def)
  next
    case (scaler n ph' q)
    then have "scalerAt s \<noteq> KStopped" by auto
    from scaler_step_ok [OF shape(1,3) this, of n] scaler show ?thesis using assms(3) by (auto simp: scaler_post_def)
  next
    case (closer ph C ph' q)
    then show ?thesis using close_step_ok [OF shape(1) closer(3)] assms(3) by simp
  next
    case (sampler e q)
    then show ?thesis using sampler_frame [OF sampler(2)] assms(3) by auto
  next
    case (cleaner now q)
    then show ?thesis using cleaner_frame(3) [OF cleaner(2) shape(1)] assms(3) by auto
  qed (use assms(3) in \<open>auto simp: pool_addPending_def pool_Wait_def\<close>)
qed

lemma closed_run: "(conc_step env)\<^sup>*\<^sup>* s s' \<Longrightarrow> conc_inv m s \<Longrightarrow> closed (shared s) \<Longrightarrow> closed (shared s')"
proof (induction rule: rtranclp_induct)
  case (step y z)
  then show ?case using closed_stays [OF step.hyps(2) conc_run_inv [OF step.hyps(1)]] by blast
qed

lemma scaler_can_stop:
  assumes "scalerAt s = KTick \<or> scalerAt s = KStopped" and "closed (shared s)" and "pendingTasks (shared s) = 0"
  shows "\<exists>s'. (conc_step env)\<^sup>*\<^sup>* s s' \<and> scalerAt s' = KStopped \<and> workers s' = workers s \<and> same_clients s s'"
proof (cases "scalerAt s = KStopped")
  case True
  then show ?thesis by (intro exI [of _ s]) (simp add: same_clients_def)
next
  case False
  let ?s = "\<lambda>k. s\<lparr>scalerAt := k\<rparr>"
  have "conc_step env s (?s KClosed)"
    using conc_step.scaler [of 0 s KClosed "shared s" env] False assms(1) by (simp add: Let_def)
  moreover have "conc_step env (?s KClosed) (?s KPending)"
    using conc_step.scaler [of 0 "?s KClosed" KPending "shared s" env] assms(2) by simp
  moreover have "conc_step env (?s KPending) (?s KStopped)"
    using conc_step.scaler [of 0 "?s KPending" KStopped "shared s" env] assms(3) by simp
  ultimately have "(conc_step env)\<^sup>*\<^sup>* s (?s KStopped)" by (meson converse_rtranclp_into_rtranclp rtranclp.rtrancl_refl)
  then show ?thesis by (intro exI [of _ "?s KStopped"]) (simp add: same_clients_def)
qed

lemma pool_shuts_down:
  assumes "conc_inv m s"
  shows "\<exists>s'. (conc_step env)\<^sup>*\<^sup>* s s' \<and> drained s' \<and> (\<forall>ph\<in>#workers s'. ph = WEnd) \<and> (closed (shared s) \<longrightarrow> scalerAt s' = KStopped) \<and>
    calls s' = calls s \<and> closers s' = closers s"
proof -
  obtain s1 where s1: "(conc_step env)\<^sup>*\<^sup>* s s1" "drained s1" "calls s1 = calls s" "closers s1 = closers s"
    using pool_drains [OF assms] by blast
  note inv1 = conc_run_inv [OF s1(1) assms]
  obtain s2 where s2: "(conc_step env)\<^sup>*\<^sup>* s1 s2" "scalerAt s2 = KTick \<or> scalerAt s2 = KStopped" "same_clients s1 s2"
    using scaler_ticks [OF inv1] by blast
  obtain s3 where s3: "(conc_step env)\<^sup>*\<^sup>* s2 s3" "\<forall>ph\<in>#workers s3. ph = WEnd" "same_clients s2 s3" "scalerAt s3 = scalerAt s2"
    using workers_end [OF conc_run_inv [OF s2(1) inv1]] by blast
  have r: "(conc_step env)\<^sup>*\<^sup>* s1 s3" "(conc_step env)\<^sup>*\<^sup>* s s3" using s1(1) s2(1) s3(1) by simp_all
  have c: "same_clients s1 s3" using s2(3) s3(3) by (simp add: same_clients_def)
  have d: "drained s3" by (rule drained_stays [OF inv1 r(1) c s1(2)])
  show ?thesis
  proof (cases "closed (shared s)")
    case True
    have "closed (shared s3)" "pendingTasks (shared s3) = 0" using closed_run [OF r(2) assms True] d by (simp_all add: drained_def)
    with scaler_can_stop [of s3] s2(2) s3(4) obtain s4 where
      s4: "(conc_step env)\<^sup>*\<^sup>* s3 s4" "scalerAt s4 = KStopped" "workers s4 = workers s3" "same_clients s3 s4" by metis
    have "drained s4" by (rule drained_stays [OF conc_run_inv [OF r(2) assms] s4(1,4) d])
    then show ?thesis using r(2) s4 s3(2) c s1 by (intro exI [of _ s4]) (auto simp: same_clients_def calls_def)
  next
    case False
    then show ?thesis using r(2) d s3(2) c s1 by (intro exI [of _ s3]) (simp add: same_clients_def calls_def)
  qed
qed

section \<open>Property\<close>

text \<open>
  The pool is never beyond rescue: from every reachable state some schedule, with no
  further call by a client, brings every submission to its return and every accepted task
  to its end and empties the pending count, so that \<^verbatim>\<open>Wait\<close> returns; every worker goroutine
  ends, and if the pool is closed the scaler ends too. The scaler need only tick with what
  it asks for when tasks are pending and no worker runs: as many workers as tasks.
\<close>

theorem every_state_can_drain:
  assumes "config_valid c" and "taskQueueSize c < 2 ^ 62" and "shards_want procs c \<le> 2 ^ 62"
    and "NewPool procs (Some c) w = Some p" and "conc_reach env p s"
  shows "\<exists>s'. (conc_step env)\<^sup>*\<^sup>* s s' \<and> calls s' = calls s \<and> closers s' = closers s \<and>
    pendingTasks (shared s') = 0 \<and> accepted s' = finished s' \<and>
    (\<forall>x\<in>#submitters s'. \<exists>b. snd (snd x) = PEnd b) \<and> (\<forall>ph\<in>#workers s'. ph = WEnd) \<and>
    (closed (shared s) \<longrightarrow> scalerAt s' = KStopped)"
proof -
  obtain m where "conc_inv m s" by (rule reach_inv [OF assms])
  moreover have "\<exists>b. ph = PEnd b" if "ended ph" for ph using that by (cases ph) auto
  ultimately show ?thesis using pool_shuts_down [of m s env] unfolding drained_def by blast
qed

theorem every_state_can_drain_witness:
  "\<exists>p s s'. NewPool 8 (Some (NewConfig [WithTaskQueueSize 1, WithWorkerNumCapacity 2])) ([], []) = Some p \<and>
     conc_reach example_env p s \<and> accepted s = {#Some (TaskFunc (Some 1))#} \<and> finished s = {#} \<and>
     (conc_step example_env)\<^sup>*\<^sup>* s s' \<and> pendingTasks (shared s') = 0 \<and> (\<forall>ph\<in>#workers s'. ph = WEnd)"
proof -
  obtain m and p :: "(nat, unit, nat, nat, example_world) Pool" where
    p: "NewPool 8 (Some (NewConfig [WithTaskQueueSize 1, WithWorkerNumCapacity 2])) ([], []) = Some p" "pool_inv m [] p"
      "\<not> closed p" "workMode (config p) = BLOCK" by (rule small_pool)
  obtain s where s: "conc_reach example_env p s" "accepted s = {#Some (TaskFunc (Some 1))#}" "finished s = {#}"
    using one_accepted [OF p(2-4), of "TaskFunc (Some 1)" example_env None 0 "Background example_env"] by auto
  show ?thesis using every_state_can_drain [OF small_config p(1) s(1)] p(1) s by blast
qed

end
