(* ===== verification/Concurrent_Rest.thy ===== *)
theory Concurrent_Rest
  imports Concurrent_Progress
begin

text \<open>
  Nothing in the pool spins. Whatever the schedule, between two ticks of the scaler and
  without new calls of the clients, the submitters, workers, closers and the scaler take
  only a bounded number of steps; and where none of them can go on, every worker has ended
  and whatever is left waits for the next tick. A tick from there that starts a worker
  leads, by any schedule, to fewer pending tasks.
\<close>

section \<open>Working steps and background steps\<close>

inductive work_step :: "('f, 'b, 'c, 'v, 'w) task_env \<Rightarrow> ('f, 'b, 'c, 'v, 'w) conc \<Rightarrow> ('f, 'b, 'c, 'v, 'w) conc \<Rightarrow> bool"
  for env where
  work_submitter: "submitters s = add_mset (ctx, task, ph) S \<Longrightarrow> submit_step env pick sel ctx task ph (shared s) = Some (ph', q) \<Longrightarrow>
    work_step env s (s\<lparr>shared := q, submitters := add_mset (ctx, task, ph') S,
      workers := workers s + launched (shared s) q, accepted := accepted s + newly_accepted task ph'\<rparr>)"
| work_worker: "workers s = add_mset ph W \<Longrightarrow> worker_step env now priority pick ph (shared s) = Some (ph', q) \<Longrightarrow>
    work_step env s (s\<lparr>shared := q, workers := add_mset ph' W, finished := finished s + newly_finished ph\<rparr>)"
| work_scaler: "scalerAt s \<noteq> KTick \<Longrightarrow> scaler_step n (scalerAt s) (shared s) = Some (ph', q) \<Longrightarrow>
    work_step env s (s\<lparr>shared := q, scalerAt := ph', workers := workers s + launched (shared s) q\<rparr>)"
| work_closer: "closers s = add_mset ph C \<Longrightarrow> close_step ph (shared s) = Some (ph', q) \<Longrightarrow>
    work_step env s (s\<lparr>shared := q, closers := add_mset ph' C\<rparr>)"

inductive background_step :: "('f, 'b, 'c, 'v, 'w) conc \<Rightarrow> ('f, 'b, 'c, 'v, 'w) conc \<Rightarrow> bool" where
  back_environment: "background_step s (s\<lparr>shared := (shared s)\<lparr>world := w\<rparr>\<rparr>)"
| back_waiter: "background_step s (s\<lparr>shared := snd (pool_Wait (shared s))\<rparr>)"
| back_sampler: "statsSampler (shared s) = Some (e, q) \<Longrightarrow> background_step s (s\<lparr>shared := q\<rparr>)"
| back_cleaner: "expiredWorkerCleaner now (shared s) = Some q \<Longrightarrow> background_step s (s\<lparr>shared := q\<rparr>)"

text \<open>An execution with \<open>k\<close> working steps, no tick and no new call.\<close>

inductive quiet_run :: "('f, 'b, 'c, 'v, 'w) task_env \<Rightarrow> nat \<Rightarrow> ('f, 'b, 'c, 'v, 'w) conc \<Rightarrow> ('f, 'b, 'c, 'v, 'w) conc \<Rightarrow> bool"
  for env where
  quiet_refl: "quiet_run env 0 s s"
| quiet_work: "work_step env s s1 \<Longrightarrow> quiet_run env k s1 s' \<Longrightarrow> quiet_run env (Suc k) s s'"
| quiet_back: "background_step s s1 \<Longrightarrow> quiet_run env k s1 s' \<Longrightarrow> quiet_run env k s s'"

lemma work_conc: "work_step env s s' \<Longrightarrow> conc_step env s s'"
  by (cases rule: work_step.cases) (auto intro: conc_step.intros)

lemma background_conc: "background_step s s' \<Longrightarrow> conc_step env s s'"
  by (cases rule: background_step.cases) (auto intro: conc_step.intros)

section \<open>The measure\<close>

fun close_rank :: "close_phase \<Rightarrow> nat" where
  "close_rank CCas = 4"
| "close_rank CBuffer = 3"
| "close_rank CChan = 2"
| "close_rank CHook = 1"
| "close_rank CEnd = 0"

definition work_measure :: "nat \<Rightarrow> ('f, 'b, 'c, 'v, 'w) conc \<Rightarrow> nat" where
  "work_measure m s =
     (nat (queuedTasks (shared s)) + size (hands s)) * (2 ^ m + 13) + (\<Sum>ph\<in>#workers s. worker_rank (2 ^ m) ph) +
     ((\<Sum>x\<in>#submitters s. submit_rank (snd (snd x))) + scaler_rank (scalerAt s)) * (3 * 2 ^ m + 40) +
     (\<Sum>ph\<in>#closers s. close_rank ph)"

lemma shape_length: "conc_shape m xs p \<Longrightarrow> length (taskQueues p) = 2 ^ m"
  by (simp add: conc_shape_def shards_ok_def)

lemma worker_work:
  assumes inv: "conc_inv m s" and W: "workers s = add_mset ph W"
    and step: "worker_step env now priority pick ph (shared s) = Some (ph', q)"
  shows "work_measure m (s\<lparr>shared := q, workers := add_mset ph' W, finished := finished s + newly_finished ph\<rparr>) < work_measure m s"
proof -
  obtain xs where shape: "conc_shape m xs (shared s)" and "\<forall>ph\<in>#workers s. worker_ok m ph" by (rule conc_invD [OF inv])
  then have ok: "worker_ok m ph" using W by simp
  from worker_measure_step [OF shape ok step]
  have "worker_measure ph' q < worker_measure ph (shared s)" .
  moreover have "length (taskQueues q) = length (taskQueues (shared s))" using worker_step_measure [OF shape ok step] by simp
  moreover note shape_length [OF shape]
  ultimately show ?thesis using W
    by (simp add: work_measure_def worker_measure_def hands_def add_mult_distrib)
qed

lemma starts_rank: "\<forall>ph\<in>#M. starting ph \<Longrightarrow> (\<Sum>ph\<in>#M. worker_rank n ph) = size M * (n + 12)"
proof (induction M)
  case (add ph M)
  then show ?case by (cases ph) simp_all
qed simp

lemma launched_starting: "ph \<in># launched p q \<Longrightarrow> starting ph"
  by (auto simp: launched_def)

lemma launched_rank: "(\<Sum>ph\<in>#launched p q. worker_rank n ph) = size (launched p q) * (n + 12)"
  by (rule starts_rank) (simp add: launched_starting)

lemma submitter_queued:
  assumes inv: "conc_inv m s" and S: "submitters s = add_mset (ctx, task, ph) S"
    and step: "submit_step env pick sel ctx task ph (shared s) = Some (ph', q)"
  shows "nat (queuedTasks q) \<le> Suc (nat (queuedTasks (shared s)))" and "size (launched (shared s) q) \<le> 2"
proof -
  obtain xs where shape: "conc_shape m xs (shared s)" and "\<forall>x\<in>#submitters s. submitter_ok m x" by (rule conc_invD [OF inv])
  then have ok: "submitter_ok m (ctx, task, ph)" using S by simp
  have mv: "submitter_moves env (ctx, task, ph) (shared s) (ctx, task, ph') q" using step by (auto simp: submitter_moves_def)
  from subs.task_law [OF mv ok shape] obtain xs' where xs': "conc_shape m xs' q"
    "held xs' q = held xs (shared s) + newly_accepted task ph'" by auto
  then show "nat (queuedTasks q) \<le> Suc (nat (queuedTasks (shared s)))"
    using queued_held [OF shape] queued_held [OF xs'(1)] by (cases "ph' = PEnqueued") (simp_all add: newly_accepted_def)
  have "submit_duty ph \<le> 1" by (cases ph) simp_all
  then show "size (launched (shared s) q) \<le> 2"
    using submit_step_duty(1,5) [OF step] by linarith
qed

lemma submitter_work:
  assumes inv: "conc_inv m s" and S: "submitters s = add_mset (ctx, task, ph) S"
    and step: "submit_step env pick sel ctx task ph (shared s) = Some (ph', q)"
  shows "work_measure m (s\<lparr>shared := q, submitters := add_mset (ctx, task, ph') S,
      workers := workers s + launched (shared s) q, accepted := accepted s + newly_accepted task ph'\<rparr>) < work_measure m s"
proof -
  let ?n = "2 ^ m :: nat" and ?S = "\<Sum>x\<in>#S. submit_rank (snd (snd x))"
  have q: "nat (queuedTasks q) * (?n + 13) \<le> nat (queuedTasks (shared s)) * (?n + 13) + (?n + 13)"
    using mult_le_mono1 [OF submitter_queued(1) [OF assms], of "?n + 13"] by simp
  have l: "size (launched (shared s) q) * (?n + 12) \<le> 2 * (?n + 12)" using submitter_queued(2) [OF assms] by (rule mult_le_mono1)
  have "Suc (submit_rank ph') * (3 * ?n + 40) \<le> submit_rank ph * (3 * ?n + 40)"
    using submit_step_rank [OF step] by (intro mult_le_mono1) simp
  then have r: "submit_rank ph' * (3 * ?n + 40) + (3 * ?n + 40) \<le> submit_rank ph * (3 * ?n + 40)" by simp
  show ?thesis using q l r S by (simp add: work_measure_def hands_def launched_rank add_mult_distrib)
qed

lemma scaler_queued:
  assumes inv: "conc_inv m s" and step: "scaler_step n (scalerAt s) (shared s) = Some (ph', q)"
  shows "queuedTasks q = queuedTasks (shared s)" and "size (launched (shared s) q) \<le> 1"
proof -
  obtain xs where shape: "conc_shape m xs (shared s)" "scaler_ok m (scalerAt s)" by (rule conc_invD [OF inv])
  have live: "scalerAt s \<noteq> KStopped" using step by auto
  from scaler_step_ok [OF shape live, of n] step have post: "scaler_post m xs (scalerAt s) (shared s) ph' q"
    "runningWorkersNum q + int (scaler_duty (scalerAt s)) =
       runningWorkersNum (shared s) + int (scaler_duty ph') + int (size (launched (shared s) q))" by auto
  then show "queuedTasks q = queuedTasks (shared s)"
    using queued_held [OF shape(1)] queued_held [of m xs q] by (simp add: scaler_post_def)
  show "size (launched (shared s) q) \<le> 1"
  proof (cases "scalerAt s")
    case (KAdd cur a)
    then show ?thesis using step by (auto simp: launched_def addRunningWorkersNum_def)
  next
    case (KLaunch k)
    then show ?thesis using step post by (cases k) (auto simp: scaler_post_def simp del: spawn_loop.simps)
  qed (use post in \<open>simp_all add: scaler_post_def\<close>)
qed

lemma scaler_work:
  assumes inv: "conc_inv m s" and step: "scaler_step n (scalerAt s) (shared s) = Some (ph', q)" and tick: "scalerAt s \<noteq> KTick"
  shows "work_measure m (s\<lparr>shared := q, scalerAt := ph', workers := workers s + launched (shared s) q\<rparr>) < work_measure m s"
proof -
  let ?n = "2 ^ m :: nat"
  have l: "size (launched (shared s) q) = 0 \<or> size (launched (shared s) q) = 1" using scaler_queued(2) [OF inv step] by linarith
  have "Suc (scaler_rank ph') * (3 * ?n + 40) \<le> scaler_rank (scalerAt s) * (3 * ?n + 40)"
    using scaler_step_rank [OF step tick] by (intro mult_le_mono1) simp
  then have r: "scaler_rank ph' * (3 * ?n + 40) + (3 * ?n + 40) \<le> scaler_rank (scalerAt s) * (3 * ?n + 40)" by simp
  show ?thesis using l r scaler_queued(1) [OF inv step] scaler_step_rank [OF step tick]
    by (elim disjE) (simp_all add: work_measure_def hands_def launched_rank add_mult_distrib del: size_eq_0_iff_empty)
qed

lemma closer_work:
  assumes inv: "conc_inv m s" and C: "closers s = add_mset ph C" and step: "close_step ph (shared s) = Some (ph', q)"
  shows "work_measure m (s\<lparr>shared := q, closers := add_mset ph' C\<rparr>) < work_measure m s"
proof -
  obtain xs where shape: "conc_shape m xs (shared s)" by (rule conc_invD [OF inv])
  have "close_rank ph' < close_rank ph" using step by (cases ph) (auto split: if_splits)
  moreover have "queuedTasks q = queuedTasks (shared s)"
    using close_step_ok [OF shape step] queued_held [OF shape] queued_held [of m xs q] by simp
  ultimately show ?thesis using C by (simp add: work_measure_def hands_def)
qed

lemma work_decreases: "work_step env s s' \<Longrightarrow> conc_inv m s \<Longrightarrow> work_measure m s' < work_measure m s"
  by (cases rule: work_step.cases) (auto simp: worker_work submitter_work scaler_work closer_work)

lemma background_frame:
  assumes "background_step s s'" and "conc_inv m s"
  obtains q where "s' = s\<lparr>shared := q\<rparr>" and "taskQueues q = taskQueues (shared s)" and "taskBuf q = taskBuf (shared s)"
    and "pendingTasks q = pendingTasks (shared s)"
proof -
  obtain xs where shape: "conc_shape m xs (shared s)" by (rule conc_invD [OF assms(2)])
  from assms(1) show thesis
  proof cases
    case (back_environment w)
    then show ?thesis by (intro that [of "(shared s)\<lparr>world := w\<rparr>"]) simp_all
  next
    case back_waiter
    then show ?thesis by (intro that [of "snd (pool_Wait (shared s))"]) (auto simp: pool_Wait_def)
  next
    case (back_sampler e q)
    then show ?thesis using sampler_frame [OF back_sampler(2)] by (intro that [of q]) auto
  next
    case (back_cleaner now q)
    then show ?thesis using cleaner_frame(3) [OF back_cleaner(2) shape] by (intro that [of q]) auto
  qed
qed

lemma background_same:
  assumes "background_step s s'" and "conc_inv m s"
  shows "work_measure m s' = work_measure m s"
  by (rule background_frame [OF assms]) (simp add: work_measure_def hands_def queuedTasks_def GetTaskQueueLen_def)

lemma quiet_bound: "quiet_run env k s s' \<Longrightarrow> conc_inv m s \<Longrightarrow> k + work_measure m s' \<le> work_measure m s"
proof (induction rule: quiet_run.induct)
  case (quiet_work s s1 k s')
  then show ?case using conc_inv_step [OF work_conc [OF quiet_work.hyps(1)]] work_decreases [OF quiet_work.hyps(1)] by fastforce
next
  case (quiet_back s s1 k s')
  then show ?case using conc_inv_step [OF background_conc [OF quiet_back.hyps(1)]] background_same [OF quiet_back.hyps(1)] by fastforce
qed simp

lemma quiet_conc: "quiet_run env k s s' \<Longrightarrow> (conc_step env)\<^sup>*\<^sup>* s s'"
  by (induction rule: quiet_run.induct) (auto intro: converse_rtranclp_into_rtranclp work_conc background_conc)

section \<open>Where nothing can go on\<close>

definition resting :: "('f, 'b, 'c, 'v, 'w) task_env \<Rightarrow> ('f, 'b, 'c, 'v, 'w) conc \<Rightarrow> bool" where
  "resting env s \<longleftrightarrow> (\<forall>s'. \<not> work_step env s s')"

lemma resting_ended:
  assumes inv: "conc_inv m s" and rest: "resting env s"
  shows "\<forall>ph\<in>#workers s. ph = WEnd" and "\<forall>ph\<in>#closers s. ph = CEnd" and "scalerAt s = KTick \<or> scalerAt s = KStopped"
    and "\<forall>(ctx, task, ph)\<in>#submitters s. (\<exists>b. ph = PEnd b) \<or>
       (\<exists>i. ph = PSelect i \<and> \<not> chan_room (taskQueues (shared s) ! i) \<and> \<not> ctxErr env ctx (world (shared s)) \<and> \<not> closePoolCn (shared s))"
proof -
  obtain xs where shape: "conc_shape m xs (shared s)" "\<forall>x\<in>#submitters s. submitter_ok m x" "\<forall>ph\<in>#workers s. worker_ok m ph"
    "scaler_ok m (scalerAt s)" by (rule conc_invD [OF inv])
  note stuck = rest [unfolded resting_def, rule_format]
  show "\<forall>ph\<in>#workers s. ph = WEnd"
  proof
    fix ph assume ph: "ph \<in># workers s"
    then obtain W where W: "workers s = add_mset ph W" by (auto dest: multi_member_split)
    show "ph = WEnd"
    proof (rule ccontr)
      assume "ph \<noteq> WEnd"
      then obtain ph' q where "worker_step env (\<lambda>_. 0) 0 None ph (shared s) = Some (ph', q)"
        using worker_step_ok [OF shape(1)] shape(3) ph by blast
      from work_worker [OF W this] stuck show False by blast
    qed
  qed
  show "\<forall>ph\<in>#closers s. ph = CEnd"
  proof
    fix ph assume "ph \<in># closers s"
    then obtain C where C: "closers s = add_mset ph C" by (auto dest: multi_member_split)
    show "ph = CEnd"
    proof (rule ccontr)
      assume "ph \<noteq> CEnd"
      then obtain ph' q where "close_step ph (shared s) = Some (ph', q)" by (cases ph; cases "closed (shared s)") auto
      from work_closer [OF C this] stuck show False by blast
    qed
  qed
  show "scalerAt s = KTick \<or> scalerAt s = KStopped"
  proof (rule ccontr)
    assume "\<not> (scalerAt s = KTick \<or> scalerAt s = KStopped)"
    then obtain ph' q where "scalerAt s \<noteq> KTick" "scaler_step 0 (scalerAt s) (shared s) = Some (ph', q)"
      using scaler_step_ok [OF shape(1,4), of 0] by blast
    from work_scaler [OF this] stuck show False by blast
  qed
  show "\<forall>(ctx, task, ph)\<in>#submitters s. (\<exists>b. ph = PEnd b) \<or>
       (\<exists>i. ph = PSelect i \<and> \<not> chan_room (taskQueues (shared s) ! i) \<and> \<not> ctxErr env ctx (world (shared s)) \<and> \<not> closePoolCn (shared s))"
  proof clarify
    fix ctx task ph assume x: "(ctx, task, ph) \<in># submitters s" and blocked: "\<not> (\<exists>i. ph = PSelect i \<and> \<not> chan_room (taskQueues (shared s) ! i) \<and>
        \<not> ctxErr env ctx (world (shared s)) \<and> \<not> closePoolCn (shared s))"
    then obtain S where S: "submitters s = add_mset (ctx, task, ph) S" by (auto dest: multi_member_split)
    have ok: "submitter_ok m (ctx, task, ph)" using shape(2) x by blast
    show "\<exists>b. ph = PEnd b"
    proof (cases rule: submitter_progress [OF shape(1) ok, where env = env and pick = None and sel = 0, case_names ended blocked moves])
      case (moves y)
      then obtain ph' q where "submit_step env None 0 ctx task ph (shared s) = Some (ph', q)" by (cases y) auto
      from work_submitter [OF S this] stuck show ?thesis by blast
    qed (use blocked in blast)+
  qed
qed

lemma resting_stranded:
  assumes inv: "conc_inv m s" and rest: "resting env s"
  shows "runningWorkersNum (shared s) = 0" and "hands s = {#}"
    and "queuedTasks (shared s) = 0 \<Longrightarrow> drained s" and "queuedTasks (shared s) \<noteq> 0 \<Longrightarrow> scalerAt s = KTick"
proof -
  note r = resting_ended [OF inv rest]
  have rests: "\<forall>x\<in>#submitters s. rests (snd (snd x))" using r(4) by fastforce
  show h: "hands s = {#}" using r(1) by (auto simp: hands_def sum_mset_0_iff)
  show "scalerAt s = KTick" if "queuedTasks (shared s) \<noteq> 0" using r(3) stopped_drained(2) [OF inv] that by blast
  show "runningWorkersNum (shared s) = 0" by (rule all_parked [OF inv r(1) rests]) (use r(3) in auto)
  show "drained s" if q: "queuedTasks (shared s) = 0"
  proof (rule drainedI [OF inv q h])
    have "ended ph" if "(ctx, task, ph) \<in># submitters s" for ctx task ph
      using r(4) that empty_has_room [OF inv q, of ctx task] by (cases ph) fastforce+
    then show "\<forall>x\<in>#submitters s. ended (snd (snd x))" by auto
  qed
qed

lemma works_to_rest: "conc_inv m s \<Longrightarrow> \<exists>s'. (work_step env)\<^sup>*\<^sup>* s s' \<and> resting env s'"
proof (induction "work_measure m s" arbitrary: s rule: less_induct)
  case less
  show ?case
  proof (cases "resting env s")
    case False
    then obtain s1 where s1: "work_step env s s1" by (auto simp: resting_def)
    obtain s' where "(work_step env)\<^sup>*\<^sup>* s1 s'" "resting env s'"
      using less.hyps [OF work_decreases [OF s1 less.prems] conc_inv_step [OF work_conc [OF s1] less.prems]] by blast
    then show ?thesis using s1 by (meson converse_rtranclp_into_rtranclp)
  qed blast
qed

lemma works_quiet: "(work_step env)\<^sup>*\<^sup>* s s' \<Longrightarrow> \<exists>k. quiet_run env k s s'"
  by (induction rule: converse_rtranclp_induct) (blast intro: quiet_refl quiet_work)+

lemma reaches_rest: "conc_inv m s \<Longrightarrow> \<exists>k s'. quiet_run env k s s' \<and> resting env s'"
  using works_to_rest works_quiet by blast

section \<open>A tick makes progress\<close>

text \<open>
  From a state of rest a tick starts a worker. Until somebody takes a task, some worker is on
  its way to a place that holds one: a shard, or the overflow buffer (\<open>None\<close>).
\<close>

definition stocked :: "nat option \<Rightarrow> ('f, 'b, 'c, 'v, 'w) Pool \<Rightarrow> bool" where
  "stocked L p \<longleftrightarrow> (case L of Some i \<Rightarrow> i < length (taskQueues p) \<and> chanItems (taskQueues p ! i) \<noteq> [] | None \<Rightarrow> chunkLen (taskBuf p) \<noteq> 0)"

fun ahead :: "nat \<Rightarrow> nat option \<Rightarrow> ('f, 'b, 'c) worker_phase \<Rightarrow> bool" where
  "ahead m L (WStart w) \<longleftrightarrow> True"
| "ahead m L (WScan w i) \<longleftrightarrow> (\<forall>i0. L = Some i0 \<longrightarrow> (\<forall>j<i. scan_pos m (cursor w) j \<noteq> i0))"
| "ahead m L (WPop w) \<longleftrightarrow> L = None"
| "ahead m L _ \<longleftrightarrow> False"

text \<open>A submitter that waits in its last \<^verbatim>\<open>select\<close> or has left it.\<close>

fun selected :: "submit_phase \<Rightarrow> bool" where
  "selected (PSelect i) \<longleftrightarrow> True"
| "selected PEnqueued \<longleftrightarrow> True"
| "selected PReject \<longleftrightarrow> True"
| "selected (PEnd b) \<longleftrightarrow> True"
| "selected _ \<longleftrightarrow> False"

definition approaching :: "nat \<Rightarrow> nat option \<Rightarrow> ('f, 'b, 'c, 'v, 'w) conc \<Rightarrow> bool" where
  "approaching m L s \<longleftrightarrow> stocked L (shared s) \<and> (\<forall>x\<in>#submitters s. selected (snd (snd x))) \<and>
     (0 < scaler_duty (scalerAt s) \<or> (\<exists>cur a. scalerAt s = KAdd cur a) \<or> (\<exists>ph\<in>#workers s. ahead m L ph))"

lemma stocked_cong: "taskQueues q = taskQueues p \<Longrightarrow> chunkLen (taskBuf q) = chunkLen (taskBuf p) \<Longrightarrow> stocked L q = stocked L p"
  by (cases L) (simp_all add: stocked_def)

lemma scan_approaches:
  assumes shape: "conc_shape m xs p" and step: "worker_step env now priority pick (WScan w i) p = Some (ph', q)" and L: "stocked L p"
  shows "in_hand ph' \<noteq> {#} \<or> stocked L q \<and> (ahead m L (WScan w i) \<longrightarrow> ahead m L ph')"
proof (cases "i < length (taskQueues p)")
  case False
  then have s: "ph' = WPop w" "q = p" using step by simp_all
  have "\<not> ahead m L (WScan w i)" if "L = Some i0" for i0
  proof -
    have "i0 < 2 ^ m" "2 ^ m \<le> i" using L that False shape_length [OF shape] by (simp_all add: stocked_def)
    moreover obtain j where "j < 2 ^ m" "scan_pos m (cursor w) j = i0" using scan_pos_onto [OF calculation(1), of "cursor w"] by blast
    ultimately have "j < i \<and> scan_pos m (cursor w) j = i0" by linarith
    then show ?thesis using that by auto
  qed
  then show ?thesis using s L by (cases L) auto
next
  case True
  have so: "shards_ok m (shardMask p) (taskQueues p)" using shape by (simp add: conc_shape_def)
  then have idx: "unat ((cursor w + of_nat i) AND shardMask p) = scan_pos m (cursor w) i"
    by (simp add: shards_ok_def unat_and_mask unat_plus_mod scan_pos_def)
  have lt: "scan_pos m (cursor w) i < length (taskQueues p)" using so by (simp add: shards_ok_def scan_pos_def)
  show ?thesis
  proof (cases "chanItems (taskQueues p ! scan_pos m (cursor w) i)")
    case Nil
    then have "ph' = WScan w (Suc i)" "q = p" using step True idx lt by (auto simp: chan_recv_def Let_def)
    then show ?thesis using Nil L by (auto simp: less_Suc_eq stocked_def)
  next
    case (Cons x ts)
    have "x \<in># held xs p" using shards_recv(2) [OF so lt Cons] by (simp add: held_def)
    then obtain t where "x = Some t" using shape by (cases x) (auto simp: conc_shape_def)
    then show ?thesis using step True idx lt Cons by (auto simp: chan_recv_def Let_def)
  qed
qed

lemma worker_approaches:
  assumes shape: "conc_shape m xs p" and step: "worker_step env now priority pick ph p = Some (ph', q)" and L: "stocked L p"
    and hand: "in_hand ph = {#}"
  shows "in_hand ph' \<noteq> {#} \<or> stocked L q \<and> (ahead m L ph \<longrightarrow> ahead m L ph')"
proof (cases ph)
  case (WScan w i)
  then show ?thesis using scan_approaches [OF shape _ L] step by blast
next
  case (WPop w)
  obtain b where b: "worker_step env now priority pick (WPop w) p =
      Some (if xs = [] then WPark w else WHand w (take batchSize xs), p\<lparr>taskBuf := b\<rparr>)" by (rule pop_step [OF shape])
  have "chunkLen (taskBuf p) = int (length xs)" using shape buf_rep_len by (auto simp: conc_shape_def)
  then show ?thesis using step WPop b L by (cases L) (auto simp: batchSize_def stocked_def split: if_splits simp del: worker_step.simps)
next
  case (WHand w ts)
  then show ?thesis using step hand L by simp
next
  case (WIdle w)
  then show ?thesis using step L by (auto simp: addToIdle_def stocked_def cong: option.case_cong)
qed (use step hand L in \<open>auto simp: addRunningWorkersNum_def stocked_def cong: option.case_cong\<close>)

lemma submitter_approaches:
  assumes "submit_step env pick sel ctx task ph p = Some (ph', q)" and "selected ph" and "stocked L p"
  shows "selected ph' \<and> stocked L q"
proof (cases ph)
  case (PSelect i)
  from assms(1) [unfolded PSelect] show ?thesis
  proof (cases rule: select_step)
    case sent
    have "stocked L q" if "L = Some j" for j
      using assms(3) sent(3) that by (cases "i = j") (simp_all add: stocked_def chan_send_def)
    then show ?thesis using assms(3) sent(2,3) by (cases L) (simp_all add: stocked_def)
  qed (use assms(3) in simp)
next
  case PReject
  then show ?thesis using assms stocked_cong [of "pool_done p" p L] by auto
next
  case PEnqueued
  then show ?thesis using assms stocked_cong [of "dispatchTaskEnqueuedFor env task p" p L] by (auto simp: dispatchTaskEnqueuedFor_def)
qed (use assms in auto)

text \<open>The tasks that somebody has taken, whether or not they have finished.\<close>

definition taken :: "('f, 'b, 'c, 'v, 'w) conc \<Rightarrow> nat" where
  "taken s = size (hands s) + size (finished s)"

lemma hands_worker: "workers s = add_mset ph W \<Longrightarrow> hands s = in_hand ph + (\<Sum>ph\<in>#W. in_hand ph)"
  by (simp add: hands_def)

lemma taken_worker:
  assumes "worker_step env now priority pick ph p = Some (ph', q)"
  shows "size (in_hand ph) \<le> size (in_hand ph') + size (newly_finished ph)"
proof (cases ph)
  case (WHand w ts)
  then show ?thesis using assms by (cases ts) (auto split: if_splits)
qed (use assms in auto)

lemma taken_grows: "work_step env s s' \<Longrightarrow> taken s \<le> taken s'"
  by (cases rule: work_step.cases) (auto simp: taken_def hands_def dest!: taken_worker)

lemma scaler_approaches:
  assumes shape: "conc_shape m xs p" "scaler_ok m ph" and step: "scaler_step n ph p = Some (ph', q)" and "ph \<noteq> KTick" and L: "stocked L p"
  shows "stocked L q \<and> (0 < scaler_duty ph \<or> (\<exists>cur a. ph = KAdd cur a) \<longrightarrow> 0 < scaler_duty ph' \<or> (\<exists>x\<in>#launched p q. ahead m L x))"
proof (cases ph)
  case (KLaunch k)
  show ?thesis
  proof (cases k)
    case (Suc j)
    obtain q' where q': "spawn_loop 1 p = Some q'" "spawned 1 p q'"
      using spawn_loop_ok [of p 1] shape(1) by (auto simp: conc_shape_def)
    then have q: "spawned 1 p q" using step KLaunch Suc by auto
    from q show ?thesis
    proof (rule spawned_eq)
      fix c ws k
      assume ws: "length ws = 1" and q: "q = p\<lparr>idleWorks := c, workerSeq := workerSeq p + of_nat 1, started := started p @ ws,
        workerCreateCount := workerCreateCount p + k\<rparr>"
      obtain w where "ws = [w]" using ws by (cases ws) auto
      then show ?thesis using L stocked_cong [of q p L] by (simp add: launched_def q)
    qed
  qed (use step KLaunch L in simp)
next
  case (KAdd cur a)
  then show ?thesis using step shape(2) L stocked_cong [of q p L] by (auto simp: addRunningWorkersNum_def)
qed (use assms in \<open>auto split: if_splits\<close>)

lemma approach_step:
  assumes step: "work_step env s s'" and inv: "conc_inv m s" and app: "approaching m L s" and hands: "hands s = {#}"
  shows "hands s' \<noteq> {#} \<or> approaching m L s'"
proof -
  obtain xs where shape: "conc_shape m xs (shared s)" "scaler_ok m (scalerAt s)" by (rule conc_invD [OF inv])
  have L: "stocked L (shared s)" and sel: "\<forall>x\<in>#submitters s. selected (snd (snd x))"
    and who: "0 < scaler_duty (scalerAt s) \<or> (\<exists>cur a. scalerAt s = KAdd cur a) \<or> (\<exists>ph\<in>#workers s. ahead m L ph)"
    using app by (auto simp: approaching_def)
  from step show ?thesis
  proof cases
    case (work_submitter ctx task ph S pick sel' ph' q)
    then show ?thesis using submitter_approaches [OF work_submitter(3) _ L] sel who by (auto simp: approaching_def)
  next
    case (work_worker ph W now priority pick ph' q)
    have "in_hand ph = {#}" using hands hands_worker [OF work_worker(2)] by simp
    from worker_approaches [OF shape(1) work_worker(3) L this] show ?thesis
      using work_worker(1,2) sel who by (auto simp: approaching_def hands_def)
  next
    case (work_scaler n ph' q)
    then show ?thesis using scaler_approaches [OF shape work_scaler(3,2) L] sel who by (auto simp: approaching_def)
  next
    case (work_closer ph C ph' q)
    then have "taskQueues q = taskQueues (shared s) \<and> chunkLen (taskBuf q) = chunkLen (taskBuf (shared s))"
      by (cases ph) (auto simp: buffer_Close_def split: if_splits)
    then have "stocked L q" using stocked_cong L by metis
    then show ?thesis using work_closer(1) sel who by (simp add: approaching_def)
  qed
qed

lemma quiet_approach:
  assumes "quiet_run env k s s'" and "conc_inv m s" and "F \<le> size (finished s)"
    and "F < taken s \<or> approaching m L s"
  shows "F < taken s' \<or> approaching m L s'"
  using assms
proof (induction rule: quiet_run.induct)
  case (quiet_work s s1 k s')
  have inv: "conc_inv m s1" by (rule conc_inv_step [OF work_conc [OF quiet_work.hyps(1)] quiet_work.prems(1)])
  have fin: "F \<le> size (finished s1)"
    using finished_grows [OF r_into_rtranclp, of env s s1] work_conc [OF quiet_work.hyps(1)] quiet_work.prems(2) size_mset_mono by fastforce
  have "F < taken s1 \<or> approaching m L s1"
  proof (cases "F < taken s")
    case False
    then have "size (hands s) = 0" "approaching m L s" using quiet_work.prems(2,3) unfolding taken_def by linarith+
    then have "hands s = {#}" "approaching m L s" by simp_all
    then have "hands s1 \<noteq> {#} \<or> approaching m L s1" using approach_step [OF quiet_work.hyps(1) quiet_work.prems(1)] by blast
    then show ?thesis using fin by (auto simp: taken_def nonempty_has_size)
  qed (use taken_grows [OF quiet_work.hyps(1)] in simp)
  then show ?case by (rule quiet_work.IH [OF inv fin])
next
  case (quiet_back s s1 k s')
  have inv: "conc_inv m s1" by (rule conc_inv_step [OF background_conc [OF quiet_back.hyps(1)] quiet_back.prems(1)])
  obtain q where "s1 = s\<lparr>shared := q\<rparr>" "taskQueues q = taskQueues (shared s)" "taskBuf q = taskBuf (shared s)"
    by (rule background_frame [OF quiet_back.hyps(1) quiet_back.prems(1)])
  then have "F \<le> size (finished s1)" "F < taken s1 \<or> approaching m L s1"
    using quiet_back.prems(2,3) stocked_cong [of q "shared s" L] by (auto simp: taken_def hands_def approaching_def)
  then show ?case by (rule quiet_back.IH [OF inv])
qed

text \<open>Without new calls the pending tasks and the finished ones do not become more.\<close>

lemma submit_pending:
  assumes "submit_step env pick sel ctx task ph p = Some (ph', q)"
  shows "pendingTasks q = pendingTasks p \<or> pendingTasks q = pendingTasks p - 1"
proof (cases ph)
  case (PSelect i)
  from assms [unfolded PSelect] show ?thesis by (cases rule: select_step) simp_all
qed (use assms in \<open>auto simp: workerPool_Get_def startWorker_def dispatchTaskEnqueuedFor_def pool_done_def Let_def split: if_splits prod.splits option.splits\<close>)

lemma pending_balance:
  assumes "work_step env s s'" and "conc_inv m s"
  shows "pendingTasks (shared s') + int (size (finished s')) \<le> pendingTasks (shared s) + int (size (finished s))"
proof -
  obtain xs where shape: "conc_shape m xs (shared s)" "\<forall>ph\<in>#workers s. worker_ok m ph" "scaler_ok m (scalerAt s)"
    by (rule conc_invD [OF assms(2)])
  from assms(1) show ?thesis
  proof cases
    case (work_submitter ctx task ph S pick sel ph' q)
    then show ?thesis using submit_pending [OF work_submitter(3)] by auto
  next
    case (work_worker ph W now priority pick ph' q)
    then have "worker_ok m ph" using shape(2) by simp
    from worker_stepD [OF work_worker(3) shape(1) this] show ?thesis using work_worker(1) by (simp add: worker_post_def)
  next
    case (work_scaler n ph' q)
    then have "scalerAt s \<noteq> KStopped" by auto
    from scaler_step_ok [OF shape(1,3) this, of n] work_scaler show ?thesis by (auto simp: scaler_post_def)
  next
    case (work_closer ph C ph' q)
    then show ?thesis using close_step_ok [OF shape(1) work_closer(3)] by simp
  qed
qed

lemma quiet_balance:
  assumes "quiet_run env k s s'" and "conc_inv m s"
  shows "pendingTasks (shared s') + int (size (finished s')) \<le> pendingTasks (shared s) + int (size (finished s))"
  using assms
proof (induction rule: quiet_run.induct)
  case (quiet_work s s1 k s')
  then show ?case using conc_inv_step [OF work_conc [OF quiet_work.hyps(1)]] pending_balance [OF quiet_work.hyps(1)] by fastforce
next
  case (quiet_back s s1 k s')
  obtain q where "s1 = s\<lparr>shared := q\<rparr>" "pendingTasks q = pendingTasks (shared s)"
    by (rule background_frame [OF quiet_back.hyps(1) quiet_back.prems])
  then show ?case using quiet_back.IH conc_inv_step [OF background_conc [OF quiet_back.hyps(1)] quiet_back.prems] by simp
qed simp

section \<open>Rounds\<close>

text \<open>From rest, a tick that asks for at least one worker, and whatever happens until the pool rests again.\<close>

inductive tick_round :: "('f, 'b, 'c, 'v, 'w) task_env \<Rightarrow> ('f, 'b, 'c, 'v, 'w) conc \<Rightarrow> ('f, 'b, 'c, 'v, 'w) conc \<Rightarrow> bool"
  for env where
  tick: "resting env s \<Longrightarrow> scalerAt s = KTick \<Longrightarrow> 0 < n \<Longrightarrow> scaler_step n KTick (shared s) = Some (ph, q) \<Longrightarrow>
    quiet_run env k (s\<lparr>shared := q, scalerAt := ph\<rparr>) s' \<Longrightarrow> resting env s' \<Longrightarrow> tick_round env s s'"

lemma stocked_somewhere:
  assumes "conc_shape m xs p" and "queuedTasks p \<noteq> 0"
  shows "\<exists>L. stocked L p"
proof (cases "shards_mset (taskQueues p) = {#}")
  case True
  then have "xs \<noteq> []" using queued_held [OF assms(1)] assms(2) by (auto simp: held_def)
  moreover have "chunkLen (taskBuf p) = int (length xs)" using assms(1) buf_rep_len by (auto simp: conc_shape_def)
  ultimately have "chunkLen (taskBuf p) \<noteq> 0" by simp
  then show ?thesis by (intro exI [of _ None]) (simp add: stocked_def)
next
  case False
  then obtain i where "i < length (taskQueues p)" "chanItems (taskQueues p ! i) \<noteq> []"
    by (auto simp: shards_mset_empty_iff in_set_conv_nth)
  then show ?thesis by (intro exI [of _ "Some i"]) (simp add: stocked_def)
qed

lemma tick_step:
  assumes "scalerAt s = KTick" and "scaler_step n KTick (shared s) = Some (ph, q)"
  shows "conc_step env s (s\<lparr>shared := q, scalerAt := ph\<rparr>)"
proof -
  have "launched (shared s) q = {#}" using assms(2) by (auto simp: launched_def Let_def)
  then show ?thesis using conc_step.scaler [of n s ph q env] assms by simp
qed

lemma tick_conc:
  assumes "tick_round env s s'"
  shows "(conc_step env)\<^sup>*\<^sup>* s s'"
  using assms
proof cases
  case (tick n ph q k)
  show ?thesis by (rule converse_rtranclp_into_rtranclp [OF tick_step [OF tick(2,4)] quiet_conc [OF tick(5)]])
qed

lemma tick_progress:
  assumes inv: "conc_inv m s" and round: "tick_round env s s'"
  shows "pendingTasks (shared s') \<le> pendingTasks (shared s)"
    and "queuedTasks (shared s) \<noteq> 0 \<Longrightarrow> pendingTasks (shared s') < pendingTasks (shared s)"
proof -
  from round have "pendingTasks (shared s') \<le> pendingTasks (shared s) \<and>
      (queuedTasks (shared s) \<noteq> 0 \<longrightarrow> pendingTasks (shared s') < pendingTasks (shared s))"
  proof cases
    case (tick n ph q k)
    let ?s = "s\<lparr>shared := q, scalerAt := ph\<rparr>"
    have q: "q = shared s" using tick(4) by (auto simp: Let_def)
    have idle: "runningWorkersNum (shared s) = 0" by (rule resting_stranded(1) [OF inv tick(1)])
    have cap: "0 < capacity (shared s)" "capacity (shared s) \<le> MaxInt64" using inv by (simp_all add: conc_inv_def count_ok_def)
    then have "actualSpawn (capacity (shared s)) 0 n = min n (capacity (shared s))"
      using actualSpawn_min [of 0 "capacity (shared s)" n] tick(3) by simp
    then have ph: "\<exists>cur a. ph = KAdd cur a" using tick(3,4) idle cap by (auto simp: Let_def split: if_splits)
    have inv1: "conc_inv m ?s" by (rule conc_inv_step [OF tick_step [OF tick(2,4)] inv])
    have inv': "conc_inv m s'" by (rule conc_run_inv [OF quiet_conc [OF tick(5)] inv1])
    have bal: "pendingTasks (shared s') + int (size (finished s')) \<le> pendingTasks (shared s) + int (size (finished s))"
      using quiet_balance [OF tick(5) inv1] q by simp
    have fin: "size (finished s) \<le> size (finished s')" using finished_grows [OF quiet_conc [OF tick(5)]] size_mset_mono by fastforce
    have "size (finished s) < size (finished s')" if queued: "queuedTasks (shared s) \<noteq> 0"
    proof -
      obtain xs where "conc_shape m xs (shared s)" by (rule conc_invD [OF inv])
      from stocked_somewhere [OF this queued] obtain L where "stocked L (shared s)" by blast
      moreover have "\<forall>x\<in>#submitters s. selected (snd (snd x))" using resting_ended(4) [OF inv tick(1)] by fastforce
      ultimately have "approaching m L ?s" using ph q by (simp add: approaching_def)
      from quiet_approach [OF tick(5) inv1, of "size (finished s)"] this
      have "size (finished s) < taken s' \<or> approaching m L s'" by simp
      moreover have "\<not> approaching m L s'"
        using resting_ended(1,3) [OF inv' tick(6)] by (auto simp: approaching_def)
      moreover have "hands s' = {#}" by (rule resting_stranded(2) [OF inv' tick(6)])
      ultimately show ?thesis by (simp add: taken_def)
    qed
    then show ?thesis using bal fin by auto
  qed
  then show "pendingTasks (shared s') \<le> pendingTasks (shared s)"
    and "queuedTasks (shared s) \<noteq> 0 \<Longrightarrow> pendingTasks (shared s') < pendingTasks (shared s)" by blast+
qed

lemma queued_at_most_pending:
  assumes "conc_inv m s"
  shows "0 \<le> queuedTasks (shared s)" and "queuedTasks (shared s) \<le> pendingTasks (shared s)"
proof -
  have "conc_ledger m s" using assms by (simp add: conc_inv_def)
  from conc_ledgerE [OF this] obtain xs where "conc_shape m xs (shared s)"
    "pendingTasks (shared s) = int (size (held xs (shared s))) + int (in_flight s) + int (size (hands s))" by metis
  then show "0 \<le> queuedTasks (shared s)" "queuedTasks (shared s) \<le> pendingTasks (shared s)"
    using queued_held by fastforce+
qed

section \<open>Stranded tasks\<close>

text \<open>
  Tasks do get stranded: the worker of a cold start finds nothing and parks before its
  submitter has sent the task.
\<close>

lemma late_send:
  assumes shape: "conc_shape m xs p" and "queuedTasks p = 0"
  shows "\<exists>q. (submitter_solo env pick sel ctx task)\<^sup>*\<^sup>* (PHook, p) (PEnd True, q) \<and> started q = started p"
proof -
  let ?p1 = "dispatchHook (\<lambda>h. iTaskSubmitted h (hook_ctx env task)) p"
  obtain i seq where i: "nextShard (shardMask p) (sendSeq p) = (i, seq)" by force
  let ?p2 = "?p1\<lparr>sendSeq := seq\<rparr>"
  have so: "shards_ok m (shardMask p) (taskQueues p)" using shape by (simp add: conc_shape_def)
  have "i < length (taskQueues p)" using i so by (auto simp: nextShard_def Let_def shards_ok_def unat_and_mask)
  moreover have "held xs p = {#}" using queued_held [OF shape] assms(2) by simp
  ultimately have "chan_room (taskQueues p ! i)"
    using so by (intro chan_empty_room) (auto simp: held_def shards_mset_empty_iff shards_ok_def)
  then have send: "submit_step env pick sel ctx task (PTry i) ?p2 =
      Some (PEnqueued, ?p2\<lparr>taskQueues := (taskQueues p)[i := chan_send (Some task) (taskQueues p ! i)]\<rparr>)" by simp
  let ?q = "dispatchTaskEnqueuedFor env task (?p2\<lparr>taskQueues := (taskQueues p)[i := chan_send (Some task) (taskQueues p ! i)]\<rparr>)"
  have "(submitter_solo env pick sel ctx task)\<^sup>*\<^sup>* (PHook, p) (PEnd True, ?q)"
    by (intro solo_step [where ph = PHook, OF submit_step.simps(6)] solo_step [where ph = PNext and y = "(PTry i, ?p2)"] solo_step [OF send]
        solo_step [OF submit_step.simps(12)] rtranclp.rtrancl_refl) (simp add: i)
  then show ?thesis by (intro exI [of _ ?q]) (simp add: dispatchTaskEnqueuedFor_def)
qed

lemma stranded_task:
  assumes inv: "conc_inv m (conc_init p)" and "\<not> closed p" and "queuedTasks p = 0"
  shows "\<exists>s. conc_reach env p s \<and> resting env s \<and> scalerAt s = KTick \<and> queuedTasks (shared s) = 1 \<and> pendingTasks (shared s) = 1"
proof -
  let ?t = "TaskFunc (Some undefined)" and ?c = "Background env"
  have run: "runningWorkersNum p = 0" using inv by (simp add: conc_inv_def count_ok_def conc_init_def on_duty_def)
  define s1 where "s1 = (conc_init p)\<lparr>shared := pool_addPending p, submitters := {#(?c, ?t, PClosed)#}\<rparr>"
  have r1: "conc_step env (conc_init p) s1" using conc_step.client [of ?t env "conc_init p" ?c] by (simp add: s1_def conc_init_def)
  have "\<not> closed (shared s1)" "runningWorkersNum (shared s1) = 0" using assms(2) run by (simp_all add: s1_def pool_addPending_def)
  note cold = cold_start_counts [OF this, of env None 0 ?c ?t]
  obtain q0 where "submit_step env None 0 ?c ?t PLaunch ((shared s1)\<lparr>submitCount := submitCount (shared s1) + 1, runningWorkersNum := 1\<rparr>) = Some (PHook, q0)"
    by (auto simp: case_prod_beta)
  with cold have "(submitter_solo env None 0 ?c ?t)\<^sup>*\<^sup>* (PClosed, shared s1) (PHook, q0)"
    by (auto simp: submitter_solo_def intro: rtranclp.rtrancl_into_rtrancl)
  from submitter_lift [OF this, of s1 "{#}"] obtain s2 where s2: "(conc_step env)\<^sup>*\<^sup>* s1 s2" "submitters s2 = {#(?c, ?t, PHook)#}"
    "scalerAt s2 = KTick" "closers s2 = {#}" "accepted s2 = {#}" "finished s2 = {#}"
    by (auto simp: s1_def conc_init_def)
  have star2: "(conc_step env)\<^sup>*\<^sup>* (conc_init p) s2" using r1 s2(1) by (rule converse_rtranclp_into_rtranclp)
  from workers_end [OF conc_run_inv [OF star2 inv]] obtain s3 where s3: "(conc_step env)\<^sup>*\<^sup>* s2 s3" "\<forall>ph\<in>#workers s3. ph = WEnd"
    "same_clients s2 s3" "scalerAt s3 = scalerAt s2" by blast
  have star3: "(conc_step env)\<^sup>*\<^sup>* (conc_init p) s3" using star2 s3(1) by simp
  have inv3: "conc_inv m s3" by (rule conc_run_inv [OF star3 inv])
  obtain xs where xs: "conc_shape m xs (shared s3)" "accepted s3 = finished s3 + held xs (shared s3) + hands s3"
    using inv3 by (auto simp: conc_inv_def conc_ledger_def)
  have e: "finished s3 = {#}" "held xs (shared s3) = {#}" using xs(2) s3(3) s2(5) by (simp_all add: same_clients_def)
  then have "queuedTasks (shared s3) = 0" using queued_held [OF xs(1)] by simp
  from late_send [OF xs(1) this, of env None 0 ?c ?t] obtain q where
    q: "(submitter_solo env None 0 ?c ?t)\<^sup>*\<^sup>* (PHook, shared s3) (PEnd True, q)" "started q = started (shared s3)" by blast
  from submitter_lift [OF q(1), of s3 "{#}"] obtain s4 ws where s4: "(conc_step env)\<^sup>*\<^sup>* s3 s4" "submitters s4 = {#(?c, ?t, PEnd True)#}"
    "accepted s4 = {#Some ?t#}" "finished s4 = {#}" "scalerAt s4 = KTick" "closers s4 = {#}"
    "started q = started (shared s3) @ ws" "workers s4 = workers s3 + mset (map WStart ws)"
    using s3(3,4) s2(2-5) e(1) by (auto simp: same_clients_def)
  have W: "\<forall>ph\<in>#workers s4. ph = WEnd" using s4(7,8) q(2) s3(2) by simp
  have star4: "(conc_step env)\<^sup>*\<^sup>* (conc_init p) s4" using star3 s4(1) by simp
  obtain ys where ys: "conc_shape m ys (shared s4)" "accepted s4 = finished s4 + held ys (shared s4) + hands s4"
    "pendingTasks (shared s4) = int (size (held ys (shared s4))) + int (in_flight s4) + int (size (hands s4))"
    using conc_run_inv [OF star4 inv] by (auto simp: conc_inv_def conc_ledger_def)
  have "hands s4 = {#}" using W by (auto simp: hands_def sum_mset_0_iff)
  moreover from this have "held ys (shared s4) = {#Some ?t#}" using ys(2) s4(3,4) by simp
  ultimately have "queuedTasks (shared s4) = 1" "pendingTasks (shared s4) = 1"
    using queued_held [OF ys(1)] ys(3) s4(2) by (simp_all add: in_flight_def)
  moreover have "resting env s4"
    unfolding resting_def
  proof (intro allI notI)
    fix s' assume "work_step env s4 s'"
    then show False by cases (use W s4(2,5,6) in auto)
  qed
  ultimately show ?thesis using conc_run_reach [OF star4 conc_start] s4(5) by blast
qed

section \<open>Property\<close>

text \<open>
  C6. No goroutine spins. From every reachable state, whatever the schedule, the submitters,
  workers, closers and the scaler take a bounded number of steps until the scaler's next
  tick or the next call of a client, with any activity of the environment, the sampler, the
  cleaner and \<^verbatim>\<open>Wait\<close> in between; so they come to rest. Wherever they rest, no worker runs,
  every call of \<^verbatim>\<open>Close\<close> has returned, and either every submission has returned and every
  accepted task has finished, or tasks are queued and the scaler is about to tick.
\<close>

theorem goroutines_come_to_rest:
  assumes "config_valid c" and "taskQueueSize c < 2 ^ 62" and "shards_want procs c \<le> 2 ^ 62"
    and "NewPool procs (Some c) w = Some p" and "conc_reach env p s"
  shows "(\<exists>B. \<forall>k s'. quiet_run env k s s' \<longrightarrow> k \<le> B) \<and> (\<exists>k s'. quiet_run env k s s' \<and> resting env s') \<and>
    (\<forall>k s'. quiet_run env k s s' \<and> resting env s' \<longrightarrow>
       (\<forall>ph\<in>#workers s'. ph = WEnd) \<and> (\<forall>ph\<in>#closers s'. ph = CEnd) \<and> runningWorkersNum (shared s') = 0 \<and>
       (pendingTasks (shared s') = 0 \<and> accepted s' = finished s' \<and> (\<forall>x\<in>#submitters s'. \<exists>b. snd (snd x) = PEnd b) \<or>
        queuedTasks (shared s') \<noteq> 0 \<and> scalerAt s' = KTick))"
proof -
  obtain m where inv: "conc_inv m s" by (rule reach_inv [OF assms])
  have e: "\<exists>b. ph = PEnd b" if "ended ph" for ph using that by (cases ph) auto
  have "(\<forall>ph\<in>#workers s'. ph = WEnd) \<and> (\<forall>ph\<in>#closers s'. ph = CEnd) \<and> runningWorkersNum (shared s') = 0 \<and>
       (pendingTasks (shared s') = 0 \<and> accepted s' = finished s' \<and> (\<forall>x\<in>#submitters s'. \<exists>b. snd (snd x) = PEnd b) \<or>
        queuedTasks (shared s') \<noteq> 0 \<and> scalerAt s' = KTick)" if "quiet_run env k s s'" "resting env s'" for k s'
  proof -
    have inv': "conc_inv m s'" by (rule conc_run_inv [OF quiet_conc [OF that(1)] inv])
    show ?thesis
      using resting_ended(1,2) [OF inv' that(2)] resting_stranded(1,3,4) [OF inv' that(2)] e unfolding drained_def by blast
  qed
  moreover have "\<forall>k s'. quiet_run env k s s' \<longrightarrow> k \<le> work_measure m s" using quiet_bound [OF _ inv] by fastforce
  ultimately show ?thesis using reaches_rest [OF inv, of env] by blast
qed

theorem goroutines_come_to_rest_witness:
  "\<exists>p s k s'. NewPool 8 (Some (NewConfig [WithTaskQueueSize 1, WithWorkerNumCapacity 2])) ([], []) = Some p \<and>
     conc_reach example_env p s \<and> accepted s = {#Some (TaskFunc (Some 1))#} \<and> finished s = {#} \<and>
     quiet_run example_env k s s' \<and> (\<forall>ph\<in>#workers s'. ph = WEnd) \<and> runningWorkersNum (shared s') = 0"
proof -
  obtain m and p :: "(nat, unit, nat, nat, example_world) Pool" where
    p: "NewPool 8 (Some (NewConfig [WithTaskQueueSize 1, WithWorkerNumCapacity 2])) ([], []) = Some p" "pool_inv m [] p"
      "\<not> closed p" "workMode (config p) = BLOCK" by (rule small_pool)
  obtain s where s: "conc_reach example_env p s" "accepted s = {#Some (TaskFunc (Some 1))#}" "finished s = {#}"
    using one_accepted [OF p(2-4), of "TaskFunc (Some 1)" example_env None 0 "Background example_env"] by auto
  show ?thesis using goroutines_come_to_rest [OF small_config p(1) s(1)] p(1) s by blast
qed

end
