(* ===== verification/Concurrent_Ticks.thy ===== *)
theory Concurrent_Ticks
  imports Concurrent_Rest
begin

text \<open>
  The scaler's computation inside the concurrent pool. The steps of \<open>Concurrent_Pool\<close> let a
  tick ask for any number of workers; here it asks for the number \<^verbatim>\<open>scaleIfNeeded\<close> computes
  from medians and backlog. An uninterrupted call of \<^verbatim>\<open>scaleIfNeeded\<close> is an execution of
  these steps, and from rest the computed number is enough to go on, so the ticks the
  scaler really makes drain the pool.
\<close>

section \<open>What a tick asks for\<close>

text \<open>The part of \<^verbatim>\<open>scaleIfNeeded\<close> before the lock: the number to start and the new \<^verbatim>\<open>lastZeroConsumeScale\<close>.\<close>

definition tick_request :: "(float64 \<Rightarrow> int) \<Rightarrow> time \<Rightarrow> ('f, 'b, 'c, 'v, 'w) Pool \<Rightarrow> (int \<times> time) option" where
  "tick_request oor now p =
     (case getMedianRates p of
        None \<Rightarrow> None
      | Some (submitMed, consumeMed, exitMed) \<Rightarrow>
          (let (t, lz) = scale_target oor now submitMed consumeMed p
           in Some (toSpawn oor exitMed (config p) (capacity p) (runningWorkersNum p) (clamp_target (pendingTasks p) (capacity p) t), lz)))"

lemma toSpawn_nonpos: "toSpawn oor e c cap r t \<le> 0 \<longleftrightarrow> toSpawn oor e c cap r t = 0"
  by (auto simp: toSpawn_def Let_def split: if_splits)

lemma scaleIfNeeded_request:
  "scaleIfNeeded oor now p =
     (case tick_request oor now p of
        None \<Rightarrow> None
      | Some (n, lz) \<Rightarrow>
          (let p1 = p\<lparr>lastZeroConsumeScale := lz\<rparr>; a = actualSpawn (capacity p) (runningWorkersNum p) n
           in if n \<le> 0 \<or> a \<le> 0 then Some p1 else spawn_loop (nat a) (addRunningWorkersNum a p1)))"
proof (cases "getMedianRates p")
  case None
  then show ?thesis by (simp add: scaleIfNeeded_def tick_request_def)
next
  case (Some r)
  obtain s c e where r: "r = (s, c, e)" by (cases r)
  obtain t lz where t: "scale_target oor now s c p = (t, lz)" by force
  then show ?thesis using Some r by (simp add: scaleIfNeeded_def tick_request_def Let_def toSpawn_nonpos)
qed

section \<open>A call of scaleIfNeeded as an execution\<close>

definition scaler_solo :: "int \<Rightarrow> scaler_phase \<times> ('f, 'b, 'c, 'v, 'w) Pool \<Rightarrow> scaler_phase \<times> ('f, 'b, 'c, 'v, 'w) Pool \<Rightarrow> bool" where
  "scaler_solo n x y \<longleftrightarrow> scaler_step n (fst x) (snd x) = Some y"

lemma spawn_loop_zero_consume:
  "spawn_loop k (p\<lparr>lastZeroConsumeScale := z\<rparr>) = map_option (\<lambda>q. q\<lparr>lastZeroConsumeScale := z\<rparr>) (spawn_loop k p)"
proof (induction k arbitrary: p)
  case (Suc k)
  have st: "startWorker w (x\<lparr>lastZeroConsumeScale := z\<rparr>) = (startWorker w x)\<lparr>lastZeroConsumeScale := z\<rparr>" for w and x :: "('a, 'b, 'c, 'd, 'e) Pool"
    by (simp add: startWorker_def Let_def)
  have up: "x\<lparr>lastZeroConsumeScale := z, idleWorks := c\<rparr> = x\<lparr>idleWorks := c, lastZeroConsumeScale := z\<rparr>" for c and x :: "('a, 'b, 'c, 'd, 'e) Pool" by simp
  have get: "workerPool_Get (x\<lparr>lastZeroConsumeScale := z\<rparr>) = (fst (workerPool_Get x), (snd (workerPool_Get x))\<lparr>lastZeroConsumeScale := z\<rparr>)"
    for x :: "('a, 'b, 'c, 'd, 'e) Pool" by (simp add: workerPool_Get_def)
  show ?case
    by (simp only: spawn_loop.simps up get st Suc.IH Pool.simps Let_def case_prod_beta fst_conv snd_conv)
      (simp split: option.splits prod.splits)
qed simp

lemma spawn_loop_keeps:
  assumes "spawn_loop k p = Some q"
  shows "lastZeroConsumeScale q = lastZeroConsumeScale p"
proof -
  have "p\<lparr>lastZeroConsumeScale := lastZeroConsumeScale p\<rparr> = p" by simp
  then have "q = q\<lparr>lastZeroConsumeScale := lastZeroConsumeScale p\<rparr>"
    using spawn_loop_zero_consume [where k = k and p = p and z = "lastZeroConsumeScale p"] assms by (simp only: option.map option.inject)
  then have "lastZeroConsumeScale q = lastZeroConsumeScale (q\<lparr>lastZeroConsumeScale := lastZeroConsumeScale p\<rparr>)" by (rule arg_cong)
  then show ?thesis by simp
qed

lemma spawn_loop_Suc: "spawn_loop (Suc k) p = Option.bind (spawn_loop 1 p) (spawn_loop k)"
  by (simp add: Let_def case_prod_beta split: option.splits)

lemma launches_solo:
  "spawn_loop k p = Some q \<Longrightarrow> (scaler_solo n)\<^sup>*\<^sup>* (KLaunch k, p) (KClosed, q)"
proof (induction k arbitrary: p)
  case 0
  then show ?case by (intro r_into_rtranclp) (simp add: scaler_solo_def)
next
  case (Suc k)
  then obtain p1 where p1: "spawn_loop 1 p = Some p1" "spawn_loop k p1 = Some q"
    unfolding spawn_loop_Suc by (cases "spawn_loop 1 p") auto
  then have "scaler_solo n (KLaunch (Suc k), p) (KLaunch k, p1)" by (simp add: scaler_solo_def del: spawn_loop.simps)
  then show ?case using Suc.IH [OF p1(2)] by (rule converse_rtranclp_into_rtranclp)
qed

lemma scale_solo:
  assumes "scaleIfNeeded oor now p = Some q"
  shows "\<exists>n. (scaler_solo n)\<^sup>*\<^sup>* (KTick, p) (KClosed, q\<lparr>lastZeroConsumeScale := lastZeroConsumeScale p\<rparr>)"
proof -
  obtain n lz where r: "tick_request oor now p = Some (n, lz)"
    using assms by (auto simp: scaleIfNeeded_request split: option.splits)
  let ?a = "actualSpawn (capacity p) (runningWorkersNum p) n"
  show ?thesis
  proof (cases "n \<le> 0 \<or> ?a \<le> 0")
    case True
    then have "q = p\<lparr>lastZeroConsumeScale := lz\<rparr>" using assms r by (auto simp: scaleIfNeeded_request)
    moreover have "scaler_solo n (KTick, p) (KClosed, p)" using True by (auto simp: scaler_solo_def Let_def)
    ultimately show ?thesis by auto
  next
    case False
    have up: "addRunningWorkersNum ?a (p\<lparr>lastZeroConsumeScale := lz\<rparr>) = (addRunningWorkersNum ?a p)\<lparr>lastZeroConsumeScale := lz\<rparr>"
      by (simp add: addRunningWorkersNum_def)
    obtain q0 where q0: "spawn_loop (nat ?a) (addRunningWorkersNum ?a p) = Some q0" "q = q0\<lparr>lastZeroConsumeScale := lz\<rparr>"
      using assms r False unfolding scaleIfNeeded_request by (auto simp: Let_def up spawn_loop_zero_consume)
    have "lastZeroConsumeScale q0 = lastZeroConsumeScale p" using spawn_loop_keeps [OF q0(1)] by (simp add: addRunningWorkersNum_def)
    then have "q\<lparr>lastZeroConsumeScale := lastZeroConsumeScale p\<rparr> = q0" using q0(2) by simp
    moreover have "scaler_solo n (KTick, p) (KAdd (runningWorkersNum p) ?a, p)"
      "scaler_solo n (KAdd (runningWorkersNum p) ?a, p) (KLaunch (nat ?a), addRunningWorkersNum ?a p)"
      using False by (simp_all add: scaler_solo_def Let_def)
    ultimately show ?thesis using launches_solo [OF q0(1), of n] by (metis converse_rtranclp_into_rtranclp)
  qed
qed

lemma scaler_lift:
  assumes "(scaler_solo n)\<^sup>*\<^sup>* x y" and "scalerAt s = fst x" and "shared s = snd x"
  shows "\<exists>s'. (conc_step env)\<^sup>*\<^sup>* s s' \<and> shared s' = snd y \<and> scalerAt s' = fst y \<and> same_clients s s' \<and> finished s' = finished s"
  using assms
proof (induction arbitrary: s rule: converse_rtranclp_induct)
  case base
  then show ?case by (intro exI [of _ s]) (simp add: same_clients_def)
next
  case (step x z)
  let ?s = "s\<lparr>shared := snd z, scalerAt := fst z, workers := workers s + launched (shared s) (snd z)\<rparr>"
  have "conc_step env s ?s" using step.hyps(1) step.prems by (intro conc_step.scaler [of n]) (simp add: scaler_solo_def)
  moreover obtain s' where "(conc_step env)\<^sup>*\<^sup>* ?s s'" "shared s' = snd y" "scalerAt s' = fst y" "same_clients s s'" "finished s' = finished s"
    using step.IH [of ?s] by (auto simp: same_clients_def)
  ultimately show ?case by (auto intro: converse_rtranclp_into_rtranclp)
qed

lemma tick_execution:
  assumes "scaler oor now (shared s) = Some (stops, q)" and "scalerAt s = KTick"
  shows "\<exists>s'. (conc_step env)\<^sup>*\<^sup>* s s' \<and> shared s' = q\<lparr>lastZeroConsumeScale := lastZeroConsumeScale (shared s)\<rparr> \<and>
    scalerAt s' = (if stops then KStopped else KTick) \<and> same_clients s s' \<and> finished s' = finished s"
proof -
  let ?q = "q\<lparr>lastZeroConsumeScale := lastZeroConsumeScale (shared s)\<rparr>"
  have q: "scaleIfNeeded oor now (shared s) = Some q" "stops \<longleftrightarrow> closed q \<and> pendingTasks q = 0"
    using assms(1) by (auto simp: scaler_def)
  obtain n where n: "(scaler_solo n)\<^sup>*\<^sup>* (KTick, shared s) (KClosed, ?q)" using scale_solo [OF q(1)] by blast
  moreover have "(scaler_solo n)\<^sup>*\<^sup>* (KClosed, ?q) (if stops then KStopped else KTick, ?q)"
  proof (cases "closed q")
    case True
    then have "scaler_solo n (KClosed, ?q) (KPending, ?q)" "scaler_solo n (KPending, ?q) (if stops then KStopped else KTick, ?q)"
      using q(2) by (simp_all add: scaler_solo_def)
    then show ?thesis by (meson converse_rtranclp_into_rtranclp r_into_rtranclp)
  next
    case False
    then show ?thesis using q(2) by (intro r_into_rtranclp) (simp add: scaler_solo_def)
  qed
  ultimately have "(scaler_solo n)\<^sup>*\<^sup>* (KTick, shared s) (if stops then KStopped else KTick, ?q)" by (rule rtranclp_trans)
  from scaler_lift [OF this] show ?thesis using assms(2) by auto
qed

section \<open>Configuration and medians under concurrency\<close>

lemma submit_step_static: "submit_step env pick sel ctx task ph p = Some (ph', q) \<Longrightarrow> static q = static p"
  by (cases ph) (auto simp: Let_def case_prod_beta workerPool_Get_def startWorker_def split: if_splits option.splits, (simp add: static_def)+)

lemma worker_step_static: "worker_step env now priority pick ph p = Some (ph', q) \<Longrightarrow> static q = static p"
  by (cases "(env, now, priority, pick, ph, p)" rule: worker_step.cases)
    (auto simp: Let_def case_prod_beta task_begin_def task_body_def addToIdle_def addRunningWorkersNum_def split: if_splits option.splits, (simp add: static_def)+)

lemma spawn_one_static: "spawn_loop 1 p = Some q \<Longrightarrow> static q = static p"
  by (auto simp: workerPool_Get_def startWorker_def Let_def static_def split: option.splits)

lemma scaler_step_static: "scaler_step n ph p = Some (ph', q) \<Longrightarrow> static q = static p"
  by (cases "(n, ph, p)" rule: scaler_step.cases)
    (auto simp: Let_def addRunningWorkersNum_def spawn_one_static simp del: spawn_loop.simps, simp add: static_def)

lemma close_step_static: "close_step ph p = Some (ph', q) \<Longrightarrow> static q = static p"
  by (cases ph) (auto simp: static_def split: if_splits)

lemma back_static:
  "static (snd (pool_Wait p)) = static p" "expiredWorkerCleaner now p = Some q \<Longrightarrow> static q = static p"
  by (simp add: pool_Wait_def static_def, auto simp: expiredWorkerCleaner_def split: if_splits)

lemma conc_step_static:
  "conc_step env s s' \<Longrightarrow> statsSampler (shared s) \<in> Some ` (UNIV \<times> {shared s'}) \<or> static (shared s') = static (shared s)"
  by (cases rule: conc_step.cases)
    (auto simp: pool_addPending_def back_static(1) dest: back_static(2) submit_step_static worker_step_static scaler_step_static close_step_static)

lemma conc_step_hists:
  assumes "conc_step env s s'" and "hists_ok (shared s)"
  shows "hists_ok (shared s') \<and> config (shared s') = config (shared s)"
proof (cases "static (shared s') = static (shared s)")
  case True
  then show ?thesis using static_hists [OF True] assms(2) by (simp add: static_def)
next
  case False
  then have q: "sampleRates (shared s) = Some (shared s')" using conc_step_static [OF assms(1)] by (auto simp: statsSampler_def)
  obtain hs hc he where h: "sampleRates (shared s) = Some ((shared s)\<lparr>submitCount := 0, consumeCount := 0, exitCount := 0,
      submitHist := hs, consumeHist := hc, exitHist := he\<rparr>)"
    "hists_ok ((shared s)\<lparr>submitHist := hs, consumeHist := hc, exitHist := he\<rparr>)" using sampleRates_ok [OF assms(2)] by blast
  then have "shared s' = (shared s)\<lparr>submitCount := 0, consumeCount := 0, exitCount := 0, submitHist := hs, consumeHist := hc, exitHist := he\<rparr>"
    using q by simp
  then show ?thesis using h(2) by (simp add: hists_ok_def)
qed

lemma reach_hists:
  assumes "conc_reach env p s" and "hists_ok p"
  shows "hists_ok (shared s)" and "config (shared s) = config p"
proof -
  have "hists_ok (shared s) \<and> config (shared s) = config p"
    using assms by (induction rule: conc_reach.induct) (simp_all add: conc_init_def conc_step_hists)
  then show "hists_ok (shared s)" and "config (shared s) = config p" by simp_all
qed

section \<open>The number of exits per tick\<close>

text \<open>The medians of the exits stay below 128, so the product with a period of hours is far from overflow.\<close>

lemma exit_mid:
  assumes "d \<in> set exitBuckets"
  shows "\<exists>x. bucket_mid d = Fin x \<and> 0 \<le> x \<and> x \<le> 128"
proof -
  have d: "0 \<le> low d" "low d \<le> 101" "high d \<le> 100" "high d = - 1 \<or> low d \<le> high d"
    using assms by (auto simp: exitBuckets_def)
  show ?thesis
  proof (cases "high d = - 1")
    case True
    then show ?thesis using d by (simp add: bucket_mid_def f_of_int_exact)
  next
    case False
    let ?n = "low d + high d"
    have n: "int64_range ?n" "\<bar>?n\<bar> < 2 ^ 53" "0 \<le> ?n" "?n \<le> 201" using False d by (simp_all add: int64_range_def)
    then have "of_int ?n \<le> (201 :: rat)" "0 \<le> (of_int ?n :: rat)" by linarith+
    then have "\<exists>x. fl (of_int ?n / 2) = Fin x \<and> 0 \<le> x \<and> x \<le> 128"
      using fl_between [of "of_int ?n / 2" 128 0] is_float_of_int [of 128] by simp
    then show ?thesis using False n by (simp add: bucket_mid_def f_of_int_exact)
  qed
qed

lemma exit_median:
  assumes "hists_ok p" and "getMedianRates p = Some (a, b, e)"
  shows "\<exists>x. e = Fin x \<and> 0 \<le> x \<and> x \<le> 128"
proof -
  obtain w zs where h: "hist_rep exitBuckets w (exitHist p) zs" using assms(1) by (auto simp: hists_ok_def)
  have m: "median (exitHist p) = Some e" using assms(2) by (auto simp: getMedianRates_def split: option.splits)
  show ?thesis
  proof (cases "zs = []")
    case True
    then show ?thesis using h m by (auto simp: median_def hist_rep_def)
  next
    case False
    let ?x = "sort zs ! (length zs div 2)"
    have "length zs div 2 < length (sort zs)" using False by (cases zs) simp_all
    then have "?x \<in> set zs" using nth_mem set_sort by metis
    then have "nat ?x < length exitBuckets" using h by (auto simp: hist_rep_def)
    then have b: "exitBuckets ! nat ?x \<in> set exitBuckets" by simp
    show ?thesis using exit_mid [OF b] median_window [OF h False] m by auto
  qed
qed

lemma is_float_pow2: "k < 1024 \<Longrightarrow> is_float (2 ^ k)"
  using is_float_exact [of 1 "int k"] power_strict_increasing [of k 1024 "2 :: rat"] by (simp add: power_int_def)

lemma int_le_pow2: "n \<le> 2 ^ k \<Longrightarrow> of_int n \<le> (2 ^ k :: rat)"
  by (metis of_int_le_iff of_int_numeral of_int_power)

lemma f_of_int_positive:
  assumes "0 < n" and "n \<le> 2 ^ 63"
  obtains t where "f_of_int n = Fin t" and "1 \<le> t"
proof -
  have "1 \<le> (of_int n :: rat)" "of_int n \<le> (2 ^ 63 :: rat)" using assms(1) int_le_pow2 [OF assms(2)] by simp_all
  then show thesis using that fl_between [of "of_int n" "2 ^ 63" 1] is_float_pow2 [of 63] by (auto simp: f_of_int_def)
qed

lemma exitPerTick_zero:
  assumes "config_valid c"
  shows "exitPerTick oor (Fin 0) c = 0"
proof -
  have "0 < scalerPeriod c" "scalerPeriod c \<le> 2 ^ 63" "0 < statsSamplePeriod c" "statsSamplePeriod c \<le> 2 ^ 63"
    using assms by (simp_all add: config_valid_def pos64_def)
  then obtain t u where "f_of_int (scalerPeriod c) = Fin t" "f_of_int (statsSamplePeriod c) = Fin u" "1 \<le> u"
    using f_of_int_positive by metis
  then show ?thesis by (simp add: exitPerTick_def f_int64_def int64_range_def)
qed

lemma exitPerTick_bound:
  assumes "0 \<le> x" and "x \<le> 128" and "0 < scalerPeriod c" and "scalerPeriod c \<le> 2 ^ 44" and "0 < statsSamplePeriod c" and "statsSamplePeriod c \<le> 2 ^ 63"
  shows "0 \<le> exitPerTick oor (Fin x) c" and "exitPerTick oor (Fin x) c \<le> 2 ^ 51"
proof -
  let ?p = "of_int (scalerPeriod c) :: rat"
  have p: "0 \<le> ?p" "?p \<le> 2 ^ 44" using assms(3) int_le_pow2 [OF assms(4)] by simp_all
  have fp: "f_of_int (scalerPeriod c) = Fin ?p" using assms(3,4) by (intro f_of_int_exact) simp
  obtain t where t: "f_of_int (statsSamplePeriod c) = Fin t" "1 \<le> t" by (rule f_of_int_positive [OF assms(5,6)])
  have "x * ?p \<le> 128 * 2 ^ 44" by (intro mult_mono) (use assms(2) p in auto)
  then obtain y where y: "fl (x * ?p) = Fin y" "0 \<le> y" "y \<le> 2 ^ 51"
    using fl_between [of "x * ?p" "2 ^ 51" 0] assms(1) p is_float_pow2 [of 51] by auto
  have "y / t \<le> y" using y t by (simp add: divide_le_eq mult_le_cancel_left1)
  then obtain z where z: "fl (y / t) = Fin z" "0 \<le> z" "z \<le> 2 ^ 51"
    using fl_between [of "y / t" "2 ^ 51" 0] y t is_float_pow2 [of 51] by auto
  have "\<lfloor>z\<rfloor> \<le> 2 ^ 51" "0 \<le> \<lfloor>z\<rfloor>" using z by (simp_all add: floor_le_iff)
  moreover have "exitPerTick oor (Fin x) c = \<lfloor>z\<rfloor>"
    using fp t y z calculation by (simp add: exitPerTick_def f_int64_def int64_range_def)
  ultimately show "0 \<le> exitPerTick oor (Fin x) c" and "exitPerTick oor (Fin x) c \<le> 2 ^ 51" by simp_all
qed

section \<open>Ticks from rest\<close>

text \<open>Histograms in order, periods of a few hours at most and a pending count far from overflow.\<close>

definition scaler_fit :: "('f, 'b, 'c, 'v, 'w) Pool \<Rightarrow> bool" where
  "scaler_fit p \<longleftrightarrow> hists_ok p \<and> config_valid (config p) \<and> scalerPeriod (config p) \<le> 2 ^ 44 \<and> pendingTasks p \<le> 2 ^ 62"

text \<open>
  With no worker running, a tick asks for a worker per pending task and for those that will
  exit, up to the capacity; with nothing pending it asks for none. Neither the time nor
  \<^verbatim>\<open>lastZeroConsumeScale\<close>, which the steps do not keep, matters then.
\<close>

lemma idle_request:
  assumes "getMedianRates p = Some (a, b, e)" and "runningWorkersNum p = 0" and "0 < pendingTasks p" and "0 < capacity p"
    and "capacity p \<le> MaxInt64" and "min (pendingTasks p) (capacity p) + exitPerTick oor e (config p) \<le> MaxInt64"
  shows "tick_request oor now (p\<lparr>lastZeroConsumeScale := z\<rparr>) =
    Some (min (min (pendingTasks p) (capacity p) + max 0 (exitPerTick oor e (config p))) (capacity p), z)"
proof -
  let ?p = "p\<lparr>lastZeroConsumeScale := z\<rparr>"
  have "getMedianRates ?p = Some (a, b, e)" using assms(1) by (auto simp: getMedianRates_def split: option.splits)
  moreover have "scale_target oor now a b ?p = (pendingTasks p, z)" using assms(2,3) by (simp add: scale_target_def Let_def)
  ultimately show ?thesis
    using toSpawn_value [of 0 "min (pendingTasks p) (capacity p)" "capacity p" oor e "config p"] assms(2-6)
    by (simp add: tick_request_def clamp_target_min)
qed

lemma drained_request:
  assumes "hists_ok p" and "runningWorkersNum p = 0" and "pendingTasks p = 0"
  shows "tick_request oor now (p\<lparr>lastZeroConsumeScale := z\<rparr>) = Some (0, z)"
proof -
  let ?p = "p\<lparr>lastZeroConsumeScale := z\<rparr>"
  have "hists_ok ?p" using assms(1) by (simp add: hists_ok_def)
  then obtain a b e where "getMedianRates ?p = Some (a, b, e)" using getMedianRates_ok by metis
  moreover obtain t where "scale_target oor now a b ?p = (t, z)" using assms(3) by (simp add: scale_target_def Let_def)
  ultimately show ?thesis using assms(2,3) by (simp add: tick_request_def clamp_target_min toSpawn_zero)
qed

text \<open>
  From rest, a tick as the scaler computes it while tasks are queued, and whatever happens
  until the pool rests again. The time of the last zero-consume growth, which the steps do
  not keep, is arbitrary.
\<close>

inductive scaler_round :: "('f, 'b, 'c, 'v, 'w) task_env \<Rightarrow> (float64 \<Rightarrow> int) \<Rightarrow> ('f, 'b, 'c, 'v, 'w) conc \<Rightarrow> ('f, 'b, 'c, 'v, 'w) conc \<Rightarrow> bool"
  for env oor where
  scaled: "resting env s \<Longrightarrow> queuedTasks (shared s) \<noteq> 0 \<Longrightarrow> scalerAt s = KTick \<Longrightarrow>
    tick_request oor now ((shared s)\<lparr>lastZeroConsumeScale := z\<rparr>) = Some (n, lz) \<Longrightarrow> scaler_step n KTick (shared s) = Some (ph, q) \<Longrightarrow>
    quiet_run env k (s\<lparr>shared := q, scalerAt := ph\<rparr>) s' \<Longrightarrow> resting env s' \<Longrightarrow> scaler_round env oor s s'"

lemma rest_request:
  assumes inv: "conc_inv m s" and rest: "resting env s" and fit: "scaler_fit (shared s)" and queued: "queuedTasks (shared s) \<noteq> 0"
  shows "\<exists>n>0. (\<forall>now z. tick_request oor now ((shared s)\<lparr>lastZeroConsumeScale := z\<rparr>) = Some (n, z)) \<and>
    min (pendingTasks (shared s)) (capacity (shared s)) \<le> n \<and> n \<le> capacity (shared s)"
proof -
  let ?p = "shared s"
  have fit': "hists_ok ?p" "config_valid (config ?p)" "scalerPeriod (config ?p) \<le> 2 ^ 44" "pendingTasks ?p \<le> 2 ^ 62"
    using fit by (simp_all add: scaler_fit_def)
  obtain a b e where med: "getMedianRates ?p = Some (a, b, e)" using getMedianRates_ok [OF fit'(1)] by metis
  obtain x where x: "e = Fin x" "0 \<le> x" "x \<le> 128" using exit_median [OF fit'(1) med] by blast
  let ?t = "min (pendingTasks ?p) (capacity ?p)" and ?e = "exitPerTick oor e (config ?p)"
  have e: "?e \<le> 2 ^ 51" "0 \<le> ?e"
    using exitPerTick_bound [OF x(2,3) _ fit'(3), of oor] fit'(2) x(1) by (simp_all add: config_valid_def pos64_def)
  have pend: "0 < pendingTasks ?p" using queued_at_most_pending [OF inv] queued by linarith
  have cap: "0 < capacity ?p" "capacity ?p \<le> MaxInt64" using inv by (simp_all add: conc_inv_def count_ok_def)
  have "?t + ?e \<le> MaxInt64" using e fit'(4) by simp
  note eq = idle_request [OF med resting_stranded(1) [OF inv rest] pend cap this]
  have "0 < min (?t + max 0 ?e) (capacity ?p)" "?t \<le> min (?t + max 0 ?e) (capacity ?p)" using pend cap(1) e(2) by simp_all
  then show ?thesis using eq by (intro exI [of _ "min (?t + max 0 ?e) (capacity ?p)"]) simp
qed

lemma round_tick:
  assumes "scaler_round env oor s s'" and inv: "conc_inv m s" and fit: "scaler_fit (shared s)"
  shows "tick_round env s s'" and "queuedTasks (shared s) \<noteq> 0"
proof -
  have "tick_round env s s' \<and> queuedTasks (shared s) \<noteq> 0"
    using assms(1)
  proof cases
    case (scaled now z n lz ph q k)
    have "0 < n" using rest_request [OF inv scaled(1) fit scaled(2), of oor] scaled(4) by auto
    then show ?thesis using tick_round.tick [OF scaled(1,3) _ scaled(5-7)] scaled(2) by blast
  qed
  then show "tick_round env s s'" and "queuedTasks (shared s) \<noteq> 0" by simp_all
qed

lemma scaler_round_exists:
  assumes inv: "conc_inv m s" and rest: "resting env s" and fit: "scaler_fit (shared s)" and queued: "queuedTasks (shared s) \<noteq> 0"
  shows "\<exists>s'. scaler_round env oor s s'"
proof -
  obtain n where n: "tick_request oor 0 ((shared s)\<lparr>lastZeroConsumeScale := 0\<rparr>) = Some (n, 0)" using rest_request [OF assms] by blast
  have k: "scalerAt s = KTick" by (rule resting_stranded(4) [OF inv rest queued])
  obtain ph where st: "scaler_step n KTick (shared s) = Some (ph, shared s)" by (simp add: Let_def)
  from reaches_rest [OF conc_inv_step [OF tick_step [OF k st] inv], of env] obtain i s' where "quiet_run env i (s\<lparr>shared := shared s, scalerAt := ph\<rparr>) s'" "resting env s'"
    by blast
  then show ?thesis using scaled [OF rest queued k n st] by blast
qed

lemma scaler_round_conc:
  assumes "scaler_round env oor s s'"
  shows "(conc_step env)\<^sup>*\<^sup>* s s'"
  using assms
proof cases
  case (scaled now z n lz ph q k)
  show ?thesis by (rule converse_rtranclp_into_rtranclp [OF tick_step [OF scaled(3,5)] quiet_conc [OF scaled(6)]])
qed

lemma run_hists:
  "(conc_step env)\<^sup>*\<^sup>* s s' \<Longrightarrow> hists_ok (shared s) \<Longrightarrow> hists_ok (shared s') \<and> config (shared s') = config (shared s)"
  by (induction rule: rtranclp_induct) (auto dest: conc_step_hists)

lemma run_fit:
  assumes "(conc_step env)\<^sup>*\<^sup>* s s'" and "scaler_fit (shared s)" and "pendingTasks (shared s') \<le> pendingTasks (shared s)"
  shows "scaler_fit (shared s')"
proof -
  have "hists_ok (shared s') \<and> config (shared s') = config (shared s)"
    using run_hists [OF assms(1)] assms(2) by (simp add: scaler_fit_def)
  then show ?thesis using assms(2,3) by (simp add: scaler_fit_def)
qed

lemma rounds_fit:
  assumes "(scaler_round env oor ^^ r) s s'" and "conc_inv m s" and "resting env s" and "scaler_fit (shared s)"
  shows "conc_inv m s' \<and> resting env s' \<and> scaler_fit (shared s') \<and> pendingTasks (shared s') + int r \<le> pendingTasks (shared s)"
  using assms
proof (induction r arbitrary: s')
  case (Suc r)
  then obtain s1 where s1: "(scaler_round env oor ^^ r) s s1" "scaler_round env oor s1 s'" by (auto elim: relpowp_Suc_E)
  then have i: "conc_inv m s1" "scaler_fit (shared s1)" "pendingTasks (shared s1) + int r \<le> pendingTasks (shared s)" using Suc by blast+
  note t = round_tick [OF s1(2) i(1,2)]
  have less: "pendingTasks (shared s') < pendingTasks (shared s1)" by (rule tick_progress(2) [OF i(1) t])
  have "resting env s'" using t(1) by cases
  then show ?case using conc_run_inv [OF tick_conc [OF t(1)] i(1)] run_fit [OF tick_conc [OF t(1)] i(2)] less i(3) by simp
qed simp

section \<open>Steps the pool takes by itself\<close>

text \<open>
  For claims that some execution exists: the goroutines' own steps, with ticks that ask for
  what the scaler computes, whatever the time is and whatever \<^verbatim>\<open>lastZeroConsumeScale\<close> holds; no
  client calls anything and nothing outside changes. \<open>real_step\<close> adds calls of \<^verbatim>\<open>Submit\<close>.
\<close>

inductive own_step :: "('f, 'b, 'c, 'v, 'w) task_env \<Rightarrow> (float64 \<Rightarrow> int) \<Rightarrow> ('f, 'b, 'c, 'v, 'w) conc \<Rightarrow> ('f, 'b, 'c, 'v, 'w) conc \<Rightarrow> bool"
  for env oor where
  own_work: "work_step env s s' \<Longrightarrow> own_step env oor s s'"
| own_tick: "scalerAt s = KTick \<Longrightarrow> \<forall>now z. tick_request oor now ((shared s)\<lparr>lastZeroConsumeScale := z\<rparr>) = Some (n, z) \<Longrightarrow>
    scaler_step n KTick (shared s) = Some (ph, q) \<Longrightarrow> own_step env oor s (s\<lparr>shared := q, scalerAt := ph\<rparr>)"

inductive real_step :: "('f, 'b, 'c, 'v, 'w) task_env \<Rightarrow> (float64 \<Rightarrow> int) \<Rightarrow> ('f, 'b, 'c, 'v, 'w) conc \<Rightarrow> ('f, 'b, 'c, 'v, 'w) conc \<Rightarrow> bool"
  for env oor where
  real_own: "own_step env oor s s' \<Longrightarrow> real_step env oor s s'"
| real_call: "\<not> isNilTask (Some task) \<Longrightarrow>
    real_step env oor s (s\<lparr>shared := pool_addPending (shared s), submitters := add_mset (ctx, task, PClosed) (submitters s)\<rparr>)"

lemma own_conc: "own_step env oor s s' \<Longrightarrow> conc_step env s s'"
  by (cases rule: own_step.cases) (auto intro: work_conc tick_step)

lemma own_run_conc: "(own_step env oor)\<^sup>*\<^sup>* s s' \<Longrightarrow> (conc_step env)\<^sup>*\<^sup>* s s'"
  by (induction rule: rtranclp_induct) (auto intro: own_conc rtranclp.rtrancl_into_rtrancl)

lemma real_run_conc: "(real_step env oor)\<^sup>*\<^sup>* s s' \<Longrightarrow> (conc_step env)\<^sup>*\<^sup>* s s'"
proof (induction rule: rtranclp_induct)
  case (step y z)
  have "conc_step env y z" using step.hyps(2) by (cases rule: real_step.cases) (auto intro: own_conc conc_step.client)
  then show ?case using step.IH by simp
qed simp

lemma works_own: "(work_step env)\<^sup>*\<^sup>* s s' \<Longrightarrow> (own_step env oor)\<^sup>*\<^sup>* s s'"
  by (induction rule: rtranclp_induct) (auto intro: own_work rtranclp.rtrancl_into_rtrancl)

lemma own_real: "(own_step env oor)\<^sup>*\<^sup>* s s' \<Longrightarrow> (real_step env oor)\<^sup>*\<^sup>* s s'"
  by (induction rule: rtranclp_induct) (auto intro: real_own rtranclp.rtrancl_into_rtrancl)

lemma works_pending:
  assumes "(work_step env)\<^sup>*\<^sup>* s s'" and "conc_inv m s"
  shows "pendingTasks (shared s') \<le> pendingTasks (shared s)"
proof -
  obtain k where k: "quiet_run env k s s'" using works_quiet [OF assms(1)] by blast
  have "size (finished s) \<le> size (finished s')" using finished_grows [OF quiet_conc [OF k]] size_mset_mono by blast
  then show ?thesis using quiet_balance [OF k assms(2)] by linarith
qed

lemma own_drains:
  assumes "conc_inv m s" and "scaler_fit (shared s)"
  shows "\<exists>s'. (own_step env oor)\<^sup>*\<^sup>* s s' \<and> resting env s' \<and> queuedTasks (shared s') = 0"
  using assms
proof (induction "nat (pendingTasks (shared s))" arbitrary: s rule: less_induct)
  case less
  obtain s1 where s1: "(work_step env)\<^sup>*\<^sup>* s s1" "resting env s1" using works_to_rest [OF less.prems(1)] by blast
  note o1 = works_own [OF s1(1), of oor]
  have inv1: "conc_inv m s1" by (rule conc_run_inv [OF own_run_conc [OF o1] less.prems(1)])
  have le: "pendingTasks (shared s1) \<le> pendingTasks (shared s)" by (rule works_pending [OF s1(1) less.prems(1)])
  have fit1: "scaler_fit (shared s1)" by (rule run_fit [OF own_run_conc [OF o1] less.prems(2) le])
  show ?case
  proof (cases "queuedTasks (shared s1) = 0")
    case True
    then show ?thesis using o1 s1(2) by blast
  next
    case False
    obtain n where n: "0 < n" "\<forall>now z. tick_request oor now ((shared s1)\<lparr>lastZeroConsumeScale := z\<rparr>) = Some (n, z)"
      using rest_request [OF inv1 s1(2) fit1 False] by blast
    have k: "scalerAt s1 = KTick" by (rule resting_stranded(4) [OF inv1 s1(2) False])
    obtain ph where st: "scaler_step n KTick (shared s1) = Some (ph, shared s1)" by (simp add: Let_def)
    let ?s2 = "s1\<lparr>shared := shared s1, scalerAt := ph\<rparr>"
    have o2: "own_step env oor s1 ?s2" by (rule own_tick [OF k n(2) st])
    obtain s3 where s3: "(work_step env)\<^sup>*\<^sup>* ?s2 s3" "resting env s3"
      using works_to_rest [OF conc_inv_step [OF own_conc [OF o2] inv1]] by blast
    obtain i where i: "quiet_run env i ?s2 s3" using works_quiet [OF s3(1)] by blast
    have t: "tick_round env s1 s3" by (rule tick_round.tick [OF s1(2) k n(1) st i s3(2)])
    have less3: "pendingTasks (shared s3) < pendingTasks (shared s1)" by (rule tick_progress(2) [OF inv1 t False])
    have inv3: "conc_inv m s3" by (rule conc_run_inv [OF tick_conc [OF t] inv1])
    have fit3: "scaler_fit (shared s3)" by (rule run_fit [OF tick_conc [OF t] fit1]) (use less3 in simp)
    have "nat (pendingTasks (shared s3)) < nat (pendingTasks (shared s))"
      using less3 le queued_at_most_pending [OF inv3] by linarith
    from less.hyps [OF this inv3 fit3] obtain s' where s': "(own_step env oor)\<^sup>*\<^sup>* s3 s'" "resting env s'" "queuedTasks (shared s') = 0" by blast
    have "(own_step env oor)\<^sup>*\<^sup>* s s3" using o1 o2 works_own [OF s3(1), of oor] by (meson rtranclp.rtrancl_into_rtrancl rtranclp_trans)
    then show ?thesis using s' by (meson rtranclp_trans)
  qed
qed

text \<open>Once closed and drained, the scaler ends with the next tick.\<close>

lemma own_scaler_ends:
  assumes "scalerAt s = KTick" and "closed (shared s)" and "hists_ok (shared s)" and "runningWorkersNum (shared s) = 0" and "pendingTasks (shared s) = 0"
  shows "(own_step env oor)\<^sup>*\<^sup>* s (s\<lparr>scalerAt := KStopped\<rparr>)"
proof -
  let ?s = "\<lambda>ph. s\<lparr>scalerAt := ph\<rparr>"
  have none: "launched (shared s) (shared s) = {#}" by (simp add: launched_def)
  have "own_step env oor s (s\<lparr>shared := shared s, scalerAt := KClosed\<rparr>)"
    by (rule own_tick [of _ _ 0]) (use assms drained_request [OF assms(3-5)] in \<open>simp_all add: Let_def\<close>)
  then have "own_step env oor s (?s KClosed)" by simp
  moreover have "work_step env (?s KClosed) (?s KPending)"
    using work_scaler [of "?s KClosed" 0 KPending "shared s" env] assms(2) none by simp
  moreover have "work_step env (?s KPending) (?s KStopped)"
    using work_scaler [of "?s KPending" 0 KStopped "shared s" env] assms(5) none by simp
  ultimately show ?thesis by (meson own_work converse_rtranclp_into_rtranclp r_into_rtranclp)
qed

lemma own_shuts_down:
  assumes inv: "conc_inv m s" and fit: "scaler_fit (shared s)"
  shows "\<exists>s'. (own_step env oor)\<^sup>*\<^sup>* s s' \<and> drained s' \<and> (\<forall>ph\<in>#workers s'. ph = WEnd) \<and> (\<forall>ph\<in>#closers s'. ph = CEnd) \<and>
    (closed (shared s) \<longrightarrow> scalerAt s' = KStopped)"
proof -
  obtain s1 where s1: "(own_step env oor)\<^sup>*\<^sup>* s s1" "resting env s1" "queuedTasks (shared s1) = 0" using own_drains [OF assms] by blast
  note c1 = own_run_conc [OF s1(1)]
  have inv1: "conc_inv m s1" by (rule conc_run_inv [OF c1 inv])
  have d1: "drained s1" by (rule resting_stranded(3) [OF inv1 s1(2,3)])
  note ends = resting_ended(1-3) [OF inv1 s1(2)]
  show ?thesis
  proof (cases "closed (shared s) \<and> scalerAt s1 = KTick")
    case True
    have "hists_ok (shared s1)" using run_hists [OF c1] fit by (simp add: scaler_fit_def)
    then have "(own_step env oor)\<^sup>*\<^sup>* s1 (s1\<lparr>scalerAt := KStopped\<rparr>)"
      by (intro own_scaler_ends) (use True closed_run [OF c1 inv] d1 resting_stranded(1) [OF inv1 s1(2)] in \<open>auto simp: drained_def\<close>)
    then have "(own_step env oor)\<^sup>*\<^sup>* s (s1\<lparr>scalerAt := KStopped\<rparr>)" using s1(1) by (rule rtranclp_trans [rotated])
    then show ?thesis using d1 ends(1,2) by (intro exI [of _ "s1\<lparr>scalerAt := KStopped\<rparr>"]) (simp add: drained_def)
  next
    case False
    then show ?thesis using s1(1) d1 ends by blast
  qed
qed

section \<open>A cold start inside a tick\<close>

lemma submitter_works:
  assumes "(submitter_solo env pick sel ctx task)\<^sup>*\<^sup>* x y" and "submitters s = add_mset (ctx, task, fst x) S" and "shared s = snd x"
  shows "\<exists>s'. (work_step env)\<^sup>*\<^sup>* s s' \<and> shared s' = snd y \<and> submitters s' = add_mset (ctx, task, fst y) S \<and> scalerAt s' = scalerAt s"
  using assms
proof (induction arbitrary: s rule: converse_rtranclp_induct)
  case (step x z)
  let ?s = "s\<lparr>shared := snd z, submitters := add_mset (ctx, task, fst z) S,
      workers := workers s + launched (shared s) (snd z), accepted := accepted s + newly_accepted task (fst z)\<rparr>"
  have "work_step env s ?s" using step.hyps(1) step.prems by (intro work_submitter) (auto simp: submitter_solo_def)
  moreover obtain s' where "(work_step env)\<^sup>*\<^sup>* ?s s'" "shared s' = snd y" "submitters s' = add_mset (ctx, task, fst y) S" "scalerAt s' = scalerAt s"
    using step.IH [of ?s] by auto
  ultimately show ?case by (meson converse_rtranclp_into_rtranclp)
qed auto

lemma launches_work:
  assumes "conc_inv m s" and "scalerAt s = KLaunch k"
  shows "\<exists>s'. (work_step env)\<^sup>*\<^sup>* s s' \<and> scalerAt s' = KLaunch 0 \<and> submitters s' = submitters s \<and>
    runningWorkersNum (shared s') = runningWorkersNum (shared s)"
  using assms
proof (induction k arbitrary: s)
  case (Suc k)
  obtain ph' q where q: "scaler_step 0 (scalerAt s) (shared s) = Some (ph', q)"
    "conc_step env s (s\<lparr>shared := q, scalerAt := ph', workers := workers s + launched (shared s) q\<rparr>)" (is "conc_step env s ?s")
    "(\<forall>cur a. scalerAt s \<noteq> KAdd cur a) \<longrightarrow> runningWorkersNum q = runningWorkersNum (shared s)"
    by (rule scaler_can_step [OF Suc.prems(1)]) (use Suc.prems(2) in auto)
  have ph: "ph' = KLaunch k" using q(1) Suc.prems(2) by (auto simp del: spawn_loop.simps)
  have "work_step env s ?s" by (rule work_scaler [OF _ q(1)]) (simp add: Suc.prems(2))
  moreover obtain s' where "(work_step env)\<^sup>*\<^sup>* ?s s'" "scalerAt s' = KLaunch 0" "submitters s' = submitters s"
    "runningWorkersNum (shared s') = runningWorkersNum q"
    using Suc.IH [OF conc_inv_step [OF q(2) Suc.prems(1)]] ph by auto
  ultimately show ?case using q(3) Suc.prems(2) by (metis converse_rtranclp_into_rtranclp scaler_phase.distinct(11))
qed auto

lemma many_calls:
  assumes "\<not> isNilTask (Some task)"
  shows "(real_step env oor)\<^sup>*\<^sup>* s (s\<lparr>shared := (shared s)\<lparr>pendingTasks := pendingTasks (shared s) + int k\<rparr>,
           submitters := submitters s + replicate_mset k (ctx, task, PClosed)\<rparr>)"
proof (induction k)
  case (Suc k)
  then show ?case using real_call [OF assms, of env oor "s\<lparr>shared := (shared s)\<lparr>pendingTasks := pendingTasks (shared s) + int k\<rparr>,
           submitters := submitters s + replicate_mset k (ctx, task, PClosed)\<rparr>" ctx]
    by (auto simp: pool_addPending_def ac_simps intro: rtranclp.rtrancl_into_rtrancl)
qed simp

text \<open>
  As many tasks are submitted as the capacity allows workers. The scaler reads no running
  worker and asks for one per task; before it adds them, one of the submitters counts its
  cold start.
\<close>

lemma overshoot:
  assumes inv: "conc_inv m (conc_init p)" and opn: "\<not> closed p" and valid: "config_valid (config p)"
    and med: "getMedianRates p = Some (Fin 0, Fin 0, Fin 0)" and pend: "pendingTasks p = 0"
  shows "\<exists>s. (real_step env oor)\<^sup>*\<^sup>* (conc_init p) s \<and> scalerAt s = KLaunch 0 \<and>
    (\<forall>x\<in>#submitters s. submit_duty (snd (snd x)) = 0) \<and> runningWorkersNum (shared s) = capacity p + 1"
proof -
  let ?cap = "capacity p" and ?t = "TaskFunc (Some undefined)" and ?c = "Background env"
  let ?S = "replicate_mset (nat ?cap - 1) (?c, ?t, PClosed)"
  have p: "runningWorkersNum p = 0" "0 < ?cap" "?cap \<le> MaxInt64"
    using inv by (simp_all add: conc_inv_def count_ok_def conc_init_def on_duty_def)
  define p1 where "p1 = p\<lparr>pendingTasks := ?cap\<rparr>"
  define s1 where "s1 = (conc_init p)\<lparr>shared := p1, submitters := add_mset (?c, ?t, PClosed) ?S\<rparr>"
  have n: "nat ?cap = Suc (nat ?cap - 1)" using p(2) by simp
  have "(real_step env oor)\<^sup>*\<^sup>* (conc_init p) ((conc_init p)\<lparr>shared := p1, submitters := replicate_mset (nat ?cap) (?c, ?t, PClosed)\<rparr>)"
    using many_calls [of ?t env oor "conc_init p" "nat ?cap" ?c] p(2) pend by (simp add: conc_init_def p1_def)
  then have r1: "(real_step env oor)\<^sup>*\<^sup>* (conc_init p) s1" unfolding s1_def by (subst (asm) n) simp
  have "exitPerTick oor (Fin 0) (config p1) = 0" using exitPerTick_zero [OF valid] by (simp add: p1_def)
  moreover have "getMedianRates p1 = Some (Fin 0, Fin 0, Fin 0)" using med by (auto simp: p1_def getMedianRates_def split: option.splits)
  ultimately have req: "tick_request oor now (p1\<lparr>lastZeroConsumeScale := z\<rparr>) = Some (?cap, z)" for now z
    using idle_request [of p1 "Fin 0" "Fin 0" "Fin 0" oor now z] p by (simp add: p1_def)
  have "actualSpawn ?cap 0 ?cap = ?cap" using actualSpawn_min [of 0 ?cap ?cap] p by simp
  then have "scaler_step ?cap KTick p1 = Some (KAdd 0 ?cap, p1)" using p by (simp add: p1_def Let_def)
  then have r2: "own_step env oor s1 (s1\<lparr>shared := p1, scalerAt := KAdd 0 ?cap\<rparr>)" (is "own_step env oor s1 ?s2")
    using own_tick [of s1 oor ?cap "KAdd 0 ?cap" p1 env] req by (simp add: s1_def conc_init_def)
  have "\<not> closed p1" "runningWorkersNum p1 = 0" using opn p by (simp_all add: p1_def)
  from submitter_works [OF cold_start_counts [OF this, of env None 0 ?c ?t], of ?s2 ?S]
  obtain s3 where s3: "(work_step env)\<^sup>*\<^sup>* ?s2 s3" "submitters s3 = add_mset (?c, ?t, PLaunch) ?S" "scalerAt s3 = KAdd 0 ?cap"
    "runningWorkersNum (shared s3) = 1" by (auto simp: s1_def)
  define s4 where "s4 = s3\<lparr>shared := addRunningWorkersNum ?cap (shared s3), scalerAt := KLaunch (nat ?cap)\<rparr>"
  have r4: "work_step env s3 s4"
    using work_scaler [of s3 0 "KLaunch (nat ?cap)" "addRunningWorkersNum ?cap (shared s3)" env] s3
    by (simp add: s4_def addRunningWorkersNum_def launched_def)
  obtain q where q: "submit_step env None 0 ?c ?t PLaunch (shared s4) = Some (PHook, q)" by (auto simp: case_prod_beta)
  define s5 where "s5 = s4\<lparr>shared := q, submitters := add_mset (?c, ?t, PHook) ?S, workers := workers s4 + launched (shared s4) q\<rparr>"
  have r5: "work_step env s4 s5"
    using work_submitter [of s4 ?c ?t PLaunch ?S env None 0 PHook q] q s3(2) by (simp add: s5_def s4_def newly_accepted_def)
  have run: "runningWorkersNum (shared s5) = ?cap + 1"
    using submit_step_duty(5) [OF q] s3(4) p(2) by (simp add: s5_def s4_def addRunningWorkersNum_def)
  have "(work_step env)\<^sup>*\<^sup>* ?s2 s5" using s3(1) r4 r5 by (meson rtranclp.rtrancl_into_rtrancl)
  then have star: "(real_step env oor)\<^sup>*\<^sup>* (conc_init p) s5"
    using r1 real_own [OF r2] own_real [OF works_own] by (meson rtranclp.rtrancl_into_rtrancl rtranclp_trans)
  have "conc_inv m s5" by (rule conc_run_inv [OF real_run_conc [OF star] inv])
  from launches_work [OF this, of "nat ?cap" env] obtain s6 where s6: "(work_step env)\<^sup>*\<^sup>* s5 s6" "scalerAt s6 = KLaunch 0"
    "submitters s6 = submitters s5" "runningWorkersNum (shared s6) = runningWorkersNum (shared s5)"
    by (auto simp: s5_def s4_def)
  have "(real_step env oor)\<^sup>*\<^sup>* (conc_init p) s6" using star own_real [OF works_own [OF s6(1)]] by (rule rtranclp_trans)
  then show ?thesis using s6 run by (intro exI [of _ s6]) (auto simp: s5_def split: if_splits)
qed

section \<open>Properties\<close>

text \<open>
  The calls of the sequential model are executions of the concurrent one that nobody
  interrupts: every \<^verbatim>\<open>submit\<close>, every run of a worker and every tick of the scaler, however it
  ends, is a sequence of atomic steps with the same resulting pool. (The steps do not keep the
  time of the last zero-consume growth, since there a tick may ask for any number.)
\<close>

theorem calls_are_interleavings:
  "(\<not> isNilTask (Some task) \<and> submit env pick sel ctx task (shared s) = Some (r, q) \<longrightarrow>
      (\<exists>s'. (conc_step env)\<^sup>*\<^sup>* s s' \<and> shared s' = q \<and> submitters s' = add_mset (ctx, task, submit_result r) (submitters s) \<and>
         accepted s' = accepted s + gained r task \<and> finished s' = finished s)) \<and>
   (workers s = add_mset (WStart w) W \<and> run env now priority pick None w (shared s) = Some (w', q) \<longrightarrow>
      (\<exists>s'. (conc_step env)\<^sup>*\<^sup>* s s' \<and> shared s' = q \<and> workers s' = add_mset WEnd W \<and> accepted s' = accepted s)) \<and>
   (scalerAt s = KTick \<and> scaler oor t (shared s) = Some (stops, q) \<longrightarrow>
      (\<exists>s'. (conc_step env)\<^sup>*\<^sup>* s s' \<and> shared s' = q\<lparr>lastZeroConsumeScale := lastZeroConsumeScale (shared s)\<rparr> \<and>
         scalerAt s' = (if stops then KStopped else KTick) \<and> submitters s' = submitters s \<and> accepted s' = accepted s \<and> finished s' = finished s))"
  using submit_execution [of env pick sel ctx task s r q] run_execution [of env now priority pick w s w' q W]
    tick_execution [of oor t s stops q env] unfolding same_clients_def by blast
theorem calls_are_interleavings_witness:
  "\<exists>p q s'. NewPool 8 (Some (NewConfig [WithTaskQueueSize 1, WithWorkerNumCapacity 2])) ([], []) = Some p \<and>
     submit example_env None 0 (Background example_env) (TaskFunc (Some 1)) p = Some (Accepted, q) \<and>
     (conc_step example_env)\<^sup>*\<^sup>* (conc_init p) s' \<and> shared s' = q \<and> accepted s' = {#Some (TaskFunc (Some 1))#}"
proof -
  obtain m and p :: "(nat, unit, nat, nat, example_world) Pool" where
    p: "NewPool 8 (Some (NewConfig [WithTaskQueueSize 1, WithWorkerNumCapacity 2])) ([], []) = Some p" "pool_inv m [] p"
      "\<not> closed p" "workMode (config p) = BLOCK" by (rule small_pool)
  let ?t = "TaskFunc (Some 1)"
  obtain q where q: "submit example_env None 0 (Background example_env) ?t p = Some (Accepted, q)"
    using one_accepted [OF p(2-4), of ?t example_env None 0 "Background example_env"] by auto
  then have "submit example_env None 0 (Background example_env) ?t (shared (conc_init p)) = Some (Accepted, q)"
    by (simp add: conc_init_def)
  with calls_are_interleavings [of ?t example_env None 0 "Background example_env" "conc_init p" Accepted q, THEN conjunct1]
  obtain s' where "(conc_step example_env)\<^sup>*\<^sup>* (conc_init p) s'" "shared s' = q" "accepted s' = {#Some ?t#}"
    by (auto simp: conc_init_def gained_def)
  then show ?thesis using p(1) q by blast
qed

text \<open>
  C7. The ticks the scaler makes drain the pool, whatever the schedule. From a reachable state
  of rest, as long as tasks are queued: a tick, at any time and with any conversion of
  out-of-range floats, asks for a worker per pending task up to the capacity; after it the
  goroutines come to rest again by any schedule, with fewer pending tasks. So the number of
  ticks is bounded by the pending tasks, and where no tick follows every submission has
  returned and every accepted task has finished. (For periods up to \<open>2^44\<close> ns, almost five
  hours, and up to \<open>2^62\<close> pending tasks, so that the computation does not overflow.)
\<close>

theorem scaler_ticks_drain_pool:
  assumes "config_valid c" and "taskQueueSize c < 2 ^ 62" and "shards_want procs c \<le> 2 ^ 62"
    and "NewPool procs (Some c) w = Some p" and "scalerPeriod c \<le> 2 ^ 44"
    and "conc_reach env p s" and "resting env s" and "pendingTasks (shared s) \<le> 2 ^ 62" and "(scaler_round env oor ^^ r) s s'"
  shows "pendingTasks (shared s') + int r \<le> pendingTasks (shared s) \<and>
    (if queuedTasks (shared s') = 0
     then pendingTasks (shared s') = 0 \<and> accepted s' = finished s' \<and> (\<forall>x\<in>#submitters s'. \<exists>b. snd (snd x) = PEnd b)
     else (\<forall>now z. \<exists>n. tick_request oor now ((shared s')\<lparr>lastZeroConsumeScale := z\<rparr>) = Some (n, z) \<and>
             min (pendingTasks (shared s')) (capacity (shared s')) \<le> n \<and> n \<le> capacity (shared s')) \<and>
          (\<exists>s''. scaler_round env oor s' s'') \<and>
          (\<forall>s''. scaler_round env oor s' s'' \<longrightarrow> pendingTasks (shared s'') < pendingTasks (shared s')))"
proof -
  obtain m where inv: "conc_inv m s" by (rule reach_inv [OF assms(1-4,6)])
  have p: "hists_ok p" "config p = c" using NewPool_scale_ok(1) [OF assms(1,4)] assms(4) by (auto simp: scale_ok_def NewPool_def split: option.splits)
  have "scaler_fit (shared s)" using reach_hists [OF assms(6) p(1)] p(2) assms(1,5,8) by (simp add: scaler_fit_def)
  from rounds_fit [OF assms(9) inv assms(7) this] have s': "conc_inv m s'" "resting env s'" "scaler_fit (shared s')"
    "pendingTasks (shared s') + int r \<le> pendingTasks (shared s)" by blast+
  have e: "\<exists>b. ph = PEnd b" if "ended ph" for ph using that by (cases ph) auto
  show ?thesis
  proof (cases "queuedTasks (shared s') = 0")
    case True
    then show ?thesis using s'(4) resting_stranded(3) [OF s'(1,2)] e unfolding drained_def by auto
  next
    case False
    have "pendingTasks (shared s'') < pendingTasks (shared s')" if "scaler_round env oor s' s''" for s''
      using tick_progress(2) [OF s'(1) round_tick [OF that s'(1,3)]] .
    then show ?thesis using False s'(4) rest_request [OF s'(1-3) False, of oor] scaler_round_exists [OF s'(1-3) False, of oor] by simp metis
  qed
qed

theorem scaler_ticks_drain_pool_witness:
  "\<exists>p s s'. NewPool 8 (Some (NewConfig [WithTaskQueueSize 1, WithWorkerNumCapacity 2])) ([], []) = Some p \<and>
     conc_reach example_env p s \<and> resting example_env s \<and> queuedTasks (shared s) = 1 \<and> pendingTasks (shared s) = 1 \<and>
     scaler_round example_env (\<lambda>_. 0) s s' \<and> pendingTasks (shared s') = 0 \<and> accepted s' = finished s'"
proof -
  obtain m and p :: "(nat, unit, nat, nat, example_world) Pool" where
    p: "NewPool 8 (Some (NewConfig [WithTaskQueueSize 1, WithWorkerNumCapacity 2])) ([], []) = Some p" "\<not> closed p" "pendingTasks p = 0"
    by (rule small_pool)
  obtain m' where inv: "conc_inv m' (conc_init p)" using conc_init_inv [OF small_config p(1)] by blast
  have "queuedTasks p = 0" using queued_at_most_pending [OF inv] p(3) by (simp add: conc_init_def)
  from stranded_task [OF inv p(2) this, of example_env] obtain s where s: "conc_reach example_env p s" "resting example_env s"
    "queuedTasks (shared s) = 1" "pendingTasks (shared s) = 1" by blast
  have period: "scalerPeriod (NewConfig [WithTaskQueueSize 1, WithWorkerNumCapacity 2] :: (nat, unit, nat, nat, example_world) PanicHandler Config) \<le> 2 ^ 44"
    by (simp add: NewConfig_def WithTaskQueueSize_def WithWorkerNumCapacity_def config_consts)
  have pend: "pendingTasks (shared s) \<le> 2 ^ 62" using s(4) by simp
  note drain = scaler_ticks_drain_pool [OF small_config p(1) period s(1,2) pend, where oor = "\<lambda>_. 0"]
  obtain s' where s': "scaler_round example_env (\<lambda>_. 0) s s'" using drain [where r = 0 and s' = s] s(3) by auto
  have "pendingTasks (shared s') \<le> 0" using drain [where r = 1 and s' = s'] s' s(4) by auto
  moreover have "conc_inv m' s'" by (rule conc_run_inv [OF scaler_round_conc [OF s'] conc_reach_inv [OF s(1) inv]])
  ultimately have "queuedTasks (shared s') = 0" using queued_at_most_pending [of m' s'] by linarith
  then have "pendingTasks (shared s') = 0 \<and> accepted s' = finished s'" using drain [where r = 1 and s' = s'] s' by auto
  then show ?thesis using p(1) s s' by blast
qed

text \<open>
  C24. The capacity is not kept, although it is documented as a maximum: for every capacity
  below the largest \<^verbatim>\<open>int64\<close> there is an execution, of submissions and the goroutines' own
  steps alone, in which a cold start counts its worker between the scaler's load of the
  running count and its add, and one worker more than the capacity runs. The tick asks for
  exactly what \<^verbatim>\<open>scaleIfNeeded\<close> computes from the tasks pending at that time.
\<close>

theorem capacity_exceeded_by_cold_start:
  assumes "config_valid c" and "taskQueueSize c < 2 ^ 62" and "shards_want procs c \<le> 2 ^ 62"
    and "NewPool procs (Some c) w = Some p" and "workerNumCapacity c < MaxInt64"
  shows "\<exists>s. (real_step env oor)\<^sup>*\<^sup>* (conc_init p) s \<and> capacity p = workerNumCapacity c \<and>
    runningWorkersNum (shared s) = capacity p + 1 \<and> int (\<Sum>ph\<in>#workers s. worker_duty ph) = capacity p + 1"
proof -
  obtain m where inv: "conc_inv m (conc_init p)" using conc_init_inv [OF assms(1-4)] by blast
  note sc = NewPool_scale_ok [OF assms(1,4)]
  have p: "\<not> closed p" "config p = c" "pendingTasks p = 0" using assms(4) by (auto simp: NewPool_def split: option.splits)
  then obtain s where s: "(real_step env oor)\<^sup>*\<^sup>* (conc_init p) s" "scalerAt s = KLaunch 0"
    "\<forall>x\<in>#submitters s. submit_duty (snd (snd x)) = 0" "runningWorkersNum (shared s) = capacity p + 1"
    using overshoot [OF inv p(1) _ sc(4) p(3), of env oor] assms(1) by auto
  have "(\<Sum>x\<in>#submitters s. submit_duty (snd (snd x))) = 0" using s(3) by (simp add: sum_mset_0_iff)
  then have "on_duty s = (\<Sum>ph\<in>#workers s. worker_duty ph)" using s(2) by (simp add: on_duty_def)
  moreover have "count_ok s" using conc_run_inv [OF real_run_conc [OF s(1)] inv] by (simp add: conc_inv_def)
  ultimately show ?thesis using s(1,4) sc(2) unfolding count_ok_def by metis
qed

theorem capacity_exceeded_by_cold_start_witness:
  "\<exists>p s. NewPool 8 (Some (NewConfig [WithTaskQueueSize 1, WithWorkerNumCapacity 2])) ([], []) = Some p \<and>
     (real_step example_env (\<lambda>_. 0))\<^sup>*\<^sup>* (conc_init p) s \<and> (\<Sum>ph\<in>#workers s. worker_duty ph) = 3"
proof -
  obtain m and p :: "(nat, unit, nat, nat, example_world) Pool" where
    p: "NewPool 8 (Some (NewConfig [WithTaskQueueSize 1, WithWorkerNumCapacity 2])) ([], []) = Some p" "capacity p = 2"
    by (rule small_pool)
  have "workerNumCapacity (NewConfig [WithTaskQueueSize 1, WithWorkerNumCapacity 2] :: (nat, unit, nat, nat, example_world) PanicHandler Config) < MaxInt64"
    by (simp add: NewConfig_def WithTaskQueueSize_def WithWorkerNumCapacity_def)
  from capacity_exceeded_by_cold_start [OF small_config p(1) this, of example_env "\<lambda>_. 0"] obtain s where
    s: "(real_step example_env (\<lambda>_. 0))\<^sup>*\<^sup>* (conc_init p) s" "int (\<Sum>ph\<in>#workers s. worker_duty ph) = capacity p + 1" by blast
  have "(\<Sum>ph\<in>#workers s. worker_duty ph) = 3" using s(2) unfolding p(2) by linarith
  then show ?thesis using p(1) s(1) by blast
qed

end
