(* ===== verification/Drain.thy ===== *)
theory Drain
  imports Go_Prelude
begin

text \<open>
  The completion protocol of the pool (\<^verbatim>\<open>pool.go\<close>: \<^verbatim>\<open>addPending\<close>, \<^verbatim>\<open>done\<close>,
  \<^verbatim>\<open>Wait\<close>): a counter of pending tasks, and a channel that \<^verbatim>\<open>Wait\<close> publishes under
  \<^verbatim>\<open>drainMu\<close> and the \<^verbatim>\<open>done\<close> that reaches zero closes. Every atomic access is a step
  of its own, so that the counter may change between the statements of a critical section.

  A goroutine is used once: for one task, from \<^verbatim>\<open>addPending\<close> to the end of its
  \<^verbatim>\<open>done\<close>, or for one call of \<^verbatim>\<open>Wait\<close>. The program counters of \<^verbatim>\<open>Wait\<close> carry,
  as a history variable, the tasks that were pending when it read the counter.
\<close>

section \<open>State\<close>

datatype drain_pc =
    DIdle
  | DTask             \<comment> \<open>a registered task that has not reached its \<^verbatim>\<open>done\<close>\<close>
  | DDec              \<comment> \<open>\<^verbatim>\<open>done\<close> took the counter to zero and wants \<^verbatim>\<open>drainMu\<close>\<close>
  | DLocked           \<comment> \<open>\<^verbatim>\<open>done\<close> holds \<^verbatim>\<open>drainMu\<close>\<close>
  | DClose            \<comment> \<open>\<^verbatim>\<open>done\<close> saw zero again and will close the channel\<close>
  | DOver
  | WLock             \<comment> \<open>\<^verbatim>\<open>Wait\<close> wants \<^verbatim>\<open>drainMu\<close>\<close>
  | WLocked
  | WCreate "nat set" \<comment> \<open>\<^verbatim>\<open>Wait\<close> saw a pending task\<close>
  | WBlocked nat "nat set"
  | WReturned "nat set"

record drain =
  pendingTasks :: int
  drainMu :: "nat option"
  drainCh :: "nat option"
  closedChs :: "nat set"
  freshCh :: nat
  panicked :: bool
  dpcs :: "nat \<Rightarrow> drain_pc"

definition drain_init :: drain where
  "drain_init =
     \<lparr>pendingTasks = 0, drainMu = None, drainCh = None, closedChs = {}, freshCh = 0,
      panicked = False, dpcs = (\<lambda>_. DIdle)\<rparr>"

abbreviation set_pc :: "nat \<Rightarrow> drain_pc \<Rightarrow> drain \<Rightarrow> drain" where
  "set_pc t pc s \<equiv> s\<lparr>dpcs := (dpcs s)(t := pc)\<rparr>"

definition tasks :: "drain \<Rightarrow> nat set" where
  "tasks s = {u. dpcs s u = DTask}"

section \<open>The statements of addPending, done and Wait\<close>

definition addPending :: "nat \<Rightarrow> drain \<Rightarrow> drain" where
  "addPending t s = set_pc t DTask (s\<lparr>pendingTasks := pendingTasks s + 1\<rparr>)"

definition done_dec :: "nat \<Rightarrow> drain \<Rightarrow> drain" where
  "done_dec t s =
     (let n = pendingTasks s - 1
      in set_pc t (if n \<noteq> 0 then DOver else DDec) (s\<lparr>pendingTasks := n\<rparr>))"

definition done_lock :: "nat \<Rightarrow> drain \<Rightarrow> drain" where
  "done_lock t s = set_pc t DLocked (s\<lparr>drainMu := Some t\<rparr>)"

definition done_load :: "nat \<Rightarrow> drain \<Rightarrow> drain" where
  "done_load t s =
     (if pendingTasks s = 0 \<and> drainCh s \<noteq> None then set_pc t DClose s
      else set_pc t DOver (s\<lparr>drainMu := None\<rparr>))"

text \<open>\<^verbatim>\<open>close\<close> of a nil or an already closed channel panics.\<close>

definition done_close :: "nat \<Rightarrow> drain \<Rightarrow> drain" where
  "done_close t s =
     (case drainCh s of
        None \<Rightarrow> s\<lparr>panicked := True\<rparr>
      | Some c \<Rightarrow>
          set_pc t DOver
            (s\<lparr>panicked := panicked s \<or> c \<in> closedChs s, closedChs := insert c (closedChs s),
               drainCh := None, drainMu := None\<rparr>))"

definition wait_call :: "nat \<Rightarrow> drain \<Rightarrow> drain" where
  "wait_call t s = set_pc t WLock s"

definition wait_lock :: "nat \<Rightarrow> drain \<Rightarrow> drain" where
  "wait_lock t s = set_pc t WLocked (s\<lparr>drainMu := Some t\<rparr>)"

definition wait_load :: "nat \<Rightarrow> drain \<Rightarrow> drain" where
  "wait_load t s =
     (if pendingTasks s = 0 then set_pc t (WReturned (tasks s)) (s\<lparr>drainMu := None\<rparr>)
      else set_pc t (WCreate (tasks s)) s)"

definition wait_create :: "nat \<Rightarrow> nat set \<Rightarrow> drain \<Rightarrow> drain" where
  "wait_create t D s =
     (case drainCh s of
        None \<Rightarrow> set_pc t (WBlocked (freshCh s) D)
                  (s\<lparr>drainCh := Some (freshCh s), freshCh := freshCh s + 1, drainMu := None\<rparr>)
      | Some c \<Rightarrow> set_pc t (WBlocked c D) (s\<lparr>drainMu := None\<rparr>))"

lemmas drain_defs = addPending_def done_dec_def done_lock_def done_load_def done_close_def
  wait_call_def wait_lock_def wait_load_def wait_create_def

text \<open>Steps the clients cause, and steps the protocol takes by itself.\<close>

inductive drain_client :: "drain \<Rightarrow> drain \<Rightarrow> bool" where
  "dpcs s t = DIdle \<Longrightarrow> drain_client s (addPending t s)"
| "dpcs s t = DTask \<Longrightarrow> drain_client s (done_dec t s)"
| "dpcs s t = DIdle \<Longrightarrow> drain_client s (wait_call t s)"

inductive drain_int :: "drain \<Rightarrow> drain \<Rightarrow> bool" where
  "dpcs s t = DDec \<Longrightarrow> drainMu s = None \<Longrightarrow> drain_int s (done_lock t s)"
| "dpcs s t = DLocked \<Longrightarrow> drain_int s (done_load t s)"
| "dpcs s t = DClose \<Longrightarrow> drain_int s (done_close t s)"
| "dpcs s t = WLock \<Longrightarrow> drainMu s = None \<Longrightarrow> drain_int s (wait_lock t s)"
| "dpcs s t = WLocked \<Longrightarrow> drain_int s (wait_load t s)"
| "dpcs s t = WCreate D \<Longrightarrow> drain_int s (wait_create t D s)"
| "dpcs s t = WBlocked c D \<Longrightarrow> c \<in> closedChs s \<Longrightarrow> drain_int s (set_pc t (WReturned D) s)"

inductive drain_reach :: "drain \<Rightarrow> bool" where
  init: "drain_reach drain_init"
| ext: "drain_reach s \<Longrightarrow> drain_client s s' \<Longrightarrow> drain_reach s'"
| int: "drain_reach s \<Longrightarrow> drain_int s s' \<Longrightarrow> drain_reach s'"

section \<open>Invariant\<close>

text \<open>Who holds \<^verbatim>\<open>drainMu\<close>, and who is going to close the published channel.\<close>

fun holds_mu :: "drain_pc \<Rightarrow> bool" where
  "holds_mu DLocked \<longleftrightarrow> True"
| "holds_mu DClose \<longleftrightarrow> True"
| "holds_mu WLocked \<longleftrightarrow> True"
| "holds_mu (WCreate D) \<longleftrightarrow> True"
| "holds_mu _ \<longleftrightarrow> False"

definition closing :: "drain_pc \<Rightarrow> bool" where
  "closing pc \<longleftrightarrow> pc = DDec \<or> pc = DLocked \<or> pc = DClose"

definition will_close :: "drain \<Rightarrow> bool" where
  "will_close s \<longleftrightarrow> 0 < pendingTasks s \<or> (\<exists>u. closing (dpcs s u))"

fun wait_ok :: "drain \<Rightarrow> drain_pc \<Rightarrow> bool" where
  "wait_ok s DClose \<longleftrightarrow> drainCh s \<noteq> None"
| "wait_ok s (WCreate D) \<longleftrightarrow> D \<inter> {u. dpcs s u = DIdle} = {} \<and> will_close s"
| "wait_ok s (WBlocked c D) \<longleftrightarrow>
     D \<inter> {u. dpcs s u = DIdle} = {} \<and> (c \<in> closedChs s \<or> drainCh s = Some c) \<and>
     (c \<in> closedChs s \<or> (\<exists>u. dpcs s u = DClose) \<longrightarrow> D \<inter> tasks s = {})"
| "wait_ok s (WReturned D) \<longleftrightarrow> D \<inter> {u. dpcs s u = DIdle} = {} \<and> D \<inter> tasks s = {}"
| "wait_ok s _ \<longleftrightarrow> True"

definition drain_inv :: "drain \<Rightarrow> bool" where
  "drain_inv s \<longleftrightarrow>
     finite {u. dpcs s u \<noteq> DIdle} \<and> pendingTasks s = int (card (tasks s)) \<and> \<not> panicked s \<and>
     (\<forall>u. holds_mu (dpcs s u) \<longleftrightarrow> drainMu s = Some u) \<and>
     (\<forall>c\<in>closedChs s. c < freshCh s) \<and>
     (\<forall>c. drainCh s = Some c \<longrightarrow> c < freshCh s \<and> c \<notin> closedChs s \<and> will_close s) \<and>
     (\<forall>u. wait_ok s (dpcs s u))"

lemma tasks_upd: "tasks (set_pc t pc s) = (if pc = DTask then insert t (tasks s) else tasks s - {t})"
  by (auto simp: tasks_def)

lemma finite_tasks: "drain_inv s \<Longrightarrow> finite (tasks s)"
  by (rule finite_subset [of _ "{u. dpcs s u \<noteq> DIdle}"]) (auto simp: tasks_def drain_inv_def)

lemma pending_pos_iff: "drain_inv s \<Longrightarrow> 0 < pendingTasks s \<longleftrightarrow> tasks s \<noteq> {}"
  using finite_tasks [of s] by (auto simp: drain_inv_def card_gt_0_iff)

lemma pending_zero: "drain_inv s \<Longrightarrow> pendingTasks s = 0 \<longleftrightarrow> tasks s = {}"
  using finite_tasks [of s] by (auto simp: drain_inv_def)

lemma finite_active: "finite {u. dpcs s u \<noteq> DIdle} \<Longrightarrow> finite {u. u \<noteq> t \<longrightarrow> dpcs s u \<noteq> DIdle}"
  by (rule finite_subset [of _ "insert t {u. dpcs s u \<noteq> DIdle}"]) auto

text \<open>What a step that leaves the channel alone preserves of the waiters.\<close>

lemma wait_ok_frame:
  assumes "wait_ok s pc" and "\<And>u. dpcs s' u = DIdle \<Longrightarrow> dpcs s u = DIdle"
    and "\<And>u. dpcs s' u = DTask \<Longrightarrow> dpcs s u = DTask \<or> dpcs s u = DIdle"
    and "drainCh s' = drainCh s" and "closedChs s' = closedChs s"
    and "(\<exists>u. dpcs s' u = DClose) \<longrightarrow> (\<exists>u. dpcs s u = DClose)" and "\<And>D. pc = WCreate D \<Longrightarrow> will_close s \<Longrightarrow> will_close s'"
  shows "wait_ok s' pc"
  using assms by (cases pc) (fastforce simp: tasks_def)+

lemma invD:
  assumes "drain_inv s"
  shows "finite {u. dpcs s u \<noteq> DIdle}" and "pendingTasks s = int (card (tasks s))" and "\<not> panicked s"
    and "holds_mu (dpcs s u) \<longleftrightarrow> drainMu s = Some u" and "c \<in> closedChs s \<Longrightarrow> c < freshCh s"
    and "drainCh s = Some c \<Longrightarrow> c < freshCh s \<and> c \<notin> closedChs s \<and> will_close s"
    and "wait_ok s (dpcs s u)"
  using assms unfolding drain_inv_def by blast+

text \<open>
  A step that moves one goroutine \<open>t\<close> to the counter \<open>pc\<close> and leaves the channel alone
  keeps the invariant under these conditions.
\<close>

lemma inv_frame:
  assumes inv: "drain_inv s"
    and s': "dpcs s' = (dpcs s)(t := pc)" "drainCh s' = drainCh s" "closedChs s' = closedChs s"
      "freshCh s' = freshCh s" "panicked s' = panicked s"
    and pend: "pendingTasks s' = int (card (tasks s'))"
    and mu: "\<And>u. holds_mu (dpcs s' u) \<longleftrightarrow> drainMu s' = Some u"
    and pc: "pc \<noteq> DIdle" "pc = DTask \<longrightarrow> dpcs s t = DIdle" "pc \<noteq> DClose"
    and wc: "drainCh s \<noteq> None \<or> (\<exists>u D. u \<noteq> t \<and> dpcs s u = WCreate D) \<Longrightarrow> will_close s \<Longrightarrow> will_close s'"
    and wt: "wait_ok s' pc"
  shows "drain_inv s'"
proof -
  have "wait_ok s' (dpcs s u)" if "u \<noteq> t" for u
    by (rule wait_ok_frame [OF invD(7) [OF inv]]) (use s' pc wc that in \<open>auto split: if_splits\<close>)
  moreover have "finite {u. dpcs s' u \<noteq> DIdle}"
    using finite_active [OF invD(1) [OF inv], of t] pc(1) by (simp add: s'(1) if_distrib cong: if_cong)
  ultimately show ?thesis
    unfolding drain_inv_def using invD(3,5,6) [OF inv] s' pend mu wc wt by auto
qed

lemma card_tasks_remove: "drain_inv s \<Longrightarrow> t \<in> tasks s \<Longrightarrow> int (card (tasks s - {t})) = pendingTasks s - 1"
  using finite_tasks [of s] card_gt_0_iff [of "tasks s"] by (auto simp: invD(2) of_nat_diff)

lemma will_close_move:
  assumes "will_close s" and "dpcs s' = (dpcs s)(t := pc)" and "pendingTasks s \<le> pendingTasks s'"
    and "closing (dpcs s t) \<Longrightarrow> closing pc"
  shows "will_close s'"
proof (cases "0 < pendingTasks s")
  case False
  then obtain u where u: "closing (dpcs s u)" using assms(1) by (auto simp: will_close_def)
  then have "closing (dpcs s' u)" using assms(2,4) by (cases "u = t") auto
  then show ?thesis by (auto simp: will_close_def)
qed (use assms(3) in \<open>auto simp: will_close_def\<close>)

lemma inv_addPending:
  assumes "drain_inv s" and "dpcs s t = DIdle"
  shows "drain_inv (addPending t s)"
proof (rule inv_frame [OF assms(1), where t = t and pc = DTask])
  have "tasks (addPending t s) = insert t (tasks s)" and "t \<notin> tasks s"
    using assms(2) by (auto simp: addPending_def tasks_def)
  then show "pendingTasks (addPending t s) = int (card (tasks (addPending t s)))"
    using finite_tasks [OF assms(1)] by (simp add: invD(2) [OF assms(1)] addPending_def)
  show "will_close (addPending t s)" if "will_close s"
    by (rule will_close_move [OF that, of _ t DTask]) (use assms(2) in \<open>auto simp: addPending_def closing_def\<close>)
qed (use assms invD(4) [OF assms(1)] invD(4) [OF assms(1), of t] in \<open>auto simp: addPending_def\<close>)

lemma inv_done_dec:
  assumes "drain_inv s" and "dpcs s t = DTask"
  shows "drain_inv (done_dec t s)"
proof (rule inv_frame [OF assms(1), where t = t and pc = "if pendingTasks s - 1 \<noteq> 0 then DOver else DDec"])
  have t: "t \<in> tasks s" using assms(2) by (simp add: tasks_def)
  have "tasks (done_dec t s) = tasks s - {t}"
    by (auto simp: done_dec_def tasks_def Let_def)
  then show "pendingTasks (done_dec t s) = int (card (tasks (done_dec t s)))"
    using card_tasks_remove [OF assms(1) t] by (simp add: done_dec_def Let_def)
  have "0 < pendingTasks s" using pending_pos_iff [OF assms(1)] t by blast
  then show "will_close (done_dec t s)"
    by (auto simp: will_close_def done_dec_def Let_def closing_def)
qed (use assms invD(4) [OF assms(1)] invD(4) [OF assms(1), of t] in \<open>auto simp: done_dec_def Let_def\<close>)

text \<open>A step of the protocol itself: no task is registered or finished.\<close>

lemma inv_move:
  assumes inv: "drain_inv s"
    and s': "dpcs s' = (dpcs s)(t := pc)" "drainCh s' = drainCh s" "closedChs s' = closedChs s"
      "freshCh s' = freshCh s" "panicked s' = panicked s" "pendingTasks s' = pendingTasks s"
    and mu: "\<And>u. holds_mu (dpcs s' u) \<longleftrightarrow> drainMu s' = Some u"
    and pc: "pc \<noteq> DIdle" "pc \<noteq> DTask" "pc \<noteq> DClose" "dpcs s t \<noteq> DTask"
    and cl: "closing (dpcs s t) \<Longrightarrow> drainCh s \<noteq> None \<or> (\<exists>u D. u \<noteq> t \<and> dpcs s u = WCreate D) \<Longrightarrow> closing pc \<or> 0 < pendingTasks s"
    and wt: "wait_ok s' pc"
  shows "drain_inv s'"
proof (rule inv_frame [OF inv s'(1-5) _ mu pc(1) _ pc(3) _ wt])
  have "tasks s' = tasks s" using pc s'(1) by (auto simp: tasks_def)
  then show "pendingTasks s' = int (card (tasks s'))" using invD(2) [OF inv] s'(6) by simp
  assume "drainCh s \<noteq> None \<or> (\<exists>u D. u \<noteq> t \<and> dpcs s u = WCreate D)" "will_close s"
  then show "will_close s'"
    using cl will_close_move [OF _ s'(1)] s'(6) by (cases "0 < pendingTasks s") (auto simp: will_close_def)
qed (use pc in simp)

lemma mu_free: "drain_inv s \<Longrightarrow> drainMu s = None \<Longrightarrow> \<not> holds_mu (dpcs s u)"
  using invD(4) [of s u] by simp

lemma mu_held: "drain_inv s \<Longrightarrow> holds_mu (dpcs s t) \<Longrightarrow> drainMu s = Some t \<and> (\<forall>u. holds_mu (dpcs s u) \<longleftrightarrow> u = t)"
  using invD(4) [of s] by auto

lemma inv_wait_call:
  assumes "drain_inv s" and "dpcs s t = DIdle"
  shows "drain_inv (wait_call t s)"
  by (rule inv_move [OF assms(1), where t = t and pc = WLock])
    (use assms invD(4) [OF assms(1)] invD(4) [OF assms(1), of t] in \<open>auto simp: wait_call_def closing_def\<close>)

lemma inv_done_lock:
  assumes "drain_inv s" and "dpcs s t = DDec" and "drainMu s = None"
  shows "drain_inv (done_lock t s)"
  by (rule inv_move [OF assms(1), where t = t and pc = DLocked])
    (use assms mu_free [OF assms(1,3)] in \<open>auto simp: done_lock_def closing_def\<close>)

lemma inv_wait_lock:
  assumes "drain_inv s" and "dpcs s t = WLock" and "drainMu s = None"
  shows "drain_inv (wait_lock t s)"
  by (rule inv_move [OF assms(1), where t = t and pc = WLocked])
    (use assms mu_free [OF assms(1,3)] in \<open>auto simp: wait_lock_def closing_def\<close>)

lemma inv_wait_load:
  assumes "drain_inv s" and "dpcs s t = WLocked"
  shows "drain_inv (wait_load t s)"
proof -
  have mu: "drainMu s = Some t" "holds_mu (dpcs s u) \<longleftrightarrow> u = t" for u
    using mu_held [OF assms(1), of t] assms(2) by auto
  have t0: "tasks s \<inter> {u. dpcs s u = DIdle} = {}" by (auto simp: tasks_def)
  show ?thesis
  proof (cases "pendingTasks s = 0")
    case True
    then have "tasks s = {}" using pending_zero [OF assms(1)] by simp
    then show ?thesis
      by (intro inv_move [OF assms(1), where t = t and pc = "WReturned (tasks s)"])
        (use assms mu True in \<open>auto simp: wait_load_def closing_def\<close>)
  next
    case False
    then have "0 < pendingTasks s" using invD(2) [OF assms(1)] by simp
    then show ?thesis
      by (intro inv_move [OF assms(1), where t = t and pc = "WCreate (tasks s)"])
        (use assms mu False t0 in \<open>auto simp: wait_load_def closing_def will_close_def\<close>)
  qed
qed

lemma inv_wait_wake:
  assumes "drain_inv s" and "dpcs s t = WBlocked c D" and "c \<in> closedChs s"
  shows "drain_inv (set_pc t (WReturned D) s)"
proof (rule inv_move [OF assms(1), where t = t and pc = "WReturned D"])
  have "wait_ok s (WBlocked c D)" using invD(7) [OF assms(1), of t] assms(2) by simp
  then show "wait_ok (set_pc t (WReturned D) s) (WReturned D)" using assms(3) by (auto simp: tasks_def)
qed (use assms invD(4) [OF assms(1)] invD(4) [OF assms(1), of t] in \<open>auto simp: closing_def\<close>)

lemma inv_done_load:
  assumes inv: "drain_inv s" and "dpcs s t = DLocked"
  shows "drain_inv (done_load t s)"
proof (cases "pendingTasks s = 0 \<and> drainCh s \<noteq> None")
  case False
  have mu: "drainMu s = Some t" "holds_mu (dpcs s u) \<longleftrightarrow> u = t" for u
    using mu_held [OF inv, of t] assms(2) by auto
  have s': "done_load t s = set_pc t DOver (s\<lparr>drainMu := None\<rparr>)" using False by (auto simp: done_load_def)
  have "\<not> (\<exists>u D. u \<noteq> t \<and> dpcs s u = WCreate D)" using mu(2) by (metis holds_mu.simps(4))
  then have cl: "0 < pendingTasks s" if "drainCh s \<noteq> None \<or> (\<exists>u D. u \<noteq> t \<and> dpcs s u = WCreate D)"
    using that False invD(2) [OF inv] by auto
  show ?thesis
    unfolding s'
  proof (rule inv_move [OF inv, where t = t and pc = DOver])
    show "holds_mu (dpcs (set_pc t DOver (s\<lparr>drainMu := None\<rparr>)) u) \<longleftrightarrow>
        drainMu (set_pc t DOver (s\<lparr>drainMu := None\<rparr>)) = Some u" for u
      using mu(2) [of u] by simp
  qed (use assms cl in simp_all)
next
  case True
  let ?s = "done_load t s"
  have s': "?s = set_pc t DClose s" using True by (simp add: done_load_def)
  have mu: "drainMu s = Some t" "holds_mu (dpcs s u) \<longleftrightarrow> u = t" for u
    using mu_held [OF inv, of t] assms(2) by auto
  have t0: "tasks s = {}" using True pending_zero [OF inv] by simp
  have t1: "tasks ?s = {}" using t0 by (auto simp: s' tasks_def)
  have "wait_ok ?s (dpcs s u)" if "u \<noteq> t" for u
  proof -
    have "\<not> holds_mu (dpcs s u)" using that mu by simp
    then show ?thesis using invD(7) [OF inv, of u] t1 assms(2) that by (cases "dpcs s u") (auto simp: s')
  qed
  moreover have "wait_ok ?s DClose" using True by (simp add: s')
  moreover have "will_close ?s" by (auto simp: will_close_def closing_def s')
  moreover have "finite {u. dpcs ?s u \<noteq> DIdle}"
    using finite_active [OF invD(1) [OF inv], of t] by (simp add: s' if_distrib cong: if_cong)
  ultimately show ?thesis
    unfolding drain_inv_def using invD(3,5,6) [OF inv] mu t1 True by (auto simp: s')
qed

lemma inv_done_close:
  assumes inv: "drain_inv s" and "dpcs s t = DClose"
  shows "drain_inv (done_close t s)"
proof -
  let ?s = "done_close t s"
  have mu: "drainMu s = Some t" "holds_mu (dpcs s u) \<longleftrightarrow> u = t" for u
    using mu_held [OF inv, of t] assms(2) by auto
  obtain c where c: "drainCh s = Some c" using invD(7) [OF inv, of t] assms(2) by auto
  have s': "drainCh ?s = None" "closedChs ?s = insert c (closedChs s)" "dpcs ?s = (dpcs s)(t := DOver)"
    "drainMu ?s = None" "freshCh ?s = freshCh s" "pendingTasks ?s = pendingTasks s" "panicked ?s \<longleftrightarrow> False"
    using c invD(3,6) [OF inv] by (simp_all add: done_close_def)
  have ts: "tasks ?s = tasks s" using assms(2) s'(3) by (auto simp: tasks_def)
  have "wait_ok ?s (dpcs s u)" if "u \<noteq> t" for u
  proof -
    have "\<not> holds_mu (dpcs s u)" using that mu by simp
    then show ?thesis
      using invD(7) [OF inv, of u] ts s' c that assms(2) by (cases "dpcs s u") (auto simp: split: if_splits)
  qed
  moreover have "finite {u. dpcs ?s u \<noteq> DIdle}"
    using finite_active [OF invD(1) [OF inv], of t] by (simp add: s' if_distrib cong: if_cong)
  ultimately show ?thesis
    unfolding drain_inv_def using invD(2,5,6) [OF inv] mu ts c s' by auto
qed

lemma inv_wait_create:
  assumes inv: "drain_inv s" and pc: "dpcs s t = WCreate D"
  shows "drain_inv (wait_create t D s)"
proof -
  have mu: "drainMu s = Some t" "holds_mu (dpcs s u) \<longleftrightarrow> u = t" for u
    using mu_held [OF inv, of t] pc by auto
  have w: "D \<inter> {u. dpcs s u = DIdle} = {}" "will_close s" using invD(7) [OF inv, of t] pc by simp_all
  have nc: "dpcs s u \<noteq> DClose" for u
  proof
    assume d: "dpcs s u = DClose"
    then have "u = t" using mu(2) [of u] by simp
    with d pc show False by simp
  qed
  show ?thesis
  proof (cases "drainCh s")
    case (Some c)
    then show ?thesis
      by (intro inv_move [OF inv, where t = t and pc = "WBlocked c D"])
        (use pc mu w nc invD(6) [OF inv] in \<open>auto simp: wait_create_def closing_def\<close>)
  next
    case None
    let ?s = "wait_create t D s" and ?c = "freshCh s"
    have s': "drainCh ?s = Some ?c" "closedChs ?s = closedChs s" "dpcs ?s = (dpcs s)(t := WBlocked ?c D)"
      "drainMu ?s = None" "freshCh ?s = ?c + 1" "pendingTasks ?s = pendingTasks s" "panicked ?s = panicked s"
      using None by (simp_all add: wait_create_def)
    have ts: "tasks ?s = tasks s" using pc s'(3) by (auto simp: tasks_def)
    have fresh: "?c \<notin> closedChs s" using invD(5) [OF inv] by blast
    have "wait_ok ?s (dpcs s u)" if "u \<noteq> t" for u
    proof -
      have "\<not> holds_mu (dpcs s u)" using that mu by simp
      then show ?thesis
        using invD(7) [OF inv, of u] ts s' None that nc by (cases "dpcs s u") (auto simp: split: if_splits)
    qed
    moreover have "wait_ok ?s (WBlocked ?c D)" using s' w nc fresh pc by (auto split: if_splits)
    moreover have "will_close ?s"
      by (rule will_close_move [OF w(2) s'(3)]) (use s' pc in \<open>auto simp: closing_def\<close>)
    moreover have "finite {u. dpcs ?s u \<noteq> DIdle}"
      using finite_active [OF invD(1) [OF inv], of t] by (simp add: s' if_distrib cong: if_cong)
    ultimately show ?thesis
      unfolding drain_inv_def using invD(2,3,5) [OF inv] mu ts s' fresh by (auto simp: less_Suc_eq)
  qed
qed

lemma drain_init_inv: "drain_inv drain_init"
  by (simp add: drain_inv_def drain_init_def tasks_def)

lemma drain_client_inv: "drain_client s s' \<Longrightarrow> drain_inv s \<Longrightarrow> drain_inv s'"
  by (cases rule: drain_client.cases) (auto simp: inv_addPending inv_done_dec inv_wait_call)

lemma drain_int_inv: "drain_int s s' \<Longrightarrow> drain_inv s \<Longrightarrow> drain_inv s'"
  by (cases rule: drain_int.cases)
    (auto simp: inv_done_lock inv_done_load inv_done_close inv_wait_lock inv_wait_load inv_wait_create inv_wait_wake)

lemma drain_reach_inv: "drain_reach s \<Longrightarrow> drain_inv s"
  by (induction rule: drain_reach.induct) (auto intro: drain_init_inv drain_client_inv drain_int_inv)

section \<open>Progress\<close>

text \<open>
  Every step of the protocol itself moves one goroutine closer to its end, so the
  protocol comes to rest; at rest with no task pending nobody is left waiting.
\<close>

fun drain_rank :: "drain_pc \<Rightarrow> nat" where
  "drain_rank WLock = 5"
| "drain_rank WLocked = 4"
| "drain_rank (WCreate D) = 3"
| "drain_rank (WBlocked c D) = 2"
| "drain_rank DDec = 3"
| "drain_rank DLocked = 2"
| "drain_rank DClose = 1"
| "drain_rank _ = 0"

definition drain_measure :: "drain \<Rightarrow> nat" where
  "drain_measure s = (\<Sum>u\<in>{u. dpcs s u \<noteq> DIdle}. drain_rank (dpcs s u))"

lemma drain_measure_less:
  assumes "finite {u. dpcs s u \<noteq> DIdle}" and "dpcs s t \<noteq> DIdle" and "dpcs s' = (dpcs s)(t := pc)"
    and "pc \<noteq> DIdle" and "drain_rank pc < drain_rank (dpcs s t)"
  shows "drain_measure s' < drain_measure s"
proof -
  let ?A = "{u. dpcs s u \<noteq> DIdle}"
  have A: "{u. dpcs s' u \<noteq> DIdle} = ?A" using assms(2,3,4) by auto
  have "drain_measure s' = drain_rank pc + (\<Sum>u\<in>?A - {t}. drain_rank (dpcs s u))"
    unfolding drain_measure_def A using assms(1-3) by (subst sum.remove [of _ t]) auto
  moreover have "drain_measure s = drain_rank (dpcs s t) + (\<Sum>u\<in>?A - {t}. drain_rank (dpcs s u))"
    unfolding drain_measure_def using assms(1,2) by (subst sum.remove [of _ t]) auto
  ultimately show ?thesis using assms(5) by simp
qed

text \<open>What an internal step does to the counters: one goroutine, and no task.\<close>

lemma drain_int_moves:
  assumes "drain_int s s'" and "drain_inv s"
  shows "\<exists>t pc. dpcs s' = (dpcs s)(t := pc) \<and> dpcs s t \<noteq> DIdle \<and> dpcs s t \<noteq> DTask \<and>
           pc \<noteq> DIdle \<and> pc \<noteq> DTask \<and> drain_rank pc < drain_rank (dpcs s t)"
  using assms(1)
proof cases
  case (2 t)
  then show ?thesis by (intro exI [of _ t] exI [of _ "dpcs s' t"]) (auto simp: done_load_def)
next
  case (3 t)
  then obtain c where "drainCh s = Some c" using invD(7) [OF assms(2), of t] by auto
  then show ?thesis using 3 by (intro exI [of _ t] exI [of _ DOver]) (simp add: done_close_def)
next
  case (5 t)
  then show ?thesis by (intro exI [of _ t] exI [of _ "dpcs s' t"]) (auto simp: wait_load_def)
next
  case (6 t D)
  then show ?thesis
    by (intro exI [of _ t] exI [of _ "dpcs s' t"]) (auto simp: wait_create_def split: option.splits)
qed (auto simp: done_lock_def wait_lock_def intro!: exI)

lemma drain_int_decreases: "drain_int s s' \<Longrightarrow> drain_inv s \<Longrightarrow> drain_measure s' < drain_measure s"
  using drain_int_moves [of s s'] drain_measure_less [OF invD(1)] by metis

lemma drain_int_tasks: "drain_int s s' \<Longrightarrow> drain_inv s \<Longrightarrow> tasks s' = tasks s"
  using drain_int_moves [of s s'] by (fastforce simp: tasks_def split: if_splits)

definition at_rest :: "drain \<Rightarrow> bool" where
  "at_rest s \<longleftrightarrow> (\<forall>s'. \<not> drain_int s s')"

lemma drain_reaches_rest:
  "drain_inv s \<Longrightarrow> \<exists>s'. drain_int\<^sup>*\<^sup>* s s' \<and> at_rest s'"
proof (induction "drain_measure s" arbitrary: s rule: less_induct)
  case less
  show ?case
  proof (cases "at_rest s")
    case False
    then obtain s1 where s1: "drain_int s s1" by (auto simp: at_rest_def)
    then obtain s' where "drain_int\<^sup>*\<^sup>* s1 s'" "at_rest s'"
      using less.hyps [OF drain_int_decreases [OF s1 less.prems]] drain_int_inv [OF s1 less.prems] by blast
    then show ?thesis using s1 by (meson converse_rtranclp_into_rtranclp)
  qed auto
qed

lemma drain_int_star:
  "drain_int\<^sup>*\<^sup>* s s' \<Longrightarrow> drain_inv s \<Longrightarrow> drain_inv s' \<and> tasks s' = tasks s"
  by (induction rule: rtranclp_induct) (auto simp: drain_int_inv drain_int_tasks)

fun finished :: "drain_pc \<Rightarrow> bool" where
  "finished DIdle \<longleftrightarrow> True"
| "finished DOver \<longleftrightarrow> True"
| "finished (WReturned D) \<longleftrightarrow> True"
| "finished _ \<longleftrightarrow> False"

lemma at_rest_finished:
  assumes inv: "drain_inv s" and rest: "at_rest s" and "tasks s = {}"
  shows "finished (dpcs s t)"
proof -
  have nohold: "\<not> holds_mu (dpcs s u)" for u
    using rest drain_int.intros(2,3,5,6) [of s u] unfolding at_rest_def by (cases "dpcs s u") auto
  have free: "drainMu s = None" using nohold invD(4) [OF inv] by (cases "drainMu s") auto
  have "dpcs s u \<noteq> DDec" "dpcs s u \<noteq> WLock" for u
    using rest drain_int.intros(1,4) [of s u] free unfolding at_rest_def by auto
  moreover from this nohold have "\<not> closing (dpcs s u)" for u
    by (metis closing_def holds_mu.simps(1,2))
  then have "\<not> will_close s"
    using assms(3) pending_zero [OF inv] by (auto simp: will_close_def)
  then have ch: "drainCh s = None" using invD(6) [OF inv] by (cases "drainCh s") auto
  moreover have "dpcs s t \<noteq> WBlocked c D" for c D
  proof
    assume b: "dpcs s t = WBlocked c D"
    then have "c \<in> closedChs s" using invD(7) [OF inv, of t] ch by simp
    with b rest drain_int.intros(7) [of s t c D] show False unfolding at_rest_def by blast
  qed
  moreover have "dpcs s t \<noteq> DTask" using assms(3) by (auto simp: tasks_def)
  ultimately show ?thesis using nohold [of t] by (cases "dpcs s t") auto
qed

section \<open>Properties\<close>

text \<open>
  \<^verbatim>\<open>Wait\<close> is sound under every interleaving: when a call of \<^verbatim>\<open>Wait\<close> has returned, every
  task that was pending when it read the counter has completed its \<^verbatim>\<open>done\<close>.
\<close>

theorem Wait_returns_drained:
  assumes "drain_reach s" and "dpcs s t = WReturned D" and "u \<in> D"
  shows "dpcs s u \<noteq> DTask \<and> dpcs s u \<noteq> DIdle"
  using invD(7) [OF drain_reach_inv [OF assms(1)], of t] assms(2,3) by (auto simp: tasks_def)

text \<open>A run in which one task is pending, a waiter blocks, and the task wakes it.\<close>

definition drain_example :: drain where
  "drain_example =
     set_pc 1 (WReturned {0}) (done_close 0 (done_load 0 (done_lock 0 (done_dec 0
       (wait_create 1 {0} (wait_load 1 (wait_lock 1 (wait_call 1 (addPending 0 drain_init)))))))))"

lemma drain_example_reach: "drain_reach drain_example"
proof -
  let ?s1 = "addPending 0 drain_init"
  have 1: "drain_reach ?s1"
    by (rule drain_reach.ext [OF drain_reach.init drain_client.intros(1)]) (simp add: drain_init_def)
  have 2: "drain_reach (wait_call 1 ?s1)" (is "drain_reach ?s2")
    by (rule drain_reach.ext [OF 1 drain_client.intros(3)]) (simp add: drain_init_def drain_defs)
  have 3: "drain_reach (wait_lock 1 ?s2)" (is "drain_reach ?s3")
    by (rule drain_reach.int [OF 2 drain_int.intros(4)]) (simp_all add: drain_init_def drain_defs)
  have 4: "drain_reach (wait_load 1 ?s3)" (is "drain_reach ?s4")
    by (rule drain_reach.int [OF 3 drain_int.intros(5)]) (simp add: drain_init_def drain_defs)
  have 5: "drain_reach (wait_create 1 {0} ?s4)" (is "drain_reach ?s5")
    by (rule drain_reach.int [OF 4 drain_int.intros(6)]) (auto simp: drain_init_def drain_defs tasks_def)
  have 6: "drain_reach (done_dec 0 ?s5)" (is "drain_reach ?s6")
    by (rule drain_reach.ext [OF 5 drain_client.intros(2)]) (simp add: drain_init_def drain_defs)
  have 7: "drain_reach (done_lock 0 ?s6)" (is "drain_reach ?s7")
    by (rule drain_reach.int [OF 6 drain_int.intros(1)]) (simp_all add: drain_init_def drain_defs)
  have 8: "drain_reach (done_load 0 ?s7)" (is "drain_reach ?s8")
    by (rule drain_reach.int [OF 7 drain_int.intros(2)]) (simp add: drain_init_def drain_defs)
  have 9: "drain_reach (done_close 0 ?s8)"
    by (rule drain_reach.int [OF 8 drain_int.intros(3)]) (simp add: drain_init_def drain_defs)
  show ?thesis
    unfolding drain_example_def
    by (rule drain_reach.int [OF 9 drain_int.intros(7) [where c = 0]]) (simp_all add: drain_init_def drain_defs)
qed

lemma drain_example_pc: "dpcs drain_example 1 = WReturned {0}"
  by (simp add: drain_example_def)

theorem Wait_returns_drained_witness:
  "dpcs drain_example 0 \<noteq> DTask \<and> dpcs drain_example 0 \<noteq> DIdle"
  using Wait_returns_drained [OF drain_example_reach drain_example_pc, of 0] by simp



text \<open>
  The counter is exact and the channel is never closed twice or while nil: in every
  reachable state \<^verbatim>\<open>pendingTasks\<close> is the number of registered tasks that have not
  finished, and no \<^verbatim>\<open>close\<close> has panicked.
\<close>

theorem pending_exact_no_panic:
  assumes "drain_reach s"
  shows "pendingTasks s = int (card (tasks s)) \<and> \<not> panicked s"
  using invD(2,3) [OF drain_reach_inv [OF assms]] by simp

theorem pending_exact_no_panic_witness:
  "pendingTasks drain_example = int (card (tasks drain_example)) \<and> \<not> panicked drain_example"
  by (rule pending_exact_no_panic [OF drain_example_reach])

end
