(* ===== verification/Concurrent_Wait.thy ===== *)
theory Concurrent_Wait
  imports Concurrent_Ticks Drain
begin

text \<open>
  The pool together with the completion protocol. \<open>Concurrent_Pool\<close> takes \<^verbatim>\<open>addPending\<close> and
  \<^verbatim>\<open>done\<close> as single changes of the pending count; \<open>Drain\<close> takes \<^verbatim>\<open>done\<close> and \<^verbatim>\<open>Wait\<close> apart
  and knows no pool. Here both run side by side, synchronised on every change of the count:
  a registration is an \<^verbatim>\<open>addPending\<close> of the protocol, a decrement is the first access of a
  \<^verbatim>\<open>done\<close>, whose other accesses, like those of \<^verbatim>\<open>Wait\<close>, may come at any later time. So a
  goroutine is allowed to go on before its own \<^verbatim>\<open>done\<close> has returned, which only adds
  interleavings.
\<close>

section \<open>The composed system\<close>

text \<open>\<open>seen t\<close> records the tasks that had been accepted when the call \<open>t\<close> of \<^verbatim>\<open>Wait\<close> began.\<close>

record ('f, 'b, 'c, 'v, 'w) waiting_pool =
  poolSide :: "('f, 'b, 'c, 'v, 'w) conc"
  protocol :: drain
  seen :: "nat \<Rightarrow> ('f, 'b, 'c) tasks"

abbreviation pool_pending :: "('f, 'b, 'c, 'v, 'w) conc \<Rightarrow> int" where
  "pool_pending s \<equiv> Pool.pendingTasks (shared s)"

definition wait_init :: "('f, 'b, 'c, 'v, 'w) Pool \<Rightarrow> ('f, 'b, 'c, 'v, 'w) waiting_pool" where
  "wait_init p = \<lparr>poolSide = conc_init p, protocol = drain_init, seen = (\<lambda>_. {#})\<rparr>"

inductive wait_step :: "('f, 'b, 'c, 'v, 'w) task_env \<Rightarrow> ('f, 'b, 'c, 'v, 'w) waiting_pool \<Rightarrow> ('f, 'b, 'c, 'v, 'w) waiting_pool \<Rightarrow> bool"
  for env where
  same_count: "conc_step env (poolSide x) s \<Longrightarrow> pool_pending s = pool_pending (poolSide x) \<Longrightarrow>
    wait_step env x (x\<lparr>poolSide := s\<rparr>)"
| registers: "conc_step env (poolSide x) s \<Longrightarrow> pool_pending s = pool_pending (poolSide x) + 1 \<Longrightarrow> dpcs (protocol x) t = DIdle \<Longrightarrow>
    wait_step env x (x\<lparr>poolSide := s, protocol := addPending t (protocol x)\<rparr>)"
| settles: "conc_step env (poolSide x) s \<Longrightarrow> pool_pending s = pool_pending (poolSide x) - 1 \<Longrightarrow> dpcs (protocol x) t = DTask \<Longrightarrow>
    wait_step env x (x\<lparr>poolSide := s, protocol := done_dec t (protocol x)\<rparr>)"
| calls_wait: "dpcs (protocol x) t = DIdle \<Longrightarrow>
    wait_step env x (x\<lparr>protocol := wait_call t (protocol x), seen := (seen x)(t := accepted (poolSide x))\<rparr>)"
| protocol_step: "drain_int (protocol x) d \<Longrightarrow> wait_step env x (x\<lparr>protocol := d\<rparr>)"

inductive wait_reach :: "('f, 'b, 'c, 'v, 'w) task_env \<Rightarrow> ('f, 'b, 'c, 'v, 'w) Pool \<Rightarrow> ('f, 'b, 'c, 'v, 'w) waiting_pool \<Rightarrow> bool"
  for env p where
  wait_start: "wait_reach env p (wait_init p)"
| wait_more: "wait_reach env p x \<Longrightarrow> wait_step env x x' \<Longrightarrow> wait_reach env p x'"

section \<open>Both sides keep their invariants\<close>

definition sides_ok :: "nat \<Rightarrow> ('f, 'b, 'c, 'v, 'w) waiting_pool \<Rightarrow> bool" where
  "sides_ok m x \<longleftrightarrow> conc_inv m (poolSide x) \<and> drain_inv (protocol x) \<and> pool_pending (poolSide x) = drain.pendingTasks (protocol x)"

lemma drain_int_pending: "drain_int d d' \<Longrightarrow> drain_inv d \<Longrightarrow> drain.pendingTasks d' = drain.pendingTasks d"
  using drain_int_inv [of d d'] drain_int_tasks [of d d'] invD(2) by metis

lemma sides_step:
  assumes "wait_step env x x'" and "sides_ok m x"
  shows "sides_ok m x'"
proof -
  have ok: "conc_inv m (poolSide x)" "drain_inv (protocol x)" "pool_pending (poolSide x) = drain.pendingTasks (protocol x)"
    using assms(2) by (simp_all add: sides_ok_def)
  from assms(1) show ?thesis
  proof cases
    case (same_count s)
    then show ?thesis using ok conc_inv_step by (auto simp: sides_ok_def)
  next
    case (registers s t)
    then show ?thesis using ok conc_inv_step inv_addPending [OF ok(2)] by (auto simp: sides_ok_def addPending_def)
  next
    case (settles s t)
    then show ?thesis using ok conc_inv_step inv_done_dec [OF ok(2)] by (auto simp: sides_ok_def done_dec_def Let_def)
  next
    case (calls_wait t)
    then show ?thesis using ok inv_wait_call [OF ok(2)] by (simp add: sides_ok_def wait_call_def)
  next
    case (protocol_step d)
    then show ?thesis using ok drain_int_inv drain_int_pending by (auto simp: sides_ok_def)
  qed
qed

lemma zero_settled:
  assumes "sides_ok m x" and "drain.pendingTasks (protocol x) = 0"
  shows "accepted (poolSide x) = conc.finished (poolSide x)"
  using assms ledger_idle(1) [of m "poolSide x"] by (simp add: sides_ok_def conc_inv_def)

section \<open>What a call of Wait may rely on\<close>

text \<open>
  Every call of \<^verbatim>\<open>Wait\<close> has seen accepted tasks only; once its channel is closed, or is
  about to be, or it has returned, they have finished.
\<close>

fun covered :: "drain \<Rightarrow> ('f, 'b, 'c) tasks \<Rightarrow> ('f, 'b, 'c) tasks \<Rightarrow> drain_pc \<Rightarrow> bool" where
  "covered d S F (WBlocked c D) \<longleftrightarrow> c \<in> closedChs d \<or> drainCh d = Some c \<and> (\<exists>u. dpcs d u = DClose) \<longrightarrow> S \<subseteq># F"
| "covered d S F (WReturned D) \<longleftrightarrow> S \<subseteq># F"
| "covered d S F _ \<longleftrightarrow> True"

definition waits_ok :: "('f, 'b, 'c, 'v, 'w) waiting_pool \<Rightarrow> bool" where
  "waits_ok x \<longleftrightarrow> (\<forall>t. seen x t \<subseteq># accepted (poolSide x) \<and>
     covered (protocol x) (seen x t) (conc.finished (poolSide x)) (dpcs (protocol x) t))"

lemma accepted_grows: "conc_step env s s' \<Longrightarrow> accepted s \<subseteq># accepted s'"
  by (cases rule: conc_step.cases) auto

lemma covered_mono: "covered d S F pc \<Longrightarrow> F \<subseteq># F' \<Longrightarrow> covered d S F' pc"
  by (cases pc) (auto intro: subset_mset.order_trans)

lemma covered_frame:
  assumes "covered d S F pc" and "drainCh d' = drainCh d" and "closedChs d' = closedChs d" and "\<And>u. dpcs d' u = DClose \<Longrightarrow> dpcs d u = DClose"
  shows "covered d' S F pc"
  using assms by (cases pc) auto

lemma frame_waits:
  assumes ok: "waits_ok x" and d: "dpcs d = (dpcs (protocol x))(t := pc)" "drainCh d = drainCh (protocol x)" "closedChs d = closedChs (protocol x)"
    and pc: "pc \<noteq> DClose" "covered d (seen x t) (conc.finished (poolSide x)) pc"
  shows "waits_ok (x\<lparr>protocol := d\<rparr>)"
proof -
  have "covered d (seen x u) (conc.finished (poolSide x)) (dpcs (protocol x) u)" for u
    by (rule covered_frame [of "protocol x"]) (use ok d pc(1) in \<open>auto simp: waits_ok_def split: if_splits\<close>)
  then show ?thesis using ok d(1) pc(2) by (simp add: waits_ok_def)
qed

lemma nobody_closes:
  assumes "drain_inv d" and "dpcs d t = WCreate D"
  shows "dpcs d u \<noteq> DClose"
  using mu_held [OF assms(1), of t] assms(2) by (metis drain_pc.distinct holds_mu.simps(2,4))

lemma protocol_waits:
  assumes step: "drain_int (protocol x) d" and sides: "sides_ok m x" and ok: "waits_ok x"
  shows "waits_ok (x\<lparr>protocol := d\<rparr>)"
proof -
  let ?d = "protocol x" and ?F = "conc.finished (poolSide x)"
  have inv: "drain_inv ?d" using sides by (simp add: sides_ok_def)
  have seen: "seen x t \<subseteq># accepted (poolSide x)" and cov: "covered ?d (seen x t) ?F (dpcs ?d t)" for t
    using ok by (simp_all add: waits_ok_def)
  have zero: "seen x t \<subseteq># ?F" if "drain.pendingTasks ?d = 0" for t using zero_settled [OF sides that] seen [of t] by simp
  from step show ?thesis
  proof cases
    case (1 t)
    then show ?thesis by (intro frame_waits [OF ok, of _ t DLocked]) (simp_all add: done_lock_def)
  next
    case (2 t)
    show ?thesis
    proof (cases "drain.pendingTasks ?d = 0 \<and> drainCh ?d \<noteq> None")
      case True
      then have d: "d = set_pc t DClose ?d" using 2 by (simp add: done_load_def)
      have "covered d (seen x u) ?F (dpcs d u)" for u using zero True d by (cases "dpcs d u") auto
      then show ?thesis using seen by (simp add: waits_ok_def)
    next
      case False
      then show ?thesis using 2 by (intro frame_waits [OF ok, of _ t DOver]) (auto simp: done_load_def)
    qed
  next
    case (3 t)
    obtain c where c: "drainCh ?d = Some c" using invD(7) [OF inv, of t] 3 by auto
    have d: "dpcs d = (dpcs ?d)(t := DOver)" "drainCh d = None" "closedChs d = insert c (closedChs ?d)"
      using 3 c by (simp_all add: done_close_def)
    have "covered d (seen x u) ?F (dpcs d u)" for u using cov [of u] d c 3(2) by (cases "dpcs d u") (auto split: if_splits)
    then show ?thesis using seen by (simp add: waits_ok_def)
  next
    case (4 t)
    then show ?thesis by (intro frame_waits [OF ok, of _ t WLocked]) (simp_all add: wait_lock_def)
  next
    case (5 t)
    then show ?thesis using zero
      by (intro frame_waits [OF ok, of _ t "dpcs d t"]) (auto simp: wait_load_def)
  next
    case (6 t D)
    note free = nobody_closes [OF inv 6(2)]
    have fresh: "freshCh ?d \<notin> closedChs ?d" using invD(5) [OF inv] by blast
    have "covered d (seen x u) ?F (dpcs d u)" for u
      using cov [of u] free invD(6) [OF inv] fresh 6(1)
      by (cases "dpcs d u") (auto simp: wait_create_def split: option.splits if_splits)
    then show ?thesis using seen by (simp add: waits_ok_def)
  next
    case (7 t c D)
    then show ?thesis using cov [of t] by (intro frame_waits [OF ok, of _ t "WReturned D"]) auto
  qed
qed

lemma pool_waits:
  assumes "conc_step env (poolSide x) s" and "waits_ok x"
  shows "waits_ok (x\<lparr>poolSide := s\<rparr>)"
proof -
  have "accepted (poolSide x) \<subseteq># accepted s" by (rule accepted_grows [OF assms(1)])
  moreover have "conc.finished (poolSide x) \<subseteq># conc.finished s" by (rule finished_grows [OF r_into_rtranclp, OF assms(1)])
  ultimately show ?thesis using assms(2) covered_mono unfolding waits_ok_def by (fastforce intro: subset_mset.order_trans)
qed

lemma waits_step:
  assumes "wait_step env x x'" and "sides_ok m x" and "waits_ok x"
  shows "waits_ok x'"
  using assms(1)
proof cases
  case (same_count s)
  then show ?thesis using pool_waits assms(3) by simp
next
  case (registers s t)
  have "waits_ok (x\<lparr>poolSide := s\<rparr>\<lparr>protocol := addPending t (protocol x)\<rparr>)"
    by (rule frame_waits [OF pool_waits [OF registers(2) assms(3)], of _ t DTask]) (simp_all add: addPending_def)
  then show ?thesis using registers(1) by simp
next
  case (settles s t)
  have "waits_ok (x\<lparr>poolSide := s\<rparr>\<lparr>protocol := done_dec t (protocol x)\<rparr>)"
    by (rule frame_waits [OF pool_waits [OF settles(2) assms(3)], of _ t "if drain.pendingTasks (protocol x) - 1 \<noteq> 0 then DOver else DDec"])
      (simp_all add: done_dec_def Let_def)
  then show ?thesis using settles(1) by simp
next
  case (calls_wait t)
  have "waits_ok (x\<lparr>seen := (seen x)(t := accepted (poolSide x))\<rparr>)" using assms(3) calls_wait(2) by (simp add: waits_ok_def)
  from frame_waits [OF this, of "wait_call t (protocol x)" t WLock] show ?thesis
    using calls_wait(1) by (simp add: wait_call_def waits_ok_def)
next
  case (protocol_step d)
  then show ?thesis using protocol_waits [OF _ assms(2,3)] by simp
qed

lemma wait_reach_ok:
  assumes "wait_reach env p x" and "conc_inv m (conc_init p)" and "Pool.pendingTasks p = 0"
  shows "sides_ok m x \<and> waits_ok x"
  using assms
proof (induction rule: wait_reach.induct)
  case wait_start
  then show ?case using drain_init_inv by (simp add: sides_ok_def waits_ok_def wait_init_def conc_init_def drain_init_def)
next
  case (wait_more x x')
  then show ?case using sides_step waits_step by blast
qed

section \<open>Executions of the pool are executions of both\<close>

lemma pending_change:
  assumes "conc_step env s s'" and "conc_inv m s"
  obtains "pool_pending s' = pool_pending s" | "pool_pending s' = pool_pending s + 1" | "pool_pending s' = pool_pending s - 1"
proof -
  obtain xs where shape: "conc_shape m xs (shared s)" "\<forall>ph\<in>#workers s. worker_ok m ph" "scaler_ok m (scalerAt s)"
    by (rule conc_invD [OF assms(2)])
  have "pool_pending s' = pool_pending s \<or> pool_pending s' = pool_pending s + 1 \<or> pool_pending s' = pool_pending s - 1"
    using assms(1)
  proof cases
    case (submitter ctx task ph S pick sel ph' q)
    then show ?thesis using submit_pending [OF submitter(3)] by auto
  next
    case (worker ph W now priority pick ph' q)
    then have "worker_ok m ph" using shape(2) by simp
    from worker_stepD [OF worker(3) shape(1) this] show ?thesis
      using worker(1) by (cases ph) (auto simp: worker_post_def)
  next
    case (scaler n ph' q)
    then have "scalerAt s \<noteq> KStopped" by auto
    from scaler_step_ok [OF shape(1,3) this, of n] scaler show ?thesis by (auto simp: scaler_post_def)
  next
    case (closer ph C ph' q)
    then show ?thesis using close_step_ok [OF shape(1) closer(3)] by simp
  next
    case (sampler e q)
    then show ?thesis using sampler_frame [OF sampler(2)] by auto
  next
    case (cleaner now q)
    then show ?thesis using cleaner_frame(3) [OF cleaner(2) shape(1)] by auto
  qed (auto simp: pool_addPending_def pool_Wait_def)
  then show thesis using that by blast
qed

lemma pool_step_lifts:
  assumes "conc_step env (poolSide x) s" and "sides_ok m x"
  shows "\<exists>x'. wait_step env x x' \<and> poolSide x' = s"
proof -
  have ok: "conc_inv m (poolSide x)" "drain_inv (protocol x)" "pool_pending (poolSide x) = drain.pendingTasks (protocol x)"
    using assms(2) by (simp_all add: sides_ok_def)
  show ?thesis
  proof (cases rule: pending_change [OF assms(1) ok(1)])
    case 1
    then show ?thesis using same_count [OF assms(1)] by fastforce
  next
    case 2
    obtain t where "dpcs (protocol x) t = DIdle" using ex_new_if_finite [OF infinite_UNIV_nat invD(1) [OF ok(2)]] by auto
    then show ?thesis using registers [OF assms(1) 2] by fastforce
  next
    case 3
    have "0 \<le> pool_pending s" using queued_at_most_pending [OF conc_inv_step [OF assms(1) ok(1)]] by linarith
    then have "tasks (protocol x) \<noteq> {}" using 3 ok pending_pos_iff [OF ok(2)] by simp
    then obtain t where "dpcs (protocol x) t = DTask" by (auto simp: tasks_def)
    then show ?thesis using settles [OF assms(1) 3] by fastforce
  qed
qed

lemma sides_run: "(wait_step env)\<^sup>*\<^sup>* x x' \<Longrightarrow> sides_ok m x \<Longrightarrow> sides_ok m x'"
  by (induction rule: rtranclp_induct) (auto intro: sides_step)

lemma pool_run_lifts:
  assumes "(conc_step env)\<^sup>*\<^sup>* s s'" and "poolSide x = s" and "sides_ok m x"
  shows "\<exists>x'. (wait_step env)\<^sup>*\<^sup>* x x' \<and> poolSide x' = s'"
  using assms
proof (induction rule: rtranclp_induct)
  case (step y z)
  then obtain x1 where x1: "(wait_step env)\<^sup>*\<^sup>* x x1" "poolSide x1 = y" by blast
  then obtain x2 where "wait_step env x1 x2" "poolSide x2 = z"
    using pool_step_lifts [of env x1 z m] step.hyps(2) sides_run [OF x1(1) step.prems(2)] by blast
  then show ?case using rtranclp.rtrancl_into_rtrancl [OF x1(1)] by blast
qed blast

text \<open>A call of \<^verbatim>\<open>Wait\<close> stays one until it has returned.\<close>

fun is_wait :: "drain_pc \<Rightarrow> bool" where
  "is_wait WLock \<longleftrightarrow> True"
| "is_wait WLocked \<longleftrightarrow> True"
| "is_wait (WCreate D) \<longleftrightarrow> True"
| "is_wait (WBlocked c D) \<longleftrightarrow> True"
| "is_wait (WReturned D) \<longleftrightarrow> True"
| "is_wait _ \<longleftrightarrow> False"

lemma is_wait_int: "drain_int d d' \<Longrightarrow> is_wait (dpcs d t) \<Longrightarrow> is_wait (dpcs d' t)"
  by (cases rule: drain_int.cases)
    (auto simp: done_lock_def done_load_def done_close_def wait_lock_def wait_load_def wait_create_def split: option.splits)

lemma is_wait_step: "wait_step env x x' \<Longrightarrow> is_wait (dpcs (protocol x) t) \<Longrightarrow> is_wait (dpcs (protocol x') t)"
  by (cases rule: wait_step.cases)
    (auto simp: addPending_def done_dec_def wait_call_def Let_def intro: is_wait_int)

lemma seen_step: "wait_step env x x' \<Longrightarrow> is_wait (dpcs (protocol x) t) \<Longrightarrow> seen x' t = seen x t"
  by (cases rule: wait_step.cases) auto

lemma is_wait_run:
  "(wait_step env)\<^sup>*\<^sup>* x x' \<Longrightarrow> is_wait (dpcs (protocol x) t) \<Longrightarrow> is_wait (dpcs (protocol x') t) \<and> seen x' t = seen x t"
proof (induction rule: rtranclp_induct)
  case (step y z)
  then show ?case using is_wait_step [OF step.hyps(2)] seen_step [OF step.hyps(2)] by simp
qed simp

lemma waits_return:
  assumes "sides_ok m x" and "pool_pending (poolSide x) = 0"
  shows "\<exists>d. drain_int\<^sup>*\<^sup>* (protocol x) d \<and> (\<forall>t. Drain.finished (dpcs d t))"
proof -
  have inv: "drain_inv (protocol x)" and "drain.pendingTasks (protocol x) = 0" using assms by (simp_all add: sides_ok_def)
  then have "tasks (protocol x) = {}" using pending_zero by blast
  moreover obtain d where d: "drain_int\<^sup>*\<^sup>* (protocol x) d" "at_rest d" using drain_reaches_rest [OF inv] by blast
  moreover have "drain_inv d" "tasks d = tasks (protocol x)" using drain_int_star [OF d(1) inv] by simp_all
  ultimately show ?thesis using at_rest_finished [of d] by auto
qed

section \<open>The steps both sides take by themselves\<close>

text \<open>
  The own steps of the pool, whose ticks ask for what the scaler computes, and those of the
  protocol; nobody calls \<^verbatim>\<open>Submit\<close>, \<^verbatim>\<open>Wait\<close> or \<^verbatim>\<open>Close\<close>, and nothing outside changes.
\<close>

inductive own_wait_step :: "('f, 'b, 'c, 'v, 'w) task_env \<Rightarrow> (float64 \<Rightarrow> int) \<Rightarrow> ('f, 'b, 'c, 'v, 'w) waiting_pool \<Rightarrow> ('f, 'b, 'c, 'v, 'w) waiting_pool \<Rightarrow> bool"
  for env oor where
  own_same: "own_step env oor (poolSide x) s \<Longrightarrow> pool_pending s = pool_pending (poolSide x) \<Longrightarrow>
    own_wait_step env oor x (x\<lparr>poolSide := s\<rparr>)"
| own_settles: "own_step env oor (poolSide x) s \<Longrightarrow> pool_pending s = pool_pending (poolSide x) - 1 \<Longrightarrow> dpcs (protocol x) t = DTask \<Longrightarrow>
    own_wait_step env oor x (x\<lparr>poolSide := s, protocol := done_dec t (protocol x)\<rparr>)"
| own_protocol: "drain_int (protocol x) d \<Longrightarrow> own_wait_step env oor x (x\<lparr>protocol := d\<rparr>)"

lemma own_wait: "own_wait_step env oor x x' \<Longrightarrow> wait_step env x x'"
  by (cases rule: own_wait_step.cases) (auto intro: wait_step.intros own_conc)

lemma own_wait_run: "(own_wait_step env oor)\<^sup>*\<^sup>* x x' \<Longrightarrow> (wait_step env)\<^sup>*\<^sup>* x x'"
  by (induction rule: rtranclp_induct) (auto intro: own_wait rtranclp.rtrancl_into_rtrancl)

lemma own_pending:
  assumes "own_step env oor s s'" and "conc_inv m s"
  shows "pool_pending s' \<le> pool_pending s"
  using assms(1)
proof cases
  case own_work
  then show ?thesis using works_pending [OF r_into_rtranclp assms(2)] by blast
next
  case (own_tick n ph q)
  then show ?thesis by (auto simp: Let_def)
qed

lemma own_step_lifts:
  assumes "own_step env oor (poolSide x) s" and "sides_ok m x"
  shows "\<exists>x'. own_wait_step env oor x x' \<and> poolSide x' = s"
proof -
  have ok: "conc_inv m (poolSide x)" "drain_inv (protocol x)" "pool_pending (poolSide x) = drain.pendingTasks (protocol x)"
    using assms(2) by (simp_all add: sides_ok_def)
  note c = own_conc [OF assms(1)]
  show ?thesis
  proof (cases rule: pending_change [OF c ok(1)])
    case 1
    then show ?thesis using own_same [OF assms(1)] by fastforce
  next
    case 2
    then show ?thesis using own_pending [OF assms(1) ok(1)] by simp
  next
    case 3
    have "0 \<le> pool_pending s" using queued_at_most_pending [OF conc_inv_step [OF c ok(1)]] by linarith
    then have "tasks (protocol x) \<noteq> {}" using 3 ok pending_pos_iff [OF ok(2)] by simp
    then obtain t where "dpcs (protocol x) t = DTask" by (auto simp: tasks_def)
    then show ?thesis using own_settles [OF assms(1) 3] by fastforce
  qed
qed

lemma own_run_lifts:
  assumes "(own_step env oor)\<^sup>*\<^sup>* s s'" and "poolSide x = s" and "sides_ok m x"
  shows "\<exists>x'. (own_wait_step env oor)\<^sup>*\<^sup>* x x' \<and> poolSide x' = s'"
  using assms
proof (induction rule: rtranclp_induct)
  case (step y z)
  then obtain x1 where x1: "(own_wait_step env oor)\<^sup>*\<^sup>* x x1" "poolSide x1 = y" by blast
  then obtain x2 where "own_wait_step env oor x1 x2" "poolSide x2 = z"
    using own_step_lifts [of env oor x1 z m] step.hyps(2) sides_run [OF own_wait_run [OF x1(1)] step.prems(2)] by blast
  then show ?case using rtranclp.rtrancl_into_rtrancl [OF x1(1)] by blast
qed blast

lemma protocol_run_lifts: "drain_int\<^sup>*\<^sup>* d d' \<Longrightarrow> protocol x = d \<Longrightarrow> (own_wait_step env oor)\<^sup>*\<^sup>* x (x\<lparr>protocol := d'\<rparr>)"
proof (induction rule: rtranclp_induct)
  case (step y z)
  then have "own_wait_step env oor (x\<lparr>protocol := y\<rparr>) (x\<lparr>protocol := z\<rparr>)" using own_protocol [of "x\<lparr>protocol := y\<rparr>" z env oor] by simp
  then show ?case using step by (meson rtranclp.rtrancl_into_rtrancl)
qed auto

lemma wait_finished: "is_wait pc \<Longrightarrow> Drain.finished pc \<Longrightarrow> \<exists>D. pc = WReturned D"
  by (cases pc) simp_all

lemma all_waits_return:
  assumes ok: "sides_ok m x" and fit: "scaler_fit (shared (poolSide x))"
  shows "\<exists>x'. (own_wait_step env oor)\<^sup>*\<^sup>* x x' \<and> drained (poolSide x') \<and> (\<forall>ph\<in>#workers (poolSide x'). ph = WEnd) \<and>
    (\<forall>ph\<in>#closers (poolSide x'). ph = CEnd) \<and> (closed (shared (poolSide x)) \<longrightarrow> scalerAt (poolSide x') = KStopped) \<and>
    (\<forall>t. is_wait (dpcs (protocol x) t) \<longrightarrow> (\<exists>D. dpcs (protocol x') t = WReturned D) \<and> seen x' t = seen x t)"
proof -
  have "conc_inv m (poolSide x)" using ok by (simp add: sides_ok_def)
  from own_shuts_down [OF this fit, of env oor] obtain s where s: "(own_step env oor)\<^sup>*\<^sup>* (poolSide x) s" "drained s" "\<forall>ph\<in>#workers s. ph = WEnd"
    "\<forall>ph\<in>#closers s. ph = CEnd" "closed (shared (poolSide x)) \<longrightarrow> scalerAt s = KStopped" by blast
  from own_run_lifts [OF s(1) refl ok] obtain x1 where x1: "(own_wait_step env oor)\<^sup>*\<^sup>* x x1" "poolSide x1 = s" by blast
  have "pool_pending (poolSide x1) = 0" using s(2) x1(2) by (simp add: drained_def)
  from waits_return [OF sides_run [OF own_wait_run [OF x1(1)] ok] this] obtain d where
    d: "drain_int\<^sup>*\<^sup>* (protocol x1) d" "\<forall>t. Drain.finished (dpcs d t)" by blast
  let ?x = "x1\<lparr>protocol := d\<rparr>"
  have star: "(own_wait_step env oor)\<^sup>*\<^sup>* x ?x" by (rule rtranclp_trans [OF x1(1) protocol_run_lifts [OF d(1) refl]])
  then show ?thesis using s x1(2) d(2) is_wait_run [OF own_wait_run [OF star]] wait_finished by (intro exI [of _ ?x]) simp
qed

section \<open>Properties\<close>

lemma reach_sides:
  assumes "config_valid c" and "taskQueueSize c < 2 ^ 62" and "shards_want procs c \<le> 2 ^ 62"
    and "NewPool procs (Some c) w = Some p" and "wait_reach env p x"
  obtains m where "sides_ok m x" and "waits_ok x"
proof -
  obtain m where inv: "conc_inv m (conc_init p)" using conc_init_inv [OF assms(1-4)] by blast
  have "0 < taskQueueSize c" using assms(1) by (simp add: config_valid_def pos64_def)
  then have "Pool.pendingTasks p = 0" using NewPool_ok [OF _ assms(2,3), of w] assms(4) by auto
  then show thesis using wait_reach_ok [OF assms(5) inv] that by blast
qed

lemma wait_reach_conc: "wait_reach env p x \<Longrightarrow> conc_reach env p (poolSide x)"
proof (induction rule: wait_reach.induct)
  case (wait_more x x')
  from wait_more.hyps(2) show ?case by cases (use wait_more.IH in \<open>auto intro: conc_more\<close>)
qed (simp add: wait_init_def conc_start)

lemma reach_fit:
  assumes "config_valid c" and "NewPool procs (Some c) w = Some p" and "scalerPeriod c \<le> 2 ^ 44"
    and "wait_reach env p x" and "pool_pending (poolSide x) \<le> 2 ^ 62"
  shows "scaler_fit (shared (poolSide x))"
proof -
  have "hists_ok p" "config p = c"
    using NewPool_scale_ok(1) [OF assms(1,2)] assms(2) by (auto simp: scale_ok_def NewPool_def split: option.splits)
  then show ?thesis using reach_hists [OF wait_reach_conc [OF assms(4)]] assms(1,3,5) by (simp add: scaler_fit_def)
qed

text \<open>
  C8. \<^verbatim>\<open>Wait\<close> covers everything accepted before it. In the pool with all its goroutines, with
  \<^verbatim>\<open>done\<close> and \<^verbatim>\<open>Wait\<close> taken apart into their accesses, whatever the interleaving: when a call
  of \<^verbatim>\<open>Wait\<close> has returned, every task that had been accepted when it was called has finished.
  The pending count of the pool is that of the protocol throughout, and no channel is closed
  twice.
\<close>

theorem Wait_covers_accepted:
  assumes "config_valid c" and "taskQueueSize c < 2 ^ 62" and "shards_want procs c \<le> 2 ^ 62"
    and "NewPool procs (Some c) w = Some p" and "wait_reach env p x"
  shows "(\<forall>t D. dpcs (protocol x) t = WReturned D \<longrightarrow> seen x t \<subseteq># conc.finished (poolSide x)) \<and>
    Pool.pendingTasks (shared (poolSide x)) = drain.pendingTasks (protocol x) \<and> \<not> panicked (protocol x)"
proof -
  obtain m where ok: "sides_ok m x" "waits_ok x" by (rule reach_sides [OF assms])
  have "seen x t \<subseteq># conc.finished (poolSide x)" if "dpcs (protocol x) t = WReturned D" for t D
    using ok(2) that unfolding waits_ok_def by (metis covered.simps(2))
  then show ?thesis using ok(1) invD(3) by (auto simp: sides_ok_def)
qed

lemma wait_run_reach: "(wait_step env)\<^sup>*\<^sup>* x x' \<Longrightarrow> wait_reach env p x \<Longrightarrow> wait_reach env p x'"
  by (induction rule: rtranclp_induct) (auto intro: wait_more)

text \<open>A task has been accepted by a new pool, and somebody calls \<^verbatim>\<open>Wait\<close>.\<close>

lemma small_period:
  "scalerPeriod (NewConfig [WithTaskQueueSize 1, WithWorkerNumCapacity 2] :: (nat, unit, nat, nat, example_world) PanicHandler Config) \<le> 2 ^ 44"
  by (simp add: NewConfig_def WithTaskQueueSize_def WithWorkerNumCapacity_def config_consts)

lemma waiting_state:
  assumes "NewPool 8 (Some (NewConfig [WithTaskQueueSize 1, WithWorkerNumCapacity 2])) ([], []) = Some (p :: (nat, unit, nat, nat, example_world) Pool)"
    and "conc_reach example_env p s"
  shows "\<exists>x t. wait_reach example_env p x \<and> poolSide x = s \<and> dpcs (protocol x) t = WLock \<and> seen x t = accepted s"
proof -
  have star: "(conc_step example_env)\<^sup>*\<^sup>* (conc_init p) s"
    using assms(2) by (induction rule: conc_reach.induct) (auto intro: rtranclp.rtrancl_into_rtrancl)
  obtain m where ok: "sides_ok m (wait_init p)" by (rule reach_sides [OF small_config assms(1) wait_start])
  obtain x where x: "(wait_step example_env)\<^sup>*\<^sup>* (wait_init p) x" "poolSide x = s"
    using pool_run_lifts [OF star _ ok] by (auto simp: wait_init_def)
  have "drain_inv (protocol x)" using sides_run [OF x(1) ok] by (simp add: sides_ok_def)
  then obtain t where t: "dpcs (protocol x) t = DIdle" using ex_new_if_finite [OF infinite_UNIV_nat invD(1)] by fastforce
  let ?x = "x\<lparr>protocol := wait_call t (protocol x), seen := (seen x)(t := accepted (poolSide x))\<rparr>"
  have "wait_reach example_env p ?x" by (rule wait_more [OF wait_run_reach [OF x(1) wait_start] calls_wait [OF t]])
  then show ?thesis using x(2) by (intro exI [of _ ?x] exI [of _ t]) (simp add: wait_call_def)
qed

lemma one_waiting:
  obtains m and p :: "(nat, unit, nat, nat, example_world) Pool" and x t where
    "NewPool 8 (Some (NewConfig [WithTaskQueueSize 1, WithWorkerNumCapacity 2])) ([], []) = Some p" and "wait_reach example_env p x"
    and "accepted (poolSide x) = {#Some (TaskFunc (Some 1))#}" and "conc.finished (poolSide x) = {#}"
    and "dpcs (protocol x) t = WLock" and "seen x t = accepted (poolSide x)" and "sides_ok m x" and "scaler_fit (shared (poolSide x))"
    and "pool_pending (poolSide x) = 1"
proof -
  let ?t = "TaskFunc (Some 1)" and ?c = "Background example_env"
  obtain m0 and p :: "(nat, unit, nat, nat, example_world) Pool" where
    p: "NewPool 8 (Some (NewConfig [WithTaskQueueSize 1, WithWorkerNumCapacity 2])) ([], []) = Some p" "pool_inv m0 [] p"
      "\<not> closed p" "workMode (config p) = BLOCK" "Pool.pendingTasks p = 0" by (rule small_pool)
  obtain q s where s: "submit example_env None 0 ?c ?t p = Some (Accepted, q)" "conc_reach example_env p s" "shared s = q"
    "accepted s = {#Some ?t#}" "conc.finished s = {#}"
    using one_accepted [OF p(2-4), of ?t example_env None 0 ?c] by auto
  have "pool_pending s = 1"
    using submit_ok [OF p(2), of ?t example_env None 0 ?c] s(1,3) p(5) by (auto simp: submit_post_def pool_addPending_def)
  moreover obtain x t where x: "wait_reach example_env p x" "poolSide x = s" "dpcs (protocol x) t = WLock" "seen x t = accepted s"
    using waiting_state [OF p(1) s(2)] by blast
  moreover obtain m' where "sides_ok m' x" by (rule reach_sides [OF small_config p(1) x(1)])
  ultimately show thesis using that p(1) s(4,5) reach_fit [OF small_config(1) p(1) small_period x(1)] by simp
qed

theorem Wait_covers_accepted_witness:
  "\<exists>p x t D. NewPool 8 (Some (NewConfig [WithTaskQueueSize 1, WithWorkerNumCapacity 2])) ([], []) = Some p \<and>
     wait_reach example_env p x \<and> dpcs (protocol x) t = WReturned D \<and> seen x t = {#Some (TaskFunc (Some 1))#} \<and>
     {#Some (TaskFunc (Some 1))#} \<subseteq># conc.finished (poolSide x)"
proof -
  obtain m and p :: "(nat, unit, nat, nat, example_world) Pool" and x0 t where
    p: "NewPool 8 (Some (NewConfig [WithTaskQueueSize 1, WithWorkerNumCapacity 2])) ([], []) = Some p" and
    x0: "wait_reach example_env p x0" "accepted (poolSide x0) = {#Some (TaskFunc (Some 1))#}" "dpcs (protocol x0) t = WLock"
      "seen x0 t = accepted (poolSide x0)" "sides_ok m x0" "scaler_fit (shared (poolSide x0))" by (rule one_waiting)
  obtain x D where x': "(own_wait_step example_env (\<lambda>_. 0))\<^sup>*\<^sup>* x0 x" "dpcs (protocol x) t = WReturned D" "seen x t = seen x0 t"
    using all_waits_return [OF x0(5,6), of example_env "\<lambda>_. 0"] x0(3) by (metis is_wait.simps(1))
  have x: "wait_reach example_env p x" "seen x t = {#Some (TaskFunc (Some 1))#}"
    using wait_run_reach [OF own_wait_run [OF x'(1)] x0(1)] x'(3) x0(2,4) by simp_all
  have "seen x t \<subseteq># conc.finished (poolSide x)" using Wait_covers_accepted [OF small_config p x(1)] x'(2) by blast
  then show ?thesis using p x x'(2) by metis
qed



end
