(* ===== verification/Spin_Lock.thy ===== *)
theory Spin_Lock
  imports Go_Prelude
begin

text \<open>
  \<^verbatim>\<open>spinlock.go\<close>: the three-phase spin lock that may guard the idle container. Each
  goroutine has a program counter inside \<^verbatim>\<open>Lock\<close>; one step of a goroutine is one
  compare-and-swap together with the yields that follow it (\<^verbatim>\<open>runtime.Gosched\<close> touches
  no shared state). Steps of any number of goroutines interleave.
\<close>

section \<open>The lock\<close>

definition fastSpin :: nat where "fastSpin = 100"

definition yieldInterval :: nat where "yieldInterval = 16"

definition maxBackoff :: nat where "maxBackoff = 16"

definition maxRounds :: nat where "maxRounds = 1024"

lemmas spin_consts = fastSpin_def yieldInterval_def maxBackoff_def maxRounds_def

text \<open>
  Outside the lock; in phase 1 at iteration \<open>i\<close>; in phase 2 at a round with a backoff; in
  phase 3; holding the lock.
\<close>

datatype spin_pc = SpinOut | SpinFast nat | SpinSlow nat nat | SpinWait | SpinHeld

definition CompareAndSwapUint32 :: "32 word \<Rightarrow> 32 word \<Rightarrow> 32 word \<Rightarrow> bool \<times> 32 word" where
  "CompareAndSwapUint32 state old new = (if state = old then (True, new) else (False, state))"

text \<open>One attempt of \<^verbatim>\<open>Lock\<close>: the new lock word, program counter and number of yields.\<close>

definition Lock_step :: "32 word \<Rightarrow> spin_pc \<Rightarrow> 32 word \<times> spin_pc \<times> nat" where
  "Lock_step state pc =
     (let (ok, state') = CompareAndSwapUint32 state 0 1 in
      case pc of
        SpinFast i \<Rightarrow>
          if ok then (state', SpinHeld, 0)
          else (state', if i + 1 < fastSpin then SpinFast (i + 1) else SpinSlow 0 1,
                if (i + 1) mod yieldInterval = 0 then 1 else 0)
      | SpinSlow round backoff \<Rightarrow>
          if ok then (state', SpinHeld, 0)
          else (state',
                if round + 1 < maxRounds
                then SpinSlow (round + 1) (if backoff < maxBackoff then push_bit 1 backoff else backoff)
                else SpinWait,
                backoff)
      | SpinWait \<Rightarrow> if ok then (state', SpinHeld, 0) else (state', SpinWait, 1)
      | _ \<Rightarrow> (state, pc, 0))"

definition Unlock :: "32 word \<Rightarrow> 32 word" where
  "Unlock state = 0"

section \<open>Goroutines competing for the lock\<close>

record spin_sys =
  lockWord :: "32 word"
  pcs :: "nat \<Rightarrow> spin_pc"

definition newSpinLock :: "spin_sys" where
  "newSpinLock = \<lparr>lockWord = 0, pcs = (\<lambda>_. SpinOut)\<rparr>"

definition spinning :: "spin_pc \<Rightarrow> bool" where
  "spinning pc \<longleftrightarrow> pc \<noteq> SpinOut \<and> pc \<noteq> SpinHeld"

inductive spin_step :: "spin_sys \<Rightarrow> spin_sys \<Rightarrow> bool" where
  enter: "pcs s t = SpinOut \<Longrightarrow> spin_step s (s\<lparr>pcs := (pcs s)(t := SpinFast 0)\<rparr>)"
| attempt: "spinning (pcs s t) \<Longrightarrow> Lock_step (lockWord s) (pcs s t) = (w, pc, y) \<Longrightarrow>
    spin_step s (s\<lparr>lockWord := w, pcs := (pcs s)(t := pc)\<rparr>)"
| release: "pcs s t = SpinHeld \<Longrightarrow>
    spin_step s (s\<lparr>lockWord := Unlock (lockWord s), pcs := (pcs s)(t := SpinOut)\<rparr>)"

inductive_cases spin_stepE: "spin_step s s'"

inductive spin_reach :: "spin_sys \<Rightarrow> bool" where
  init: "spin_reach newSpinLock"
| step: "spin_reach s \<Longrightarrow> spin_step s s' \<Longrightarrow> spin_reach s'"

fun spin_pc_ok :: "spin_pc \<Rightarrow> bool" where
  "spin_pc_ok (SpinFast i) \<longleftrightarrow> i < fastSpin"
| "spin_pc_ok (SpinSlow round backoff) \<longleftrightarrow> round < maxRounds \<and> backoff = min maxBackoff (2 ^ round)"
| "spin_pc_ok _ \<longleftrightarrow> True"

definition holders :: "(nat \<Rightarrow> spin_pc) \<Rightarrow> nat set" where
  "holders f = {t. f t = SpinHeld}"

lemma holders_upd: "holders (f(t := pc)) = (if pc = SpinHeld then insert t (holders f) else holders f - {t})"
  by (auto simp: holders_def)

definition spin_inv :: "spin_sys \<Rightarrow> bool" where
  "spin_inv s \<longleftrightarrow>
     (\<forall>t. spin_pc_ok (pcs s t)) \<and>
     (lockWord s = 0 \<and> holders (pcs s) = {} \<or> lockWord s = 1 \<and> (\<exists>t. holders (pcs s) = {t}))"

lemma Lock_step_cases:
  assumes "Lock_step w pc = (w', pc', y)" and "spinning pc" and "spin_pc_ok pc"
  shows "if w = 0 then w' = 1 \<and> pc' = SpinHeld \<and> y = 0
         else w' = w \<and> spinning pc' \<and> spin_pc_ok pc' \<and> y \<le> maxBackoff"
proof -
  have next_backoff: "(if b < maxBackoff then push_bit 1 b else b) = min maxBackoff (2 ^ Suc r)"
    if "b = min maxBackoff (2 ^ r)" for b r
  proof (cases "r < 4")
    case True
    then consider "r = 0" | "r = 1" | "r = 2" | "r = 3" by linarith
    then show ?thesis using that by cases (simp_all add: maxBackoff_def push_bit_eq_mult)
  next
    case False
    then have "(2::nat) ^ 4 \<le> 2 ^ r" by (intro power_increasing) simp_all
    then show ?thesis using that by (simp add: maxBackoff_def)
  qed
  show ?thesis
    using assms next_backoff
    by (cases pc)
      (auto simp: Lock_step_def CompareAndSwapUint32_def spinning_def spin_consts split: if_splits)
qed

lemma spin_inv_step:
  assumes "spin_inv s" and "spin_step s s'"
  shows "spin_inv s'"
  using assms(2)
proof cases
  case (enter t)
  then have "t \<notin> holders (pcs s)" by (simp add: holders_def)
  then show ?thesis using assms(1) enter by (simp add: spin_inv_def fastSpin_def holders_upd)
next
  case (attempt t w pc y)
  then have ok: "spin_pc_ok (pcs s t)" and t: "t \<notin> holders (pcs s)"
    using assms(1) by (simp_all add: spin_inv_def holders_def spinning_def)
  have c: "if lockWord s = 0 then w = 1 \<and> pc = SpinHeld \<and> y = 0
    else w = lockWord s \<and> spinning pc \<and> spin_pc_ok pc \<and> y \<le> maxBackoff"
    by (rule Lock_step_cases [OF attempt(3,2) ok])
  show ?thesis
  proof (cases "lockWord s = 0")
    case True
    then show ?thesis using assms(1) attempt(1) c by (simp add: spin_inv_def holders_upd)
  next
    case False
    then have "pc \<noteq> SpinHeld" "spin_pc_ok pc" "w = lockWord s" using c by (auto simp: spinning_def)
    then show ?thesis using assms(1) attempt(1) t by (simp add: spin_inv_def holders_upd)
  qed
next
  case (release t)
  then have "t \<in> holders (pcs s)" by (simp add: holders_def)
  then have "holders (pcs s) = {t}" using assms(1) by (auto simp: spin_inv_def)
  then show ?thesis using assms(1) release(1) by (simp add: spin_inv_def Unlock_def holders_upd)
qed

lemma spin_reach_inv: "spin_reach s \<Longrightarrow> spin_inv s"
proof (induction rule: spin_reach.induct)
  case init
  then show ?case by (simp add: spin_inv_def newSpinLock_def holders_def)
qed (rule spin_inv_step)

section \<open>The waiting schedule\<close>

text \<open>\<open>spin_fail n pc\<close>: the program counter and total yields after \<open>n\<close> failed attempts.\<close>

fun spin_fail :: "nat \<Rightarrow> spin_pc \<Rightarrow> nat \<Rightarrow> spin_pc \<times> nat" where
  "spin_fail 0 pc y = (pc, y)"
| "spin_fail (Suc n) pc y = (case Lock_step 1 pc of (_, pc', k) \<Rightarrow> spin_fail n pc' (y + k))"

lemma spin_fail_add:
  "spin_fail (m + n) pc y = (case spin_fail m pc y of (pc', y') \<Rightarrow> spin_fail n pc' y')"
  by (induction m arbitrary: pc y) (auto split: prod.splits)

lemma spin_fail_fast:
  "i + n < fastSpin \<Longrightarrow> spin_fail n (SpinFast i) y = (SpinFast (i + n), y + ((i + n) div 16 - i div 16))"
proof (induction n arbitrary: i y)
  case (Suc n)
  have "Suc i div 16 = i div 16 + (if Suc i mod 16 = 0 then 1 else 0)" by (simp add: div_Suc)
  moreover have "Suc i div 16 \<le> (Suc i + n) div 16" by (simp add: div_le_mono)
  ultimately show ?case
    using Suc.prems Suc.IH [of "Suc i"]
    by (simp add: Lock_step_def CompareAndSwapUint32_def spin_consts)
qed simp

lemma spin_fail_slow:
  "4 \<le> r \<Longrightarrow> r + n < maxRounds \<Longrightarrow> spin_fail n (SpinSlow r 16) y = (SpinSlow (r + n) 16, y + 16 * n)"
  by (induction n arbitrary: r y) (simp_all add: Lock_step_def CompareAndSwapUint32_def spin_consts)

section \<open>Properties\<close>

text \<open>
  C31. Mutual exclusion: in every reachable state at most one goroutine holds the lock, and
  the lock word is 1 exactly when one does.
\<close>

theorem Lock_mutual_exclusion:
  assumes "spin_reach s"
  shows "(\<forall>t u. pcs s t = SpinHeld \<and> pcs s u = SpinHeld \<longrightarrow> t = u) \<and>
         (lockWord s = 1 \<longleftrightarrow> (\<exists>t. pcs s t = SpinHeld))"
proof -
  have inv: "spin_inv s" by (rule spin_reach_inv [OF assms])
  then consider "lockWord s = 0" "holders (pcs s) = {}" | t where "lockWord s = 1" "holders (pcs s) = {t}"
    by (auto simp: spin_inv_def)
  then show ?thesis
  proof cases
    case 1
    then show ?thesis by (auto simp: holders_def)
  next
    case (2 t)
    then have "pcs s u = SpinHeld \<longleftrightarrow> u = t" for u by (auto simp: holders_def)
    with 2(1) show ?thesis by auto
  qed
qed

definition spin_example :: spin_sys where
  "spin_example = \<lparr>lockWord = 1, pcs = (\<lambda>_. SpinOut)(0 := SpinHeld, 1 := SpinFast 0)\<rparr>"

lemma spin_example_reach: "spin_reach spin_example"
proof -
  let ?s1 = "newSpinLock\<lparr>pcs := (pcs newSpinLock)(0 := SpinFast 0)\<rparr>"
  have 1: "spin_reach ?s1"
    by (rule spin_reach.step [OF spin_reach.init spin_step.enter]) (simp add: newSpinLock_def)
  have "spin_step ?s1 (?s1\<lparr>lockWord := 1, pcs := (pcs ?s1)(0 := SpinHeld)\<rparr>)"
    by (rule spin_step.attempt [where y = 0])
      (simp_all add: newSpinLock_def spinning_def Lock_step_def CompareAndSwapUint32_def)
  then have 2: "spin_reach (?s1\<lparr>lockWord := 1, pcs := (pcs ?s1)(0 := SpinHeld)\<rparr>)"
    by (rule spin_reach.step [OF 1])
  have "spin_step (?s1\<lparr>lockWord := 1, pcs := (pcs ?s1)(0 := SpinHeld)\<rparr>) spin_example"
    using spin_step.enter [of "?s1\<lparr>lockWord := 1, pcs := (pcs ?s1)(0 := SpinHeld)\<rparr>" 1]
    by (simp add: newSpinLock_def spin_example_def)
  then show ?thesis by (rule spin_reach.step [OF 2])
qed

theorem Lock_mutual_exclusion_witness:
  "\<forall>t. pcs spin_example t = SpinHeld \<longleftrightarrow> t = 0"
proof -
  have "pcs spin_example 0 = SpinHeld" by (simp add: spin_example_def)
  then show ?thesis using Lock_mutual_exclusion [OF spin_example_reach] by blast
qed

text \<open>
  The waiting schedule of \<^verbatim>\<open>Lock\<close> against a lock that stays held: after the 100 fast
  and 1024 slow attempts it has yielded exactly 16341 times and is in the last phase, where
  every further attempt yields once.
\<close>

theorem Lock_wait_schedule:
  "spin_fail (fastSpin + maxRounds) (SpinFast 0) 0 = (SpinWait, 16341) \<and>
   Lock_step 1 SpinWait = (1, SpinWait, 1)"
proof -
  have 1: "spin_fail 99 (SpinFast 0) 0 = (SpinFast 99, 6)"
    using spin_fail_fast [of 0 99 0] by (simp add: fastSpin_def)
  have 2: "spin_fail 5 (SpinFast 99) 6 = (SpinSlow 4 16, 21)"
    by (simp add: numeral_eq_Suc) (simp add: Lock_step_def CompareAndSwapUint32_def spin_consts push_bit_eq_mult)
  have 3: "spin_fail 1019 (SpinSlow 4 16) 21 = (SpinSlow 1023 16, 16325)"
    using spin_fail_slow [of 4 1019 21] by (simp add: maxRounds_def)
  have 4: "spin_fail 1 (SpinSlow 1023 16) 16325 = (SpinWait, 16341)"
    by (simp add: Lock_step_def CompareAndSwapUint32_def spin_consts)
  have "fastSpin + maxRounds = 99 + (5 + (1019 + 1))" by (simp add: spin_consts)
  then have "spin_fail (fastSpin + maxRounds) (SpinFast 0) 0 = (SpinWait, 16341)"
    by (simp only: spin_fail_add 1 2 3 4 prod.case)
  then show ?thesis by (simp add: Lock_step_def CompareAndSwapUint32_def)
qed

text \<open>
  The lock is never missed: whichever phase a waiting goroutine is in, its next attempt
  on a free lock acquires it, without yielding.
\<close>

theorem Lock_acquires_when_free:
  assumes "spin_reach s" and "lockWord s = 0" and "spinning (pcs s t)"
  shows "Lock_step (lockWord s) (pcs s t) = (1, SpinHeld, 0) \<and>
         spin_step s (s\<lparr>lockWord := 1, pcs := (pcs s)(t := SpinHeld)\<rparr>)"
proof -
  have "Lock_step (lockWord s) (pcs s t) = (1, SpinHeld, 0)"
    using assms(2,3) by (cases "pcs s t") (simp_all add: Lock_step_def CompareAndSwapUint32_def spinning_def)
  then show ?thesis using spin_step.attempt [OF assms(3)] by simp
qed

definition spin_waiting :: spin_sys where
  "spin_waiting = newSpinLock\<lparr>pcs := (pcs newSpinLock)(7 := SpinFast 0)\<rparr>"

theorem Lock_acquires_when_free_witness:
  "Lock_step (lockWord spin_waiting) (pcs spin_waiting 7) = (1, SpinHeld, 0)"
proof -
  have "spin_reach spin_waiting"
    unfolding spin_waiting_def
    by (rule spin_reach.step [OF spin_reach.init spin_step.enter]) (simp add: newSpinLock_def)
  then show ?thesis
    using Lock_acquires_when_free [of spin_waiting 7] by (simp add: spin_waiting_def newSpinLock_def spinning_def)
qed

end
