(* ===== verification/Task_Context.thy ===== *)
theory Task_Context
  imports Go_Prelude
begin

text \<open>
  \<^verbatim>\<open>internal/context\<close>: the mutable per-task context with its labels, trace id and
  lifecycle timestamps. Contexts are objects in a store and are recycled through a
  \<^verbatim>\<open>sync.Pool\<close>; standard contexts are the chains that \<^verbatim>\<open>context.WithValue\<close> and the
  cancelling constructors build over them. The bytes of \<^verbatim>\<open>crypto/rand\<close> are an argument.
\<close>

section \<open>Values, keys and contexts\<close>

datatype 'x any = AString string | ATime time | AEmpty | APoolContext nat | AOther 'x

datatype 'x ctx_key = KString string | KPoolContext | KOther 'x

datatype 'x std_context =
    Background
  | WithValue "'x std_context" "'x ctx_key" "'x any"
  | WithCancel "'x std_context"
  | PoolContext nat

record 'x Context =
  embedded :: "'x std_context option"
  labels :: "string \<Rightarrow> 'x any option"

record 'x context_heap =
  ctxMem :: "nat \<Rightarrow> 'x Context option"
  contextPool :: "nat list"
  ctxFresh :: nat

definition LabelTraceID :: string where "LabelTraceID = ''trace_id''"
definition LabelTiming :: string where "LabelTiming = ''_timing''"
definition LabelTimingSubmitted :: string where "LabelTimingSubmitted = ''_timing_submitted''"
definition LabelTimingEnqueued :: string where "LabelTimingEnqueued = ''_timing_enqueued''"
definition LabelTimingStarted :: string where "LabelTimingStarted = ''_timing_started''"
definition LabelTimingCompleted :: string where "LabelTimingCompleted = ''_timing_completed''"

lemmas label_defs = LabelTraceID_def LabelTiming_def LabelTimingSubmitted_def LabelTimingEnqueued_def
  LabelTimingStarted_def LabelTimingCompleted_def

section \<open>Labels\<close>

definition Store :: "string \<Rightarrow> 'x any \<Rightarrow> 'x Context \<Rightarrow> 'x Context" where
  "Store key v c = c\<lparr>labels := (labels c)(key \<mapsto> v)\<rparr>"

definition Get :: "string \<Rightarrow> 'x Context \<Rightarrow> 'x any option" where
  "Get key c = labels c key"

definition GetString :: "string \<Rightarrow> 'x Context \<Rightarrow> string" where
  "GetString key c = (case labels c key of Some (AString s) \<Rightarrow> s | _ \<Rightarrow> [])"

definition GetTime :: "string \<Rightarrow> 'x Context \<Rightarrow> time" where
  "GetTime key c = (case labels c key of Some (ATime t) \<Rightarrow> t | _ \<Rightarrow> 0)"

definition Reset :: "'x Context \<Rightarrow> 'x Context" where
  "Reset c = c\<lparr>labels := (\<lambda>_. None)\<rparr>"

definition SetTraceID :: "string \<Rightarrow> 'x Context \<Rightarrow> 'x Context" where
  "SetTraceID ident c = Store LabelTraceID (AString ident) c"

definition EnableTiming :: "'x Context \<Rightarrow> 'x Context" where
  "EnableTiming c = Store LabelTiming AEmpty c"

definition IsTimingEnabled :: "'x Context \<Rightarrow> bool" where
  "IsTimingEnabled c \<longleftrightarrow> Get LabelTiming c \<noteq> None"

section \<open>Object lifecycle\<close>

definition context_Get :: "nat option \<Rightarrow> 'x context_heap \<Rightarrow> nat \<times> 'x context_heap" where
  "context_Get pick h =
     (let (a, items) = sync_Pool_Get pick (ctxFresh h) (contextPool h) in
      if a = ctxFresh h then
        (a, h\<lparr>ctxMem := (ctxMem h)(a \<mapsto> \<lparr>embedded = None, labels = (\<lambda>_. None)\<rparr>), ctxFresh := Suc a\<rparr>)
      else (a, h\<lparr>contextPool := items\<rparr>))"

definition NewContext :: "nat option \<Rightarrow> 'x std_context option \<Rightarrow> 'x context_heap \<Rightarrow> (nat \<times> 'x context_heap) option" where
  "NewContext pick parent h =
     (let par = (case parent of None \<Rightarrow> Background | Some p \<Rightarrow> p); (a, h1) = context_Get pick h in
      case ctxMem h1 a of
        None \<Rightarrow> None
      | Some c \<Rightarrow>
          Some (a, h1\<lparr>ctxMem := (ctxMem h1)(a \<mapsto> c\<lparr>embedded := Some (WithValue par KPoolContext (APoolContext a))\<rparr>)\<rparr>))"

definition Release :: "nat \<Rightarrow> 'x context_heap \<Rightarrow> 'x context_heap option" where
  "Release a h =
     (case ctxMem h a of
        None \<Rightarrow> None
      | Some c \<Rightarrow>
          Some (h\<lparr>ctxMem := (ctxMem h)(a \<mapsto> (Reset c)\<lparr>embedded := None\<rparr>),
                  contextPool := sync_Pool_Put a (contextPool h)\<rparr>))"

text \<open>
  \<^verbatim>\<open>Value\<close> follows the chain through the store; \<open>None\<close> outside is a nil dereference (the
  context was released) or a chain that does not end.
\<close>

partial_function (option) ctx_Value :: "'x context_heap \<Rightarrow> 'x std_context \<Rightarrow> 'x ctx_key \<Rightarrow> 'x any option option" where
  "ctx_Value h ctx key =
     (case ctx of
        Background \<Rightarrow> Some None
      | WithValue p k v \<Rightarrow> if k = key then Some (Some v) else ctx_Value h p key
      | WithCancel p \<Rightarrow> ctx_Value h p key
      | PoolContext a \<Rightarrow>
          (case ctxMem h a of
             None \<Rightarrow> None
           | Some c \<Rightarrow>
               (case (case key of KString k \<Rightarrow> labels c k | _ \<Rightarrow> None) of
                  Some v \<Rightarrow> Some (Some v)
                | None \<Rightarrow> (case embedded c of None \<Rightarrow> None | Some p \<Rightarrow> ctx_Value h p key))))"

definition PoolContextFrom :: "'x context_heap \<Rightarrow> 'x std_context \<Rightarrow> nat option option" where
  "PoolContextFrom h ctx =
     (case ctx of
        PoolContext a \<Rightarrow> Some (Some a)
      | _ \<Rightarrow>
          (case ctx_Value h ctx KPoolContext of
             None \<Rightarrow> None
           | Some (Some (APoolContext a)) \<Rightarrow> Some (Some a)
           | Some _ \<Rightarrow> Some None))"

section \<open>Trace identifiers\<close>

text \<open>\<^verbatim>\<open>hex.EncodeToString\<close>: two lower-case digits per byte.\<close>

definition hextable :: string where
  "hextable = ''0123456789abcdef''"

fun EncodeToString :: "8 word list \<Rightarrow> string" where
  "EncodeToString [] = []"
| "EncodeToString (b # bs) =
     hextable ! unat (drop_bit 4 b) # hextable ! unat (take_bit 4 b) # EncodeToString bs"

text \<open>
  \<^verbatim>\<open>newTraceID\<close> encodes what \<^verbatim>\<open>rand.Read\<close> put into its buffer of 16 bytes; \<open>None\<close> is an error of
  \<^verbatim>\<open>rand.Read\<close>. The number of bytes plays no role below and is left open.
\<close>

definition newTraceID :: "8 word list option \<Rightarrow> string option" where
  "newTraceID rand = map_option EncodeToString rand"

definition trace_label :: "'x Context \<Rightarrow> string option" where
  "trace_label c =
     (case labels c LabelTraceID of Some (AString s) \<Rightarrow> if s \<noteq> [] then Some s else None | _ \<Rightarrow> None)"

text \<open>
  \<^verbatim>\<open>TraceID\<close> takes the lock twice and generates in between: \<open>TraceID_fast\<close> is the first
  critical section, \<open>TraceID_slow\<close> the second, with the identifier generated.
\<close>

definition TraceID_fast :: "'x Context \<Rightarrow> string option" where
  "TraceID_fast c = trace_label c"

definition TraceID_slow :: "string \<Rightarrow> 'x Context \<Rightarrow> string \<times> 'x Context" where
  "TraceID_slow ident c =
     (case trace_label c of
        Some existing \<Rightarrow> (existing, c)
      | None \<Rightarrow> (ident, Store LabelTraceID (AString ident) c))"

definition TraceID :: "8 word list option \<Rightarrow> 'x Context \<Rightarrow> string option \<times> 'x Context" where
  "TraceID rand c =
     (case TraceID_fast c of
        Some ident \<Rightarrow> (Some ident, c)
      | None \<Rightarrow>
          (case newTraceID rand of
             None \<Rightarrow> (None, c)
           | Some ident \<Rightarrow> (case TraceID_slow ident c of (r, c') \<Rightarrow> (Some r, c'))))"

section \<open>Timing\<close>

definition Timing :: "'x Context \<Rightarrow> time \<times> time \<times> time \<times> time" where
  "Timing c =
     (GetTime LabelTimingSubmitted c, GetTime LabelTimingEnqueued c,
      GetTime LabelTimingStarted c, GetTime LabelTimingCompleted c)"

definition Duration :: "time \<Rightarrow> 'x Context \<Rightarrow> duration" where
  "Duration now c =
     (let start = GetTime LabelTimingStarted c in if IsZero start then 0 else time_Sub now start)"

definition TotalLatency :: "'x Context \<Rightarrow> duration" where
  "TotalLatency c =
     (let (submitted, _, _, completed) = Timing c
      in if IsZero submitted \<or> IsZero completed then 0 else time_Sub completed submitted)"

definition QueueLatency :: "'x Context \<Rightarrow> duration" where
  "QueueLatency c =
     (let (submitted, _, started, _) = Timing c
      in if IsZero submitted \<or> IsZero started then 0 else time_Sub started submitted)"

definition ExecLatency :: "'x Context \<Rightarrow> duration" where
  "ExecLatency c =
     (let (_, _, started, completed) = Timing c
      in if IsZero started \<or> IsZero completed then 0 else time_Sub completed started)"

definition HandoffLatency :: "'x Context \<Rightarrow> duration" where
  "HandoffLatency c =
     (let (submitted, enqueued, _, _) = Timing c
      in if IsZero submitted \<or> IsZero enqueued then 0 else time_Sub enqueued submitted)"

definition QueueWaitLatency :: "'x Context \<Rightarrow> duration" where
  "QueueWaitLatency c =
     (let (_, enqueued, started, _) = Timing c
      in if IsZero enqueued \<or> IsZero started then 0 else time_Sub started enqueued)"

lemmas latency_defs = TotalLatency_def QueueLatency_def ExecLatency_def HandoffLatency_def
  QueueWaitLatency_def Timing_def IsZero_def time_Sub_def

section \<open>Reuse leaks nothing\<close>

definition ctx_clean :: "'x Context \<Rightarrow> bool" where
  "ctx_clean c \<longleftrightarrow> embedded c = None \<and> labels c = (\<lambda>_. None)"

text \<open>Live and pooled contexts are disjoint; every pooled one is clean.\<close>

definition heap_ok :: "nat set \<Rightarrow> 'x context_heap \<Rightarrow> bool" where
  "heap_ok live h \<longleftrightarrow>
     distinct (contextPool h) \<and> live \<inter> set (contextPool h) = {} \<and>
     (\<forall>a\<in>live \<union> set (contextPool h). a < ctxFresh h \<and> ctxMem h a \<noteq> None) \<and>
     (\<forall>a\<in>set (contextPool h). \<exists>c. ctxMem h a = Some c \<and> ctx_clean c)"

definition heap_init :: "'x context_heap" where
  "heap_init = \<lparr>ctxMem = (\<lambda>_. None), contextPool = [], ctxFresh = 0\<rparr>"

lemma heap_init_ok: "heap_ok {} heap_init"
  by (simp add: heap_ok_def heap_init_def)

lemma context_Get_ok:
  assumes "heap_ok live h" and "context_Get pick h = (a, h1)"
  shows "a \<notin> live \<and> heap_ok (insert a live) h1 \<and> (\<exists>c. ctxMem h1 a = Some c \<and> ctx_clean c) \<and>
         (\<forall>b. b \<noteq> a \<longrightarrow> ctxMem h1 b = ctxMem h b)"
proof -
  obtain x items where g: "sync_Pool_Get pick (ctxFresh h) (contextPool h) = (x, items)" by fastforce
  show ?thesis
  proof (cases "x = ctxFresh h")
    case True
    then have "a = ctxFresh h"
      and "h1 = h\<lparr>ctxMem := (ctxMem h)(a \<mapsto> \<lparr>embedded = None, labels = (\<lambda>_. None)\<rparr>), ctxFresh := Suc a\<rparr>"
      using assms(2) g by (auto simp: context_Get_def)
    moreover have "ctxFresh h \<notin> live \<union> set (contextPool h)" using assms(1) by (auto simp: heap_ok_def)
    ultimately show ?thesis using assms(1) by (auto simp: heap_ok_def ctx_clean_def less_Suc_eq)
  next
    case False
    then have a: "a = x" and h1: "h1 = h\<lparr>contextPool := items\<rparr>" using assms(2) g by (auto simp: context_Get_def)
    have m: "mset (contextPool h) = add_mset x (mset items)" using sync_Pool_Get_mset [OF g] False by blast
    then have s: "set (contextPool h) = insert x (set items)" by (metis set_mset_add_mset_insert set_mset_mset)
    have "distinct (x # items)"
      using assms(1) m mset_eq_imp_distinct_iff [of "contextPool h" "x # items"] by (simp add: heap_ok_def)
    then show ?thesis using assms(1) s by (auto simp: a h1 heap_ok_def)
  qed
qed

lemma NewContext_ok:
  assumes "heap_ok live h"
  shows "\<exists>a h' c. NewContext pick parent h = Some (a, h') \<and> a \<notin> live \<and> heap_ok (insert a live) h' \<and>
           ctxMem h' a = Some c \<and> labels c = (\<lambda>_. None) \<and>
           embedded c = Some (WithValue (case parent of None \<Rightarrow> Background | Some p \<Rightarrow> p) KPoolContext (APoolContext a)) \<and>
           (\<forall>b. b \<noteq> a \<longrightarrow> ctxMem h' b = ctxMem h b)"
proof -
  obtain a h1 where g: "context_Get pick h = (a, h1)" by fastforce
  from context_Get_ok [OF assms g] obtain c where "a \<notin> live" "heap_ok (insert a live) h1"
    "ctxMem h1 a = Some c" "ctx_clean c" and fr: "\<forall>b. b \<noteq> a \<longrightarrow> ctxMem h1 b = ctxMem h b" by blast
  define h' where "h' = h1\<lparr>ctxMem := (ctxMem h1)(a \<mapsto> c\<lparr>embedded :=
    Some (WithValue (case parent of None \<Rightarrow> Background | Some p \<Rightarrow> p) KPoolContext (APoolContext a))\<rparr>)\<rparr>"
  have "NewContext pick parent h = Some (a, h')"
    using \<open>ctxMem h1 a = Some c\<close> by (simp add: NewContext_def g h'_def)
  moreover have "heap_ok (insert a live) h'"
    using \<open>heap_ok (insert a live) h1\<close> unfolding heap_ok_def h'_def by auto
  ultimately show ?thesis using \<open>a \<notin> live\<close> \<open>ctx_clean c\<close> fr by (auto simp: h'_def ctx_clean_def)
qed

lemma Release_ok:
  assumes "heap_ok live h" and "a \<in> live"
  shows "\<exists>h'. Release a h = Some h' \<and> heap_ok (live - {a}) h'"
proof -
  obtain c where "ctxMem h a = Some c" using assms unfolding heap_ok_def by blast
  then show ?thesis using assms by (auto simp: Release_def heap_ok_def Reset_def ctx_clean_def sync_Pool_Put_def)
qed

text \<open>
  What clients do with contexts: take them, write labels, release them. A context is used
  between the \<^verbatim>\<open>NewContext\<close> that returned it and its \<^verbatim>\<open>Release\<close> only, which is called once.
\<close>

inductive writes :: "('x Context \<Rightarrow> 'x Context) \<Rightarrow> bool" where
  "writes (Store key v)"
| "writes Reset"
| "writes (SetTraceID ident)"
| "writes EnableTiming"
| "writes (\<lambda>c. snd (TraceID rand c))"

inductive ctx_history :: "nat set \<Rightarrow> 'x context_heap \<Rightarrow> bool" where
  hist_start: "ctx_history {} heap_init"
| hist_new: "ctx_history live h \<Longrightarrow> NewContext pick parent h = Some (a, h') \<Longrightarrow> ctx_history (insert a live) h'"
| hist_write: "ctx_history live h \<Longrightarrow> a \<in> live \<Longrightarrow> ctxMem h a = Some c \<Longrightarrow> writes f \<Longrightarrow>
    ctx_history live (h\<lparr>ctxMem := (ctxMem h)(a \<mapsto> f c)\<rparr>)"
| hist_release: "ctx_history live h \<Longrightarrow> a \<in> live \<Longrightarrow> Release a h = Some h' \<Longrightarrow> ctx_history (live - {a}) h'"

lemma ctx_history_ok: "ctx_history live h \<Longrightarrow> heap_ok live h"
proof (induction rule: ctx_history.induct)
  case hist_start
  show ?case by (rule heap_init_ok)
next
  case (hist_new live h pick parent a h')
  then show ?case using NewContext_ok [of live h pick parent] by fastforce
next
  case (hist_write live h a c f)
  then show ?case by (auto simp: heap_ok_def)
next
  case (hist_release live h a h')
  then show ?case using Release_ok [of live h a] by fastforce
qed

section \<open>Finding the context again\<close>

text \<open>What clients wrap around a context: values under other keys, cancellation, deadlines.\<close>

inductive wraps :: "nat \<Rightarrow> 'x std_context \<Rightarrow> bool" where
  "wraps a (PoolContext a)"
| "wraps a ctx \<Longrightarrow> k \<noteq> KPoolContext \<Longrightarrow> wraps a (WithValue ctx k v)"
| "wraps a ctx \<Longrightarrow> wraps a (WithCancel ctx)"

lemma wraps_Value:
  assumes "wraps a ctx" and "ctxMem h a = Some c" and "embedded c = Some (WithValue p KPoolContext (APoolContext a))"
  shows "ctx_Value h ctx KPoolContext = Some (Some (APoolContext a))"
  using assms
proof (induction rule: wraps.induct)
  case (1 a)
  then show ?case
    using ctx_Value.simps [of h "WithValue p KPoolContext (APoolContext a)" KPoolContext]
    by (subst ctx_Value.simps) simp
next
  case (2 a ctx k v)
  then show ?case by (subst ctx_Value.simps) simp
next
  case (3 a ctx)
  then show ?case by (subst ctx_Value.simps) simp
qed

lemma PoolContextFrom_wraps:
  assumes "wraps a ctx" and "ctxMem h a = Some c" and "embedded c = Some (WithValue p KPoolContext (APoolContext a))"
  shows "PoolContextFrom h ctx = Some (Some a)"
  using assms(1) wraps_Value [OF assms] by (cases ctx) (auto simp: PoolContextFrom_def elim: wraps.cases)

section \<open>One trace identifier\<close>

lemma length_EncodeToString: "length (EncodeToString bs) = 2 * length bs"
  by (induction bs) simp_all

text \<open>
  Concurrent calls: each caller that missed the fast path carries the identifier it
  generated; the second critical sections run in some order.
\<close>

lemma trace_label_Store: "ident \<noteq> [] \<Longrightarrow> trace_label (Store LabelTraceID (AString ident) c) = Some ident"
  by (simp add: trace_label_def Store_def)

fun TraceID_race :: "string list \<Rightarrow> 'x Context \<Rightarrow> string list \<times> 'x Context" where
  "TraceID_race [] c = ([], c)"
| "TraceID_race (i # idents) c =
     (let (r, c1) = TraceID_slow i c; (rs, c2) = TraceID_race idents c1 in (r # rs, c2))"

lemma TraceID_race_agree:
  assumes "\<forall>i\<in>set idents. i \<noteq> []" and "TraceID_race idents c = (rs, c')" and "trace_label c = Some x"
  shows "(\<forall>r\<in>set rs. r = x) \<and> c' = c"
  using assms
  by (induction idents arbitrary: c rs c') (auto simp: TraceID_slow_def split: prod.splits)

section \<open>Reading a trace identifier back\<close>

text \<open>The inverse of \<^verbatim>\<open>hex.EncodeToString\<close>, as a reference: \<open>None\<close> for any other string.\<close>

definition hex_digit :: "char \<Rightarrow> nat option" where
  "hex_digit ch = List.find (\<lambda>i. hextable ! i = ch) [0..<16]"

fun DecodeString :: "string \<Rightarrow> 8 word list option" where
  "DecodeString [] = Some []"
| "DecodeString [ch] = None"
| "DecodeString (hi # lo # s) =
     (case (hex_digit hi, hex_digit lo, DecodeString s) of
        (Some x, Some y, Some bs) \<Rightarrow> Some (of_nat (16 * x + y) # bs)
      | _ \<Rightarrow> None)"

lemma hex_digit_hextable: "i < 16 \<Longrightarrow> hex_digit (hextable ! i) = Some i"
proof -
  have "\<forall>i\<in>set [0..<16]. hex_digit (hextable ! i) = Some i" by code_simp
  then show "i < 16 \<Longrightarrow> hex_digit (hextable ! i) = Some i" by simp
qed

lemma byte_halves:
  fixes b :: "8 word"
  shows "unat (drop_bit 4 b) < 16" and "unat (take_bit 4 b) < 16" and "of_nat (16 * unat (drop_bit 4 b) + unat (take_bit 4 b)) = b"
proof -
  have b: "unat b < 256" using unsigned_less [of b] by simp
  have d: "unat (drop_bit 4 b) = unat b div 16" by (simp add: drop_bit_eq_div unat_div_distrib)
  have t: "unat (take_bit 4 b) = unat b mod 16" by (simp add: take_bit_eq_mod unat_mod_distrib)
  show "unat (drop_bit 4 b) < 16" "unat (take_bit 4 b) < 16" using b by (simp_all add: d t)
  have "16 * unat (drop_bit 4 b) + unat (take_bit 4 b) = unat b" unfolding d t by simp
  then show "of_nat (16 * unat (drop_bit 4 b) + unat (take_bit 4 b)) = b" by simp
qed

lemma Decode_Encode: "DecodeString (EncodeToString bs) = Some bs"
proof (induction bs)
  case (Cons b bs)
  then show ?case using byte_halves [of b] by (simp add: hex_digit_hextable)
qed simp

section \<open>Properties\<close>

text \<open>
  C36. A recycled context leaks nothing. After any history in which clients take contexts,
  write labels into them and release them, whichever pooled object \<^verbatim>\<open>sync.Pool\<close> returns:
  \<^verbatim>\<open>NewContext\<close> gives a context that nobody else holds, without any label of an earlier use,
  which \<^verbatim>\<open>PoolContextFrom\<close> finds through any wrapping by values under other keys and by
  cancellation; the other contexts are untouched. Releasing a context that is held never
  fails.
\<close>

theorem NewContext_fresh_and_found:
  assumes "ctx_history live h"
  shows "(\<exists>a h' c. NewContext pick parent h = Some (a, h') \<and> a \<notin> live \<and> ctxMem h' a = Some c \<and> labels c = (\<lambda>_. None) \<and>
           (\<forall>ctx. wraps a ctx \<longrightarrow> PoolContextFrom h' ctx = Some (Some a)) \<and>
           (\<forall>b. b \<noteq> a \<longrightarrow> ctxMem h' b = ctxMem h b)) \<and>
         (\<forall>a\<in>live. \<exists>h'. Release a h = Some h')"
proof -
  have ok: "heap_ok live h" by (rule ctx_history_ok [OF assms])
  obtain a h' c where n: "NewContext pick parent h = Some (a, h')" "a \<notin> live" "ctxMem h' a = Some c" "labels c = (\<lambda>_. None)"
    "embedded c = Some (WithValue (case parent of None \<Rightarrow> Background | Some p \<Rightarrow> p) KPoolContext (APoolContext a))"
    "\<forall>b. b \<noteq> a \<longrightarrow> ctxMem h' b = ctxMem h b"
    using NewContext_ok [OF ok, of pick parent] by blast
  then show ?thesis using PoolContextFrom_wraps [OF _ n(3,5)] Release_ok [OF ok] by blast
qed

text \<open>A context was taken, given a trace id and released; the next one is the same object.\<close>

definition used_heap :: "unit context_heap option" where
  "used_heap =
     (case NewContext None None heap_init of
        None \<Rightarrow> None
      | Some (a, h) \<Rightarrow>
          (case ctxMem h a of None \<Rightarrow> None | Some c \<Rightarrow> Release a (h\<lparr>ctxMem := (ctxMem h)(a \<mapsto> SetTraceID ''abc'' c)\<rparr>)))"

lemma used_heap_history: "\<exists>h. used_heap = Some h \<and> ctx_history {} h \<and> contextPool h = [0]"
proof -
  obtain a and h :: "unit context_heap" where n: "NewContext None None heap_init = Some (a, h)" "a = 0" "contextPool h = []"
    by (simp add: NewContext_def context_Get_def sync_Pool_Get_def heap_init_def)
  have h1: "ctx_history {a} h" using hist_new [OF hist_start n(1)] .
  obtain c where c: "ctxMem h a = Some c" using ctx_history_ok [OF h1] by (auto simp: heap_ok_def)
  have h2: "ctx_history {a} (h\<lparr>ctxMem := (ctxMem h)(a \<mapsto> SetTraceID ''abc'' c)\<rparr>)"
    by (rule hist_write [OF h1 _ c]) (simp_all add: writes.intros)
  obtain h3 where h3: "Release a (h\<lparr>ctxMem := (ctxMem h)(a \<mapsto> SetTraceID ''abc'' c)\<rparr>) = Some h3"
    using Release_ok [OF ctx_history_ok [OF h2]] by blast
  have "ctx_history {} h3" using hist_release [OF h2 _ h3] by simp
  then show ?thesis using n c h3 by (auto simp: used_heap_def Release_def sync_Pool_Put_def)
qed

theorem NewContext_fresh_and_found_witness:
  "\<exists>h h' c. used_heap = Some h \<and> NewContext (Some 0) None h = Some (0, h') \<and> ctxMem h' 0 = Some c \<and> labels c = (\<lambda>_. None) \<and>
     PoolContextFrom h' (WithCancel (PoolContext 0)) = Some (Some 0)"
proof -
  obtain h where h: "used_heap = Some h" "ctx_history {} h" "contextPool h = [0]" using used_heap_history by blast
  obtain a h' c where n: "NewContext (Some 0) None h = Some (a, h')" "ctxMem h' a = Some c" "labels c = (\<lambda>_. None)"
    "\<forall>ctx. wraps a ctx \<longrightarrow> PoolContextFrom h' ctx = Some (Some a)"
    using NewContext_fresh_and_found [OF h(2), of "Some 0" None] by blast
  have "0 < ctxFresh h" using ctx_history_ok [OF h(2)] h(3) by (simp add: heap_ok_def)
  then have "a = 0" using n(1) h(3)
    by (auto simp: NewContext_def context_Get_def sync_Pool_Get_def Let_def split: option.splits if_splits)
  then show ?thesis using h(1) n wraps.intros by blast
qed

text \<open>
  Concurrent calls of \<^verbatim>\<open>TraceID\<close> agree: when several callers have missed the fast path
  and generated identifiers of their own, all of them return the identifier of whichever
  takes the lock first, and that one is stored.
\<close>

theorem TraceID_callers_agree:
  assumes "trace_label c = None" and "idents \<noteq> []" and "\<forall>i\<in>set idents. i \<noteq> []"
  shows "\<exists>c'. TraceID_race idents c = (replicate (length idents) (hd idents), c') \<and>
           trace_label c' = Some (hd idents) \<and> TraceID rand c' = (Some (hd idents), c')"
proof -
  obtain i js where i: "idents = i # js" using assms(2) by (cases idents) auto
  define c1 where "c1 = Store LabelTraceID (AString i) c"
  have l: "trace_label c1 = Some i" unfolding c1_def using assms(3) i by (intro trace_label_Store) simp
  obtain rs c' where r: "TraceID_race js c1 = (rs, c')" by fastforce
  have len: "length (fst (TraceID_race ks d)) = length ks" for ks and d :: "'a Context"
    by (induction ks arbitrary: d) (auto split: prod.splits simp: Let_def, metis fst_conv)
  have "(\<forall>x\<in>set rs. x = i) \<and> c' = c1" using TraceID_race_agree [OF _ r l] assms(3) i by simp
  moreover have "length rs = length js" using len [of js c1] r by simp
  ultimately have "rs = replicate (length js) i" and "c' = c1" by (simp_all add: replicate_eqI)
  moreover have "TraceID_slow i c = (i, c1)" using assms(1) by (simp add: TraceID_slow_def c1_def)
  ultimately show ?thesis using l r by (simp add: i TraceID_def TraceID_fast_def)
qed

theorem TraceID_callers_agree_witness:
  "\<exists>c'. TraceID_race [''aa'', ''bb''] (\<lparr>embedded = None, labels = (\<lambda>_. None)\<rparr> :: unit Context) = ([''aa'', ''aa''], c') \<and>
     TraceID None c' = (Some ''aa'', c')"
proof -
  have "trace_label (\<lparr>embedded = None, labels = (\<lambda>_. None)\<rparr> :: unit Context) = None"
    by (simp add: trace_label_def)
  from TraceID_callers_agree [OF this, of "[''aa'', ''bb'']" None] show ?thesis
    by (auto simp: numeral_2_eq_2)
qed

text \<open>
  C35. Trace identifiers survive the round trip: the identifier that \<^verbatim>\<open>TraceID\<close> generates for a
  context without one is what \<^verbatim>\<open>GetString\<close> and every later \<^verbatim>\<open>TraceID\<close> return, and it
  decodes to exactly the random bytes it was made of, so that different bytes give
  different identifiers.
\<close>

theorem trace_id_roundtrip:
  assumes "trace_label c = None" and "bs \<noteq> []"
  shows "\<exists>s c'. TraceID (Some bs) c = (Some s, c') \<and> GetString LabelTraceID c' = s \<and>
           TraceID rand c' = (Some s, c') \<and> length s = 2 * length bs \<and> DecodeString s = Some bs"
proof -
  let ?s = "EncodeToString bs"
  let ?c = "Store LabelTraceID (AString ?s) c"
  have "?s \<noteq> []" using assms(2) length_EncodeToString [of bs] by auto
  then have "trace_label ?c = Some ?s" by (rule trace_label_Store)
  moreover have "TraceID (Some bs) c = (Some ?s, ?c)"
    using assms(1) by (simp add: TraceID_def TraceID_fast_def newTraceID_def TraceID_slow_def)
  moreover have "GetString LabelTraceID ?c = ?s" by (simp add: GetString_def Store_def)
  ultimately show ?thesis by (simp add: TraceID_def TraceID_fast_def Decode_Encode length_EncodeToString)
qed

theorem trace_id_roundtrip_witness:
  "\<exists>s c'. TraceID (Some [0xDE, 0xAD]) (\<lparr>embedded = None, labels = (\<lambda>_. None)\<rparr> :: unit Context) = (Some s, c') \<and>
     GetString LabelTraceID c' = s \<and> DecodeString s = Some [0xDE, 0xAD]"
proof -
  have "trace_label (\<lparr>embedded = None, labels = (\<lambda>_. None)\<rparr> :: unit Context) = None" by (simp add: trace_label_def)
  from trace_id_roundtrip [OF this, of "[0xDE, 0xAD]"] show ?thesis by blast
qed

text \<open>
  The latencies add up: when all four timestamps are recorded and differ by less than
  292 years, the handoff and the queue wait make up the queue latency, and the queue and
  the execution latency make up the total latency.
\<close>

theorem latencies_add_up:
  assumes "Timing c = (s, e, r, d)" and "s \<noteq> 0" and "e \<noteq> 0" and "r \<noteq> 0" and "d \<noteq> 0"
    and "int64_range (e - s)" and "int64_range (r - e)" and "int64_range (d - r)"
    and "int64_range (r - s)" and "int64_range (d - s)"
  shows "HandoffLatency c + QueueWaitLatency c = QueueLatency c \<and> QueueLatency c + ExecLatency c = TotalLatency c"
  using assms by (simp add: HandoffLatency_def QueueWaitLatency_def QueueLatency_def ExecLatency_def
      TotalLatency_def IsZero_def time_Sub_def int64_range_def)

definition timed_context :: "unit Context" where
  "timed_context =
     Store LabelTimingCompleted (ATime 60) (Store LabelTimingStarted (ATime 30)
       (Store LabelTimingEnqueued (ATime 12) (Store LabelTimingSubmitted (ATime 10)
         \<lparr>embedded = None, labels = (\<lambda>_. None)\<rparr>)))"

theorem latencies_add_up_witness:
  "QueueLatency timed_context + ExecLatency timed_context = TotalLatency timed_context"
proof -
  have "Timing timed_context = (10, 12, 30, 60)"
    by (simp add: Timing_def GetTime_def timed_context_def Store_def label_defs)
  from latencies_add_up [OF this] show ?thesis by (simp add: int64_range_def)
qed

end
