(* ===== verification/Registry.thy ===== *)
theory Registry
  imports Scaler
begin

text \<open>
  The package-level state of \<^verbatim>\<open>pool.go\<close>: the pointer \<^verbatim>\<open>defaultPool\<close> that
  \<^verbatim>\<open>NewPool\<close> stores and \<^verbatim>\<open>Close\<close> clears, \<^verbatim>\<open>GetDefaultPool\<close>, and the logger
  cell of a pool. Pools are named by addresses in the order of their creation.
\<close>

section \<open>The default pool\<close>

record ('f, 'b, 'c, 'v, 'w) registry =
  pools :: "nat \<Rightarrow> ('f, 'b, 'c, 'v, 'w) Pool option"
  created :: nat
  defaultPool :: "nat option"

definition init_registry :: "('f, 'b, 'c, 'v, 'w) registry" where
  "init_registry = \<lparr>pools = \<lambda>_. None, created = 0, defaultPool = None\<rparr>"

definition GetDefaultPool :: "('f, 'b, 'c, 'v, 'w) registry \<Rightarrow> nat option" where
  "GetDefaultPool g =
     (case defaultPool g of
        None \<Rightarrow> None
      | Some a \<Rightarrow> (case pools g a of Some p \<Rightarrow> if closed p then None else Some a | None \<Rightarrow> Some a))"

text \<open>\<^verbatim>\<open>NewPool\<close> with its last statement, the store of the new pool.\<close>

definition register_NewPool ::
  "int \<Rightarrow> ('f, 'b, 'c, 'v, 'w) PanicHandler Config option \<Rightarrow> 'w \<Rightarrow> ('f, 'b, 'c, 'v, 'w) registry \<Rightarrow>
   ('f, 'b, 'c, 'v, 'w) registry option" where
  "register_NewPool procs cfg w g =
     map_option
       (\<lambda>p. g\<lparr>pools := (pools g)(created g \<mapsto> p), created := created g + 1, defaultPool := Some (created g)\<rparr>)
       (NewPool procs cfg w)"

text \<open>\<^verbatim>\<open>Close\<close> with its compare-and-swap on \<^verbatim>\<open>defaultPool\<close>.\<close>

definition register_Close :: "nat \<Rightarrow> ('f, 'b, 'c, 'v, 'w) registry \<Rightarrow> ('f, 'b, 'c, 'v, 'w) registry" where
  "register_Close a g =
     (case pools g a of
        None \<Rightarrow> g
      | Some p \<Rightarrow>
          if closed p then g
          else g\<lparr>pools := (pools g)(a \<mapsto> Close p), defaultPool := (if defaultPool g = Some a then None else defaultPool g)\<rparr>)"

text \<open>Any other call on a pool: it may change everything but whether the pool is closed.\<close>

definition register_call ::
  "nat \<Rightarrow> (('f, 'b, 'c, 'v, 'w) Pool \<Rightarrow> ('f, 'b, 'c, 'v, 'w) Pool) \<Rightarrow> ('f, 'b, 'c, 'v, 'w) registry \<Rightarrow> ('f, 'b, 'c, 'v, 'w) registry" where
  "register_call a f g =
     (case pools g a of None \<Rightarrow> g | Some p \<Rightarrow> g\<lparr>pools := (pools g)(a \<mapsto> (f p)\<lparr>closed := closed p\<rparr>)\<rparr>)"

inductive registry_reach :: "('f, 'b, 'c, 'v, 'w) registry \<Rightarrow> bool" where
  reg_init: "registry_reach init_registry"
| reg_new: "registry_reach g \<Longrightarrow> register_NewPool procs cfg w g = Some g' \<Longrightarrow> registry_reach g'"
| reg_close: "registry_reach g \<Longrightarrow> registry_reach (register_Close a g)"
| reg_call: "registry_reach g \<Longrightarrow> registry_reach (register_call a f g)"

text \<open>The pools are those created; the pointer is the last one, or nil once that is closed.\<close>

definition registry_inv :: "('f, 'b, 'c, 'v, 'w) registry \<Rightarrow> bool" where
  "registry_inv g \<longleftrightarrow>
     (\<forall>a. pools g a = None \<longleftrightarrow> created g \<le> a) \<and>
     (case defaultPool g of
        None \<Rightarrow> created g = 0 \<or> (\<exists>p. pools g (created g - 1) = Some p \<and> closed p)
      | Some a \<Rightarrow> created g = Suc a)"

lemma closed_Close [simp]: "closed (Close p)"
  by (simp add: Close_def)

lemma registry_inv_created: "registry_inv g \<Longrightarrow> pools g a = Some p \<Longrightarrow> a < created g"
  unfolding registry_inv_def by (metis not_le option.distinct(1))

lemma register_Close_inv:
  assumes "registry_inv g"
  shows "registry_inv (register_Close a g)"
proof (cases "\<exists>p. pools g a = Some p \<and> \<not> closed p")
  case True
  then obtain p where p: "pools g a = Some p" "\<not> closed p" by blast
  then show ?thesis
    using assms registry_inv_created [OF assms p(1)] by (cases "defaultPool g") (auto simp: registry_inv_def register_Close_def)
next
  case False
  then have "register_Close a g = g" by (auto simp: register_Close_def split: option.splits)
  then show ?thesis using assms by simp
qed

lemma register_call_inv:
  assumes "registry_inv g"
  shows "registry_inv (register_call a f g)"
proof (cases "pools g a")
  case (Some p)
  then show ?thesis
    using assms registry_inv_created [OF assms Some]
    by (cases "defaultPool g") (auto simp: registry_inv_def register_call_def)
qed (use assms in \<open>simp add: register_call_def\<close>)

lemma registry_reach_inv: "registry_reach g \<Longrightarrow> registry_inv g"
proof (induction rule: registry_reach.induct)
  case reg_init
  then show ?case by (simp add: registry_inv_def init_registry_def)
next
  case (reg_new g procs cfg w g')
  then obtain p where "g' = g\<lparr>pools := (pools g)(created g \<mapsto> p), created := created g + 1, defaultPool := Some (created g)\<rparr>"
    by (auto simp: register_NewPool_def)
  moreover have "pools g a = None \<longleftrightarrow> created g \<le> a" for a using reg_new.IH by (simp add: registry_inv_def)
  ultimately show ?case by (simp add: registry_inv_def) linarith
qed (simp_all add: register_Close_inv register_call_inv)

section \<open>The logger\<close>

text \<open>
  The cell holds a pointer to an interface value; both may be nil. \<open>std\<close> is
  \<^verbatim>\<open>log.Default()\<close>.
\<close>

type_synonym 'l logger_cell = "'l option option"

definition SetLogger :: "'l option \<Rightarrow> 'l logger_cell" where
  "SetLogger l = Some l"

definition getLogger :: "'l \<Rightarrow> 'l logger_cell \<Rightarrow> 'l" where
  "getLogger std cell = (case cell of Some (Some l) \<Rightarrow> l | _ \<Rightarrow> std)"

lemma getLogger_SetLogger: "getLogger std (SetLogger l) = (case l of None \<Rightarrow> std | Some l' \<Rightarrow> l')"
  by (simp add: getLogger_def SetLogger_def split: option.split)

section \<open>Properties\<close>

text \<open>
  \<^verbatim>\<open>GetDefaultPool\<close> returns the most recently created pool, and nil when none was
  created or that one is closed; creating, using and closing other pools does not matter.
\<close>

theorem GetDefaultPool_latest_open:
  assumes "registry_reach g"
  shows "GetDefaultPool g =
           (if \<exists>p. 0 < created g \<and> pools g (created g - 1) = Some p \<and> \<not> closed p then Some (created g - 1) else None)"
proof -
  have inv: "registry_inv g" using assms by (rule registry_reach_inv)
  show ?thesis
  proof (cases "defaultPool g")
    case None
    then show ?thesis using inv by (auto simp: registry_inv_def GetDefaultPool_def)
  next
    case (Some a)
    then obtain p where "pools g a = Some p" "created g = Suc a"
      using inv by (cases "pools g a") (auto simp: registry_inv_def)
    then show ?thesis using Some by (simp add: GetDefaultPool_def)
  qed
qed

theorem GetDefaultPool_latest_open_witness:
  "\<exists>g g' :: (nat, unit, nat, nat, example_world) registry. register_NewPool 8 None ([], []) init_registry = Some g \<and>
     register_NewPool 8 None ([], []) g = Some g' \<and>
     GetDefaultPool (register_Close 0 g') = Some 1 \<and> GetDefaultPool (register_Close 1 g') = None"
proof -
  obtain p :: example_pool where p: "NewPool 8 None ([], []) = Some p" "\<not> closed p"
    using NewPool_default [of "([], []) :: example_world", where 'f = nat and 'b = unit and 'c = nat and 'v = nat] by auto
  define g :: "(nat, unit, nat, nat, example_world) registry" where
    "g = \<lparr>pools = [0 \<mapsto> p], created = 1, defaultPool = Some 0\<rparr>"
  define g' :: "(nat, unit, nat, nat, example_world) registry" where
    "g' = \<lparr>pools = [0 \<mapsto> p, 1 \<mapsto> p], created = 2, defaultPool = Some 1\<rparr>"
  have g: "register_NewPool 8 None ([], []) init_registry = Some g"
    using p(1) by (simp add: register_NewPool_def init_registry_def g_def fun_eq_iff)
  have g': "register_NewPool 8 None ([], []) g = Some g'"
    using p(1) by (simp add: register_NewPool_def g_def g'_def fun_eq_iff)
  have "registry_reach g'" using reg_new [OF reg_new [OF reg_init g] g'] .
  then have "registry_reach (register_Close 0 g')" "registry_reach (register_Close 1 g')" by (rule reg_close)+
  from this [THEN GetDefaultPool_latest_open] show ?thesis
    using g g' p(2) by (auto simp: g'_def register_Close_def)
qed

end
