(* ===== verification/Stack_Trace.thy ===== *)
theory Stack_Trace
  imports Go_Prelude
begin

text \<open>
  \<^verbatim>\<open>stack_trace.go\<close>: the text that panic reports carry. What the runtime and the file
  system return are arguments: \<open>caller i\<close> is \<^verbatim>\<open>runtime.Caller(i)\<close> (\<open>None\<close> above the top
  of the stack), \<open>funcForPC\<close> is \<^verbatim>\<open>runtime.FuncForPC\<close> and \<open>open_file\<close> yields the lines a
  scanner reads from a file and whether it then stops with an error.
\<close>

section \<open>Reading a source line\<close>

record scanned =
  scanLines :: "string list"
  scanErr :: bool

fun scan_line :: "string list \<Rightarrow> bool \<Rightarrow> int \<Rightarrow> int \<Rightarrow> string option" where
  "scan_line [] err lineNum n = (if err then None else Some [])"
| "scan_line (l # ls) err lineNum n = (if lineNum = n then Some l else scan_line ls err (lineNum + 1) n)"

text \<open>\<^verbatim>\<open>readNthLine\<close>; \<open>None\<close> is a non-nil error.\<close>

definition readNthLine :: "(string \<Rightarrow> scanned option) \<Rightarrow> string \<Rightarrow> int \<Rightarrow> string option" where
  "readNthLine open_file file n =
     (case open_file file of None \<Rightarrow> None | Some f \<Rightarrow> scan_line (scanLines f) (scanErr f) 0 n)"

definition function_name :: "(nat \<Rightarrow> string option) \<Rightarrow> nat \<Rightarrow> string" where
  "function_name funcForPC pc = (case funcForPC pc of None \<Rightarrow> ''unknown'' | Some name \<Rightarrow> name)"

section \<open>Formatting\<close>

text \<open>The digits of a number in base \<open>b\<close> as \<^verbatim>\<open>%d\<close> and \<^verbatim>\<open>%x\<close> print them.\<close>

definition digit :: "nat \<Rightarrow> char" where
  "digit d = ''0123456789abcdef'' ! d"

function digits :: "nat \<Rightarrow> nat \<Rightarrow> string" where
  "digits b n = (if n < b \<or> b < 2 then [digit (n mod 16)] else digits b (n div b) @ [digit (n mod b)])"
  by pat_completeness auto
termination
  by (relation "measure snd") auto

declare digits.simps [simp del]

definition print_int :: "int \<Rightarrow> string" where
  "print_int i = (if i < 0 then ''-'' @ digits 10 (nat (- i)) else digits 10 (nat i))"

type_synonym frame = "nat \<times> string \<times> int"

definition frame_head :: "frame \<Rightarrow> string" where
  "frame_head f = (case f of (pc, file, line) \<Rightarrow> file @ '':'' @ print_int line @ '' (0x'' @ digits 16 pc @ '')'' @ [CHR 0x0A])"

definition frame_body ::
  "(string \<Rightarrow> scanned option) \<Rightarrow> (nat \<Rightarrow> string option) \<Rightarrow> string \<Rightarrow> frame \<Rightarrow> string" where
  "frame_body open_file funcForPC lastFile f =
     (case f of (pc, file, line) \<Rightarrow>
        [CHR 0x09] @ function_name funcForPC pc @
        (if file \<noteq> lastFile then
           '': '' @ (case readNthLine open_file file (line - 1) of None \<Rightarrow> ''Unknown'' | Some l \<Rightarrow> l)
         else []) @ [CHR 0x0A])"

text \<open>The loop of \<^verbatim>\<open>Stack\<close>; \<open>None\<close> when the stack has no top.\<close>

partial_function (option) stack_loop ::
  "(nat \<Rightarrow> frame option) \<Rightarrow> (string \<Rightarrow> scanned option) \<Rightarrow> (nat \<Rightarrow> string option) \<Rightarrow> nat \<Rightarrow> string \<Rightarrow> string \<Rightarrow> string option" where
  "stack_loop caller open_file funcForPC i lastFile buf =
     (case caller i of
        None \<Rightarrow> Some buf
      | Some f \<Rightarrow>
          stack_loop caller open_file funcForPC (i + 1) (fst (snd f))
            (buf @ frame_head f @ frame_body open_file funcForPC lastFile f))"

definition Stack ::
  "(nat \<Rightarrow> frame option) \<Rightarrow> (string \<Rightarrow> scanned option) \<Rightarrow> (nat \<Rightarrow> string option) \<Rightarrow> nat \<Rightarrow> string option" where
  "Stack caller open_file funcForPC skip = stack_loop caller open_file funcForPC skip [] []"

section \<open>What is read and printed\<close>

lemma scan_line_nth:
  assumes "k \<le> n"
  shows "scan_line ls err k n =
           (if nat (n - k) < length ls then Some (ls ! nat (n - k)) else if err then None else Some [])"
  using assms
proof (induction ls arbitrary: k)
  case (Cons l ls)
  show ?case
  proof (cases "k = n")
    case False
    then have "k + 1 \<le> n" "nat (n - k) = Suc (nat (n - (k + 1)))" using Cons.prems by auto
    then show ?thesis using Cons.IH [of "k + 1"] False by simp
  qed simp
qed simp

text \<open>
  \<^verbatim>\<open>readNthLine\<close> returns line \<open>n\<close> when the file has one. Beyond the end of a file that
  was read without error it returns the empty string and no error.
\<close>

lemma readNthLine_line:
  assumes "open_file file = Some f" and "0 \<le> n"
  shows "readNthLine open_file file n =
           (if nat n < length (scanLines f) then Some (scanLines f ! nat n) else if scanErr f then None else Some [])"
  using assms scan_line_nth [of 0 n "scanLines f" "scanErr f"] by (simp add: readNthLine_def)

text \<open>The report as a function of the list of frames: each frame once, in order.\<close>

fun report :: "(string \<Rightarrow> scanned option) \<Rightarrow> (nat \<Rightarrow> string option) \<Rightarrow> string \<Rightarrow> frame list \<Rightarrow> string" where
  "report open_file funcForPC lastFile [] = []"
| "report open_file funcForPC lastFile (f # fs) =
     frame_head f @ frame_body open_file funcForPC lastFile f @ report open_file funcForPC (fst (snd f)) fs"

lemma stack_loop_report:
  "stack_loop (\<lambda>i. if i < n then Some (fs ! i) else None) open_file funcForPC (n - k) lastFile buf =
     Some (buf @ report open_file funcForPC lastFile (drop (n - k) (take n fs)))"
  if "k \<le> n" "n \<le> length fs"
  using that
proof (induction k arbitrary: lastFile buf)
  case 0
  then show ?case by (subst stack_loop.simps) simp
next
  case (Suc k)
  let ?i = "n - Suc k"
  have i: "?i < n" "?i + 1 = n - k" "?i < length (take n fs)" using Suc.prems by auto
  have d: "drop ?i (take n fs) = fs ! ?i # drop (n - k) (take n fs)"
    using Cons_nth_drop_Suc [OF i(3)] i(1,2) by simp
  show ?case
    using Suc.IH [of "fst (snd (fs ! ?i))" "buf @ frame_head (fs ! ?i) @ frame_body open_file funcForPC lastFile (fs ! ?i)"]
      Suc.prems i by (subst stack_loop.simps) (simp add: d)
qed

text \<open>On a stack of finite depth \<^verbatim>\<open>Stack\<close> returns the report of the frames it does not skip.\<close>

lemma Stack_report:
  assumes "skip \<le> length fs"
  shows "Stack (\<lambda>i. if i < length fs then Some (fs ! i) else None) open_file funcForPC skip =
           Some (report open_file funcForPC [] (drop skip fs))"
  using stack_loop_report [of "length fs - skip" "length fs" fs open_file funcForPC "[]" "[]"] assms
  by (simp add: Stack_def)

end
