(* ===== verification/Example_Main.thy ===== *)
theory Example_Main
  imports Concurrent_Progress
begin

text \<open>
  \<^verbatim>\<open>example/main.go\<close>: many goroutines submit one task each to a pool of its own, the main
  goroutine waits for them and then for the pool. Here the submissions are the client steps
  of the concurrent pool, \<^verbatim>\<open>submitWG.Wait()\<close> has returned when every submission has ended,
  and \<^verbatim>\<open>pool.Wait()\<close> when the pending count was zero.
\<close>

definition main_config :: "'h Config" where
  "main_config =
     NewConfig [WithCleanPeriod (500 * Millisecond), WithTaskQueueSize 10000, WithWorkerNumCapacity 20000,
       WithIdleContainerType LinkedListType]"

text \<open>All goroutines of the loop have returned from \<^verbatim>\<open>Submit\<close>.\<close>

definition main_submitted :: "('f, 'b, 'c, 'v, 'w) task_env \<Rightarrow> 'f \<Rightarrow> nat \<Rightarrow> ('f, 'b, 'c, 'v, 'w) conc \<Rightarrow> bool" where
  "main_submitted env f n s \<longleftrightarrow> size (submitters s) = n \<and>
     (\<forall>x\<in>#submitters s. x = (Background env, TaskFunc (Some f), PEnd True) \<or> x = (Background env, TaskFunc (Some f), PEnd False))"

lemma main_config_ok:
  "config_valid main_config" "taskQueueSize main_config < 2 ^ 62" "workMode main_config = BLOCK"
  "shards_want procs main_config \<le> 2 ^ 62"
proof -
  show "config_valid main_config" unfolding main_config_def
    by (rule NewConfig_valid) (auto intro: config_option.intros simp: int64_range_def)
qed (simp_all add: main_config_def NewConfig_def config_options config_consts shards_want_def maxAutoShards_def Let_def)

lemma all_enqueued:
  assumes "\<forall>x\<in>#M. x = (ctx, task, PEnd True)"
  shows "(\<Sum>x\<in>#M. has_enqueued (fst (snd x)) (snd (snd x))) = replicate_mset (size M) (Some task)"
  using assms by (induction M) simp_all

lemma main_result:
  assumes "\<And>w. \<not> ctxErr env (Background env) w" and "NewPool procs (Some main_config) w = Some p" and "conc_reach env p s"
    and "main_submitted env f n s" and "closers s = {#}" and "pendingTasks (shared s) = 0"
  shows "finished s = replicate_mset n (Some (TaskFunc (Some f)))"
proof -
  note cfg = main_config_ok(1,2,4)
  have r: "results_ok env main_config s" by (rule reach_results [OF cfg assms(2,3)])
  obtain m where "conc_inv m s" by (rule reach_inv [OF cfg assms(2,3)])
  then have acc: "accepted s = finished s" using ledger_idle(1) assms(6) by (auto simp: conc_inv_def)
  have "\<not> closed (shared s)" using r assms(5) by (auto simp: results_ok_def)
  then have "(Background env, TaskFunc (Some f), PEnd False) \<notin># submitters s"
    using r main_config_ok(3) assms(1) by (fastforce simp: results_ok_def)
  then have "\<forall>x\<in>#submitters s. x = (Background env, TaskFunc (Some f), PEnd True)"
    using assms(4) by (auto simp: main_submitted_def)
  from all_enqueued [OF this] show ?thesis using r acc assms(4) by (simp add: results_ok_def main_submitted_def)
qed

text \<open>The loop: \<open>n\<close> goroutines have called \<^verbatim>\<open>Submit\<close>.\<close>

lemma main_calls:
  "\<exists>s. (conc_step env)\<^sup>*\<^sup>* (conc_init p) s \<and> calls s = replicate_mset n (Background env, TaskFunc (Some f)) \<and> closers s = {#}"
proof (induction n)
  case 0
  show ?case by (intro exI [of _ "conc_init p"]) (simp add: conc_init_def calls_def)
next
  case (Suc n)
  then obtain s where s: "(conc_step env)\<^sup>*\<^sup>* (conc_init p) s" "calls s = replicate_mset n (Background env, TaskFunc (Some f))"
    "closers s = {#}" by blast
  from conc_step.client [of "TaskFunc (Some f)" env s "Background env"]
  have "conc_step env s (s\<lparr>shared := pool_addPending (shared s),
      submitters := add_mset (Background env, TaskFunc (Some f), PClosed) (submitters s)\<rparr>)" (is "conc_step env s ?s") by simp
  then show ?case using s by (intro exI [of _ ?s]) (auto simp: calls_def intro: rtranclp.rtrancl_into_rtrancl)
qed

lemma calls_submitted:
  assumes "calls s = replicate_mset n (Background env, TaskFunc (Some f))" and "drained s"
  shows "main_submitted env f n s"
proof -
  have "size (submitters s) = n" using arg_cong [OF assms(1), of size] by (simp add: calls_def)
  moreover have "x = (Background env, TaskFunc (Some f), PEnd True) \<or> x = (Background env, TaskFunc (Some f), PEnd False)"
    if x: "x \<in># submitters s" for x
  proof -
    obtain ctx task ph where e: "x = (ctx, task, ph)" by (cases x)
    have "(ctx, task) \<in># calls s" using x e by (force simp: calls_def)
    moreover have "ended ph" using assms(2) x e by (auto simp: drained_def)
    ultimately show ?thesis using assms(1) e by (cases ph) (auto split: if_splits)
  qed
  ultimately show ?thesis by (simp add: main_submitted_def)
qed

section \<open>Properties\<close>

text \<open>
  C25. The example runs every task and can finish. When its submitters have returned and
  \<^verbatim>\<open>Wait\<close> has seen a pending count of zero, each of the \<open>n\<close> submitted tasks has finished
  exactly once, whatever the interleaving; and for every \<open>n\<close> there is an execution that
  comes to this point. The background context never expires, and nobody closes the pool.
\<close>

theorem example_main_runs_every_task:
  assumes "\<And>w. \<not> ctxErr env (Background env) w" and "NewPool procs (Some main_config) w = Some p"
  shows "(\<forall>s. conc_reach env p s \<and> main_submitted env f n s \<and> closers s = {#} \<and> pendingTasks (shared s) = 0 \<longrightarrow>
            finished s = replicate_mset n (Some (TaskFunc (Some f)))) \<and>
         (\<exists>s. conc_reach env p s \<and> main_submitted env f n s \<and> closers s = {#} \<and> pendingTasks (shared s) = 0)"
proof -
  obtain m where inv: "conc_inv m (conc_init p)" using conc_init_inv [OF main_config_ok(1,2,4) assms(2)] by blast
  obtain s where s: "(conc_step env)\<^sup>*\<^sup>* (conc_init p) s" "calls s = replicate_mset n (Background env, TaskFunc (Some f))" "closers s = {#}"
    using main_calls [of env p n f] by (elim exE conjE)
  obtain s' where s': "(conc_step env)\<^sup>*\<^sup>* s s'" "drained s'" "calls s' = calls s" "closers s' = closers s"
    using pool_drains [OF conc_run_inv [OF s(1) inv]] by blast
  have "conc_reach env p s'" by (rule conc_run_reach [OF rtranclp_trans [OF s(1) s'(1)] conc_start])
  moreover have "main_submitted env f n s'" using calls_submitted s(2) s'(2,3) by metis
  ultimately show ?thesis using main_result [OF assms] s(3) s'(2,4) unfolding drained_def by metis
qed

theorem example_main_runs_every_task_witness:
  "\<exists>p s. NewPool 8 (Some main_config) ([], []) = Some p \<and> conc_reach example_env p s \<and>
     main_submitted example_env 7 20000000 s \<and> finished s = replicate_mset 20000000 (Some (TaskFunc (Some 7)))"
proof -
  obtain p :: "(nat, unit, nat, nat, example_world) Pool" where p: "NewPool 8 (Some main_config) ([], []) = Some p"
    using NewPool_ok [OF _ main_config_ok(2,4), of 8 "([], [])"] main_config_ok(1) by (auto simp: config_valid_def pos64_def)
  have "\<not> ctxErr example_env (Background example_env) w" for w by (simp add: example_env_def)
  with example_main_runs_every_task [OF this p] have "\<exists>s. conc_reach example_env p s \<and> main_submitted example_env 7 n s \<and>
      finished s = replicate_mset n (Some (TaskFunc (Some 7)))" for n by blast
  then show ?thesis using p by blast
qed

end
