(* ===== verification/Example_Gin.thy ===== *)
theory Example_Gin
  imports Worker
begin

text \<open>
  \<^verbatim>\<open>example/gin_example/main.go\<close>: a web server that runs its request handlers in a pool. It
  uses the bundled hook dispatcher, a non-blocking pool and context tasks together. The
  \<^verbatim>\<open>gin\<close> package, the clock and the request contexts are the record \<open>gin_env\<close>, acting on a
  state of its own; a request is named by a number.
\<close>

section \<open>The bundled dispatcher in a pool\<close>

text \<open>
  \<^verbatim>\<open>hook.Hooks\<close> as an implementation of the interface that \<^verbatim>\<open>dispatchHook\<close> calls. Its log is
  part of the pool's world, since the pool does not see it.
\<close>

definition bundled ::
  "('k, 'c, 'v, unit, 'w) hook_run \<Rightarrow> 'k Hooks \<Rightarrow> ('c, 'v, 'w \<times> 'v hook_log list) hooks_iface" where
  "bundled cb h =
     \<lparr>iTaskSubmitted = \<lambda>ctx st. (Ret (), DispatchTaskSubmitted cb h ctx st),
      iTaskEnqueued = \<lambda>ctx st. (Ret (), DispatchTaskEnqueued cb h ctx st),
      iTaskStarted = \<lambda>ctx st. (Ret (), DispatchTaskStarted cb h ctx st),
      iTaskCompleted = \<lambda>ctx rec st. (Ret (), DispatchTaskCompleted cb h ctx rec st),
      iPoolClosed = \<lambda>st. (Ret (), DispatchPoolClosed cb h (Some ()) st)\<rparr>"

lemma bundled_simps [simp]:
  "iTaskSubmitted (bundled cb h) ctx st = (Ret (), DispatchTaskSubmitted cb h ctx st)"
  "iTaskEnqueued (bundled cb h) ctx st = (Ret (), DispatchTaskEnqueued cb h ctx st)"
  "iTaskStarted (bundled cb h) ctx st = (Ret (), DispatchTaskStarted cb h ctx st)"
  "iTaskCompleted (bundled cb h) ctx rec st = (Ret (), DispatchTaskCompleted cb h ctx rec st)"
  "iPoolClosed (bundled cb h) st = (Ret (), DispatchPoolClosed cb h (Some ()) st)"
  by (simp_all add: bundled_def)

section \<open>The server\<close>

datatype gin_ctx = BackgroundContext | GinContext nat

datatype 'v gin_log =
    LogSubmitted
  | LogEnqueued
  | LogStarted "int option" string
  | LogCompleted "int option" duration "'v option"
  | LogPoolClosed

datatype gin_body = ErrorBody string | ContentBody string

record ('v, 'x) gin_world =
  logged :: "'v gin_log list"
  taskStartTimes :: "int option \<Rightarrow> time option"
  traceID :: "nat \<Rightarrow> int option"
  doneClosed :: "nat \<Rightarrow> bool"
  ginState :: 'x

record ('v, 'x) gin_env =
  Now :: "'x \<Rightarrow> time"
  UnixNano :: "time \<Rightarrow> int"
  ClientIP :: "nat \<Rightarrow> 'x \<Rightarrow> string"
  Next :: "nat \<Rightarrow> 'x \<Rightarrow> (unit, 'v) outcome \<times> 'x"
  JSON :: "nat \<Rightarrow> int \<Rightarrow> gin_body \<Rightarrow> 'x \<Rightarrow> 'x"
  Abort :: "nat \<Rightarrow> 'x \<Rightarrow> 'x"
  ShouldBindBodyWithJSON :: "nat \<Rightarrow> 'x \<Rightarrow> string + string"
  ginErr :: "nat \<Rightarrow> 'x \<Rightarrow> bool"
  ginSleep :: "duration \<Rightarrow> 'x \<Rightarrow> 'x"

type_synonym ('v, 'x) gin_state = "('v, 'x) gin_world \<times> 'v hook_log list"
type_synonym ('v, 'x) gin_pool = "(nat, unit, gin_ctx, 'v, ('v, 'x) gin_state) Pool"

definition StatusOK :: int where "StatusOK = 200"
definition StatusBadRequest :: int where "StatusBadRequest = 400"
definition StatusTooManyRequests :: int where "StatusTooManyRequests = 429"

definition gin_config :: "'h Config" where
  "gin_config = NewConfig [WithBlockMode NONBLOCK, WithTaskQueueSize 32, WithWorkerNumCapacity 8]"

text \<open>The callbacks; none of them panics.\<close>

definition onSubmitted :: "('v, 'x) gin_world \<Rightarrow> ('v, 'x) gin_world" where
  "onSubmitted w = w\<lparr>logged := logged w @ [LogSubmitted]\<rparr>"

definition onEnqueued :: "('v, 'x) gin_world \<Rightarrow> ('v, 'x) gin_world" where
  "onEnqueued w = w\<lparr>logged := logged w @ [LogEnqueued]\<rparr>"

definition onStarted :: "('v, 'x) gin_env \<Rightarrow> gin_ctx \<Rightarrow> ('v, 'x) gin_world \<Rightarrow> ('v, 'x) gin_world" where
  "onStarted g ctx w =
     (case ctx of
        GinContext c \<Rightarrow>
          w\<lparr>taskStartTimes := (taskStartTimes w)(traceID w c \<mapsto> Now g (ginState w)),
            logged := logged w @ [LogStarted (traceID w c) (ClientIP g c (ginState w))]\<rparr>
      | BackgroundContext \<Rightarrow> w)"

definition onCompleted :: "('v, 'x) gin_env \<Rightarrow> gin_ctx \<Rightarrow> 'v option \<Rightarrow> ('v, 'x) gin_world \<Rightarrow> ('v, 'x) gin_world" where
  "onCompleted g ctx recovered w =
     (case ctx of
        GinContext c \<Rightarrow>
          (case taskStartTimes w (traceID w c) of
             None \<Rightarrow> w
           | Some st \<Rightarrow>
               w\<lparr>taskStartTimes := (taskStartTimes w)(traceID w c := None),
                 logged := logged w @ [LogCompleted (traceID w c) (time_Sub (Now g (ginState w)) st) recovered]\<rparr>)
      | BackgroundContext \<Rightarrow> w)"

definition onPoolClosed :: "('v, 'x) gin_world \<Rightarrow> ('v, 'x) gin_world" where
  "onPoolClosed w = w\<lparr>logged := logged w @ [LogPoolClosed]\<rparr>"

fun gin_run :: "('v, 'x) gin_env \<Rightarrow> (Hooks.hook_event, gin_ctx, 'v, unit, ('v, 'x) gin_world) hook_run" where
  "gin_run g OnTaskSubmitted arg w = (Ret (), onSubmitted w)"
| "gin_run g OnTaskEnqueued arg w = (Ret (), onEnqueued w)"
| "gin_run g OnTaskStarted (ArgCtx ctx) w = (Ret (), onStarted g ctx w)"
| "gin_run g OnTaskCompleted (ArgCompleted ctx recovered) w = (Ret (), onCompleted g ctx recovered w)"
| "gin_run g OnPoolClosed arg w = (Ret (), onPoolClosed w)"
| "gin_run g _ arg w = (Ret (), w)"

text \<open>What \<^verbatim>\<open>main\<close> registers and installs.\<close>

definition gin_hooks :: "Hooks.hook_event Hooks" where
  "gin_hooks =
     AddPoolClosed OnPoolClosed (AddTaskCompleted OnTaskCompleted (AddTaskStarted OnTaskStarted
       (AddTaskEnqueued OnTaskEnqueued (AddTaskSubmitted OnTaskSubmitted NewHooks))))"

definition gin_main :: "('v, 'x) gin_env \<Rightarrow> ('v, 'x) gin_pool \<Rightarrow> ('v, 'x) gin_pool" where
  "gin_main g p = SetHook (Some (bundled (gin_run g) gin_hooks)) p"

text \<open>
  The closure of \<^verbatim>\<open>PoolMiddleware\<close>: the handler chain, then the deferred \<^verbatim>\<open>close(done)\<close>, which
  runs also when a handler panics. \<open>base\<close> gives the fields that this program does not use.
\<close>

definition gin_task :: "('v, 'x) gin_env \<Rightarrow> nat \<Rightarrow> ('v, 'x) gin_state \<Rightarrow> (bool, 'v) outcome \<times> ('v, 'x) gin_state" where
  "gin_task g c s =
     (case Next g c (ginState (fst s)) of (r, x) \<Rightarrow>
        (case r of Ret _ \<Rightarrow> Ret False | Panic v \<Rightarrow> Panic v,
         (fst s)\<lparr>ginState := x, doneClosed := (doneClosed (fst s))(c := True)\<rparr>, snd s))"

definition gin_tasks ::
  "(nat, unit, gin_ctx, 'v, ('v, 'x) gin_state) task_env \<Rightarrow> ('v, 'x) gin_env \<Rightarrow>
   (nat, unit, gin_ctx, 'v, ('v, 'x) gin_state) task_env" where
  "gin_tasks base g =
     base\<lparr>execFn := gin_task g, Background := BackgroundContext,
          ctxErr := \<lambda>ctx s. (case ctx of GinContext c \<Rightarrow> ginErr g c (ginState (fst s)) | BackgroundContext \<Rightarrow> False)\<rparr>"

text \<open>
  \<^verbatim>\<open>PoolMiddleware\<close>, up to its wait for \<^verbatim>\<open>done\<close> when the task was accepted.
\<close>

definition gin_request_task :: "nat \<Rightarrow> (nat, unit, gin_ctx) Task" where
  "gin_request_task c = ContextTask (Some (GinContext c, Some (TaskFunc (Some c))))"

definition PoolMiddleware ::
  "(nat, unit, gin_ctx, 'v, ('v, 'x) gin_state) task_env \<Rightarrow> ('v, 'x) gin_env \<Rightarrow> nat option \<Rightarrow> nat \<Rightarrow> nat \<Rightarrow>
   ('v, 'x) gin_pool \<Rightarrow> (bool option \<times> ('v, 'x) gin_pool) option" where
  "PoolMiddleware base g pick sel c p =
     (let env = gin_tasks base g; (w, lg) = world p;
          w1 = w\<lparr>doneClosed := (doneClosed w)(c := False),
                 traceID := (traceID w)(c \<mapsto> UnixNano g (Now g (ginState w)))\<rparr>;
          task = UpdateTask env (Some (GinContext c)) (Some (TaskFunc (Some c)))
      in case TrySubmit env pick sel (Some task) (p\<lparr>world := (w1, lg)\<rparr>) of
           None \<Rightarrow> None
         | Some (r, q) \<Rightarrow>
             Some (r,
               if r = Some False then
                 (let (v, lg') = world q
                  in q\<lparr>world :=
                     (v\<lparr>ginState := Abort g c (JSON g c StatusTooManyRequests (ErrorBody ''system busy'') (ginState v))\<rparr>, lg')\<rparr>)
               else q))"

definition anRouterFunc :: "('v, 'x) gin_env \<Rightarrow> nat \<Rightarrow> 'x \<Rightarrow> 'x" where
  "anRouterFunc g c x =
     (case ShouldBindBodyWithJSON g c x of
        Inl err \<Rightarrow> JSON g c StatusBadRequest (ErrorBody err) x
      | Inr content \<Rightarrow> JSON g c StatusOK (ContentBody content) (ginSleep g (10 * Second) x))"

section \<open>What the hooks of the server do\<close>

definition gin_installed :: "('v, 'x) gin_env \<Rightarrow> ('v, 'x) gin_pool \<Rightarrow> bool" where
  "gin_installed g p \<longleftrightarrow> hooks p = Some (bundled (gin_run g) gin_hooks) \<and> panicHandler (config p) = None"

lemma gin_hooks_simps:
  "DispatchTaskSubmitted (gin_run g) gin_hooks ctx st = (onSubmitted (fst st), snd st)"
  "DispatchTaskEnqueued (gin_run g) gin_hooks ctx st = (onEnqueued (fst st), snd st)"
  "DispatchTaskStarted (gin_run g) gin_hooks ctx st = (onStarted g ctx (fst st), snd st)"
  "DispatchTaskCompleted (gin_run g) gin_hooks ctx rec st = (onCompleted g ctx rec (fst st), snd st)"
  by (cases st; simp add: DispatchTaskSubmitted_def DispatchTaskEnqueued_def DispatchTaskStarted_def DispatchTaskCompleted_def
      gin_hooks_def hook_add_defs NewHooks_def invoke_def)+

lemma gin_dispatches:
  assumes "gin_installed g p"
  shows "dispatchHook (\<lambda>h. iTaskSubmitted h ctx) p = p\<lparr>world := (onSubmitted (fst (world p)), snd (world p))\<rparr>"
    and "dispatchHook (\<lambda>h. iTaskEnqueued h ctx) p = p\<lparr>world := (onEnqueued (fst (world p)), snd (world p))\<rparr>"
    and "dispatchHook (\<lambda>h. iTaskStarted h ctx) p = p\<lparr>world := (onStarted g ctx (fst (world p)), snd (world p))\<rparr>"
    and "dispatchHook (\<lambda>h. iTaskCompleted h ctx rec) p = p\<lparr>world := (onCompleted g ctx rec (fst (world p)), snd (world p))\<rparr>"
  using assms by (simp_all add: gin_installed_def dispatchHook_def gin_hooks_simps)

lemma gin_env_simps [simp]:
  "execFn (gin_tasks base g) = gin_task g" "Background (gin_tasks base g) = BackgroundContext"
  "ctxErr (gin_tasks base g) (GinContext c) s = ginErr g c (ginState (fst s))"
  "hook_ctx (gin_tasks base g) (gin_request_task c) = GinContext c"
  "\<not> isNilTask (Some (gin_request_task c))"
  by (simp_all add: gin_tasks_def hook_ctx_def gin_request_task_def)

section \<open>A small instance\<close>

text \<open>Requests are answered by appending to a list; the handler chain is the router function.\<close>

definition demo_replies :: "(nat, (nat \<times> int \<times> gin_body) list) gin_env" where
  "demo_replies =
     \<lparr>Now = \<lambda>x. 100 + int (length x), UnixNano = \<lambda>t. t, ClientIP = \<lambda>c x. ''127.0.0.1'', Next = \<lambda>c x. (Ret (), x),
      JSON = \<lambda>c st b x. x @ [(c, st, b)], Abort = \<lambda>c x. x, ShouldBindBodyWithJSON = \<lambda>c x. Inr ''hello'',
      ginErr = \<lambda>c x. False, ginSleep = \<lambda>d x. x\<rparr>"

definition demo_gin :: "(nat, (nat \<times> int \<times> gin_body) list) gin_env" where
  "demo_gin = demo_replies\<lparr>Next := \<lambda>c x. (Ret (), anRouterFunc demo_replies c x)\<rparr>"

definition demo_world :: "(nat, (nat \<times> int \<times> gin_body) list) gin_world" where
  "demo_world = \<lparr>logged = [], taskStartTimes = (\<lambda>_. None), traceID = (\<lambda>_. None), doneClosed = (\<lambda>_. False), ginState = []\<rparr>"

definition demo_base :: "(nat, unit, gin_ctx, nat, (nat, (nat \<times> int \<times> gin_body) list) gin_state) task_env" where
  "demo_base =
     \<lparr>execFn = \<lambda>f w. (Ret False, w), backOffFn = \<lambda>b mn mx n w. (Ret mn, w), Sleep = \<lambda>d w. w, ctxErr = \<lambda>c w. False,
      ctxCancel = \<lambda>c w. w, Background = BackgroundContext, nilPanic = 7, convert = \<lambda>x. 0\<rparr>"

type_synonym demo_pool = "(nat, (nat \<times> int \<times> gin_body) list) gin_pool"

lemma demo_pool:
  obtains m and p :: demo_pool where "NewPool 8 (Some gin_config) (demo_world, []) = Some p" and "pool_inv m [] p" and "\<not> closed p"
    and "workMode (config p) = NONBLOCK" and "panicHandler (config p) = None" and "world p = (demo_world, [])"
    and "\<forall>q\<in>set (taskQueues p). chan_room q"
proof -
  let ?c = "gin_config :: (nat, unit, gin_ctx, nat, (nat, (nat \<times> int \<times> gin_body) list) gin_state) PanicHandler Config"
  have c: "taskQueueSize ?c = 32" "shards_want 8 ?c = 8" "workMode ?c = NONBLOCK" "panicHandler ?c = None"
    by (simp_all add: gin_config_def NewConfig_def config_options config_consts shards_want_def maxAutoShards_def Let_def)
  obtain m and p :: demo_pool where p: "NewPool 8 (Some ?c) (demo_world, []) = Some p" "pool_inv m [] p" "\<not> closed p" "config p = ?c"
    using NewPool_ok [of ?c 8 "(demo_world, [])"] c by auto
  have "world p = (demo_world, [])" "\<forall>q\<in>set (taskQueues p). chan_room q"
    using p(1) by (auto simp: NewPool_def make_shards_def make_chan_def chan_room_def perShardCap_def Let_def split: option.splits if_splits)
  then show thesis using that p c by simp
qed

section \<open>Properties\<close>

text \<open>
  C26. A request that was admitted is served to the end. When a worker runs its task and the
  request has not been cancelled, the handler chain runs once and \<^verbatim>\<open>done\<close> is closed, so
  that the middleware returns, also when a handler panics (the panic is recovered, logged,
  and reported to the completion callback); the start and the completion are logged with
  the request's trace id, and no start time is left behind.
\<close>

theorem gin_request_served:
  assumes "gin_installed g p" and "world p = (w, lg)" and "\<not> ginErr g c (ginState w)"
    and "Next g c (ginState w) = (r, x)"
  shows "\<exists>q. runTask (gin_tasks base g) (Some (gin_request_task c)) p = Some q \<and> pendingTasks q = pendingTasks p - 1 \<and>
    world q =
      (w\<lparr>ginState := x, doneClosed := (doneClosed w)(c := True), taskStartTimes := (taskStartTimes w)(traceID w c := None),
         logged := logged w @
           [LogStarted (traceID w c) (ClientIP g c (ginState w)),
            LogCompleted (traceID w c) (time_Sub (Now g x) (Now g (ginState w))) (case r of Ret _ \<Rightarrow> None | Panic v \<Rightarrow> Some v)]\<rparr>, lg) \<and>
    poolLog q = poolLog p @ (case r of Ret _ \<Rightarrow> [] | Panic v \<Rightarrow> [WorkerPanic v])"
proof -
  let ?env = "gin_tasks base g" and ?t = "gin_request_task c"
  let ?p = "p\<lparr>consumeCount := consumeCount p + 1\<rparr>" and ?w1 = "onStarted g (GinContext c) w"
  have inst: "gin_installed g ?p" using assms(1) by (simp add: gin_installed_def)
  have start: "dispatchHook (\<lambda>h. iTaskStarted h (GinContext c)) ?p = ?p\<lparr>world := (?w1, lg)\<rparr>"
    by (simp add: gin_dispatches(3) [OF inst] assms(2))
  let ?w2 = "?w1\<lparr>ginState := x, doneClosed := (doneClosed ?w1)(c := True)\<rparr>"
  have st: "ginState ?w1 = ginState w" by (simp add: onStarted_def)
  have proc: "process ?env ?t (?w1, lg) = (case r of Ret _ \<Rightarrow> Ret () | Panic v \<Rightarrow> Panic v, ?w2, lg)"
    using assms(3,4) st by (cases r) (simp_all add: gin_request_task_def call_fn_def drop_error_def gin_task_def)
  let ?rec = "case r of Ret _ \<Rightarrow> None | Panic v \<Rightarrow> Some v" and ?lg = "case r of Ret _ \<Rightarrow> [] | Panic v \<Rightarrow> [WorkerPanic v]"
  let ?p2 = "?p\<lparr>world := (?w2, lg), poolLog := poolLog p @ ?lg\<rparr>"
  have rcv: "recover_task (Some ?t) (case r of Ret _ \<Rightarrow> Ret () | Panic v \<Rightarrow> Panic v) (?p\<lparr>world := (?w2, lg)\<rparr>) = (?rec, ?p2)"
    using assms(1) by (cases r) (simp_all add: recover_task_def handlePanic_def gin_installed_def)
  have inst2: "gin_installed g ?p2" using assms(1) by (simp add: gin_installed_def)
  have fin: "dispatchHook (\<lambda>h. iTaskCompleted h (GinContext c) ?rec) ?p2 = ?p2\<lparr>world := (onCompleted g (GinContext c) ?rec ?w2, lg)\<rparr>"
    by (simp add: gin_dispatches(4) [OF inst2])
  have "runTask ?env (Some ?t) p = Some (pool_done (?p2\<lparr>world := (onCompleted g (GinContext c) ?rec ?w2, lg)\<rparr>))"
    using start proc rcv fin
    by (simp add: runTask_def task_ctx_def process_task_def Let_def) (simp add: gin_request_task_def)
  moreover have "onCompleted g (GinContext c) ?rec ?w2 =
      w\<lparr>ginState := x, doneClosed := (doneClosed w)(c := True), taskStartTimes := (taskStartTimes w)(traceID w c := None),
        logged := logged w @ [LogStarted (traceID w c) (ClientIP g c (ginState w)),
          LogCompleted (traceID w c) (time_Sub (Now g x) (Now g (ginState w))) ?rec]\<rparr>"
    by (simp add: onCompleted_def onStarted_def)
  ultimately show ?thesis by simp
qed

lemma demo_server:
  obtains m and p :: demo_pool where "NewPool 8 (Some gin_config) (demo_world, []) = Some p" and "pool_inv m [] (gin_main demo_gin p)"
    and "gin_installed demo_gin (gin_main demo_gin p)"
    and "\<not> closed (gin_main demo_gin p)"
    and "workMode (config (gin_main demo_gin p)) = NONBLOCK"
    and "world (gin_main demo_gin p) = (demo_world, [])"
    and "\<forall>q\<in>set (taskQueues p). chan_room q"
proof -
  obtain m and p :: demo_pool where p: "NewPool 8 (Some gin_config) (demo_world, []) = Some p" "pool_inv m [] p" "\<not> closed p"
    "workMode (config p) = NONBLOCK" "panicHandler (config p) = None" "world p = (demo_world, [])"
    "\<forall>q\<in>set (taskQueues p). chan_room q" by (rule demo_pool)
  moreover have "pool_inv m [] (gin_main demo_gin p)" using p(2) by (simp add: pool_inv_def SetHook_def gin_main_def)
  ultimately show thesis using that [of p m] by (simp add: SetHook_def gin_main_def gin_installed_def)
qed

theorem gin_request_served_witness:
  "\<exists>p q. NewPool 8 (Some gin_config) (demo_world, []) = Some p \<and>
     runTask (gin_tasks demo_base demo_gin) (Some (gin_request_task 3)) (gin_main demo_gin p) = Some q \<and>
     doneClosed (fst (world q)) 3 \<and> ginState (fst (world q)) = [(3, 200, ContentBody ''hello'')]"
proof -
  obtain m and p :: demo_pool where p: "NewPool 8 (Some gin_config) (demo_world, []) = Some p" "gin_installed demo_gin (gin_main demo_gin p)"
    "world (gin_main demo_gin p) = (demo_world, [])" by (rule demo_server)
  have e: "\<not> ginErr demo_gin 3 (ginState demo_world)"
    "Next demo_gin 3 (ginState demo_world) = (Ret (), [(3, 200, ContentBody ''hello'')])"
    by (simp_all add: demo_gin_def demo_replies_def demo_world_def anRouterFunc_def StatusOK_def)
  show ?thesis using gin_request_served [OF p(2,3) e, of demo_base] p(1) by force
qed

lemma gin_enter:
  assumes "gin_installed g p"
  shows "world (submit_enter (gin_tasks base g) (gin_request_task c) p) = (onSubmitted (fst (world p)), snd (world p))"
    and "gin_installed g (submit_enter (gin_tasks base g) (gin_request_task c) p)"
proof -
  let ?p = "cold_start (p\<lparr>submitCount := submitCount p + 1\<rparr>)"
  have i: "gin_installed g ?p" using assms by (simp add: gin_installed_def)
  show "world (submit_enter (gin_tasks base g) (gin_request_task c) p) = (onSubmitted (fst (world p)), snd (world p))"
    by (simp add: submit_enter_def gin_dispatches(1) [OF i])
  show "gin_installed g (submit_enter (gin_tasks base g) (gin_request_task c) p)"
    using i by (simp add: submit_enter_def gin_installed_def)
qed

lemma gin_submit:
  assumes inst: "gin_installed g p" and inv: "pool_inv m xs p" and opn: "\<not> closed p" "workMode (config p) = NONBLOCK"
  defines "ok \<equiv> chan_room (taskQueues p ! fst (nextShard (shardMask p) (sendSeq p)))"
  obtains q where "submit (gin_tasks base g) pick sel ctx (gin_request_task c) p = Some (if ok then Accepted else Rejected, q)"
    and "world q = (if ok then onEnqueued (onSubmitted (fst (world p))) else onSubmitted (fst (world p)), snd (world p))"
proof -
  let ?env = "gin_tasks base g" and ?t = "gin_request_task c" and ?p1 = "pool_addPending p"
  let ?p2 = "submit_enter ?env ?t ?p1"
  have inst1: "gin_installed g ?p1" using inst by (simp add: gin_installed_def pool_addPending_def)
  note e = gin_enter [OF inst1, of base c]
  obtain ok' p3 where t: "try_shard (Some ?t) ?p2 = (ok', p3)" "ok' \<longleftrightarrow> ok"
    by (rule submit_first [OF inv, of ?t ?env]) (auto simp: ok_def)
  have p3: "world p3 = world ?p2" "gin_installed g p3"
    using t(1) e(2) by (auto simp: try_shard_def gin_installed_def split: prod.splits)
  have w: "world p3 = (onSubmitted (fst (world p)), snd (world p))" using p3(1) e(1) by (simp add: pool_addPending_def)
  have nil: "?t \<noteq> ContextTask None" by (simp add: gin_request_task_def)
  have opn1: "\<not> closed ?p1" "workMode (config ?p2) = NONBLOCK" using opn by (simp_all add: pool_addPending_def submit_enter_frame)
  have sub: "submit ?env pick sel ctx ?t p =
      Some (if ok then (Accepted, dispatchTaskEnqueuedFor ?env ?t p3) else (Rejected, pool_done p3))"
    using opn1 t nil by (simp add: submit_def Let_def)
  show thesis
    by (rule that [of "if ok then dispatchTaskEnqueuedFor ?env ?t p3 else pool_done p3"])
      (simp_all add: sub w dispatchTaskEnqueuedFor_def gin_dispatches(2) [OF p3(2)])
qed

text \<open>
  Admission to the server: the middleware never blocks. It tags the request with a trace
  id; if the shard whose turn it is has room, the task is accepted, the submission and the
  enqueueing are logged and the middleware waits for \<^verbatim>\<open>done\<close>, still open; otherwise it
  answers 429, aborts the handler chain and returns, with the submission logged.
\<close>

theorem gin_admission:
  assumes "gin_installed g p" and "pool_inv m xs p" and "\<not> closed p" and "workMode (config p) = NONBLOCK"
    and "world p = (w, lg)"
  shows "\<exists>q v. PoolMiddleware base g pick sel c p =
      Some (Some (chan_room (taskQueues p ! fst (nextShard (shardMask p) (sendSeq p)))), q) \<and>
    v = w\<lparr>doneClosed := (doneClosed w)(c := False), traceID := (traceID w)(c \<mapsto> UnixNano g (Now g (ginState w)))\<rparr> \<and>
    world q =
      (if chan_room (taskQueues p ! fst (nextShard (shardMask p) (sendSeq p)))
       then (v\<lparr>logged := logged w @ [LogSubmitted, LogEnqueued]\<rparr>, lg)
       else (v\<lparr>logged := logged w @ [LogSubmitted],
               ginState := Abort g c (JSON g c StatusTooManyRequests (ErrorBody ''system busy'') (ginState w))\<rparr>, lg))"
proof -
  let ?v = "w\<lparr>doneClosed := (doneClosed w)(c := False), traceID := (traceID w)(c \<mapsto> UnixNano g (Now g (ginState w)))\<rparr>"
  let ?p = "p\<lparr>world := (?v, lg)\<rparr>" and ?env = "gin_tasks base g"
  let ?ok = "chan_room (taskQueues p ! fst (nextShard (shardMask p) (sendSeq p)))"
  have inst: "gin_installed g ?p" using assms(1) by (simp add: gin_installed_def)
  have inv: "pool_inv m xs ?p" using assms(2) by (simp add: pool_inv_def)
  have opn: "\<not> closed ?p" "workMode (config ?p) = NONBLOCK" using assms(3,4) by simp_all
  have ok: "chan_room (taskQueues ?p ! fst (nextShard (shardMask ?p) (sendSeq ?p))) = ?ok"
    "fst (world ?p) = ?v" "snd (world ?p) = lg" by simp_all
  obtain q where q: "submit ?env pick sel BackgroundContext (gin_request_task c) ?p = Some (if ?ok then Accepted else Rejected, q)"
    "world q = (if ?ok then onEnqueued (onSubmitted ?v) else onSubmitted ?v, lg)"
    by (rule gin_submit [OF inst inv opn, unfolded ok])
  have "TrySubmit ?env pick sel (Some (gin_request_task c)) ?p = Some (Some ?ok, q)"
    using q(1) by (cases ?ok) (simp_all add: TrySubmit_def)
  moreover have "UpdateTask ?env (Some (GinContext c)) (Some (TaskFunc (Some c))) = gin_request_task c"
    by (simp add: UpdateTask_def gin_request_task_def)
  ultimately show ?thesis using q(2) assms(5)
    by (cases ?ok) (simp_all add: PoolMiddleware_def Let_def onEnqueued_def onSubmitted_def)
qed

theorem gin_admission_witness:
  "\<exists>p q. NewPool 8 (Some gin_config) (demo_world, []) = Some p \<and>
     PoolMiddleware demo_base demo_gin None 0 3 (gin_main demo_gin p) = Some (Some True, q) \<and>
     logged (fst (world q)) = [LogSubmitted, LogEnqueued] \<and> traceID (fst (world q)) 3 = Some 100 \<and> \<not> doneClosed (fst (world q)) 3"
proof -
  obtain m and p :: demo_pool where p: "NewPool 8 (Some gin_config) (demo_world, []) = Some p" "pool_inv m [] (gin_main demo_gin p)"
    "gin_installed demo_gin (gin_main demo_gin p)"
    "\<not> closed (gin_main demo_gin p)"
    "workMode (config (gin_main demo_gin p)) = NONBLOCK"
    "world (gin_main demo_gin p) = (demo_world, [])" "\<forall>q\<in>set (taskQueues p). chan_room q"
    by (rule demo_server)
  let ?p = "gin_main demo_gin p"
  have sh: "length (taskQueues ?p) = 2 ^ m" "shardMask ?p = shard_mask (2 ^ m)" using p(2) by (simp_all add: pool_inv_def shards_ok_def)
  have "taskQueues ?p = taskQueues p" by (simp add: SetHook_def gin_main_def)
  moreover have "fst (nextShard (shardMask ?p) (sendSeq ?p)) < length (taskQueues ?p)" unfolding sh by (rule nextShard_range)
  ultimately have room: "chan_room (taskQueues ?p ! fst (nextShard (shardMask ?p) (sendSeq ?p)))" using p(7) nth_mem by auto
  from gin_admission [OF p(3,2,4,5,6), of demo_base None 0 3] obtain q where
    "PoolMiddleware demo_base demo_gin None 0 3 ?p = Some (Some True, q)"
    "fst (world q) = demo_world\<lparr>doneClosed := (doneClosed demo_world)(3 := False),
       traceID := (traceID demo_world)(3 \<mapsto> UnixNano demo_gin (Now demo_gin (ginState demo_world))),
       logged := logged demo_world @ [LogSubmitted, LogEnqueued]\<rparr>"
    using room by auto
  then show ?thesis using p(1) by (intro exI [of _ p] exI [of _ q]) (simp add: demo_world_def demo_gin_def demo_replies_def)
qed

end
