(* ===== verification/Harness_Plan.thy ===== *)
theory Harness_Plan
  imports Go_Prelude
begin

text \<open>
  The load generator under \<^verbatim>\<open>test/\<close> is a host for plugins: \<^verbatim>\<open>test/registry.go\<close> indexes
  them, \<^verbatim>\<open>test/plan.go\<close> turns the requested segments into an execution order, inserting
  missing dependencies. The abstract specification is \<open>legal_order\<close>, an order that keeps
  what the user wrote, runs every dependency first and repeats nothing; \<open>Plan\<close> finds one
  exactly when there is one. A plugin acts on a runtime \<open>'r\<close> and may report an error \<open>'e\<close>;
  the optional interfaces are options.
\<close>

section \<open>Plugins and the registry\<close>

record ('r, 'e) Plugin =
  Name :: string
  Deps :: "string list option"                                                          \<comment> \<open>\<^verbatim>\<open>Depender\<close>\<close>
  lifecycle :: "((string list \<Rightarrow> 'r \<Rightarrow> 'e option \<times> 'r) \<times> ('r \<Rightarrow> 'e option \<times> 'r)) option"  \<comment> \<open>\<^verbatim>\<open>Start\<close>, \<^verbatim>\<open>End\<close>\<close>
  Run :: "string list \<Rightarrow> 'r \<Rightarrow> 'e option \<times> 'r"

text \<open>A Go map has no order: the pairs are distinct in their names, and loops over it take theirs as an argument.\<close>

record ('r, 'e) Registry =
  byName :: "(string \<times> ('r, 'e) Plugin) list"

definition Lookup :: "('r, 'e) Registry \<Rightarrow> string \<Rightarrow> ('r, 'e) Plugin option" where
  "Lookup r name = map_of (byName r) name"

definition deps_of :: "('r, 'e) Plugin \<Rightarrow> string list" where
  "deps_of p = (case Deps p of None \<Rightarrow> [] | Some ds \<Rightarrow> ds)"

datatype registry_error = DuplicatePlugin string | UnregisteredDependency string string

fun register :: "('r, 'e) Plugin list \<Rightarrow> ('r, 'e) Registry \<Rightarrow> registry_error + ('r, 'e) Registry" where
  "register [] r = Inr r"
| "register (p # ps) r =
     (case Lookup r (Name p) of
        Some _ \<Rightarrow> Inl (DuplicatePlugin (Name p))
      | None \<Rightarrow> register ps (r\<lparr>byName := (Name p, p) # byName r\<rparr>))"

fun check_deps :: "('r, 'e) Registry \<Rightarrow> string \<Rightarrow> string list \<Rightarrow> registry_error option" where
  "check_deps r name [] = None"
| "check_deps r name (dep # ds) =
     (case Lookup r dep of None \<Rightarrow> Some (UnregisteredDependency name dep) | Some _ \<Rightarrow> check_deps r name ds)"

fun check_all :: "('r, 'e) Registry \<Rightarrow> (string \<times> ('r, 'e) Plugin) list \<Rightarrow> registry_error option" where
  "check_all r [] = None"
| "check_all r ((name, p) # ps) =
     (case check_deps r name (deps_of p) of Some e \<Rightarrow> Some e | None \<Rightarrow> check_all r ps)"

text \<open>\<open>visit_order\<close>: the order in which the runtime walks the map, a permutation of its pairs.\<close>

definition NewRegistry ::
  "((string \<times> ('r, 'e) Plugin) list \<Rightarrow> (string \<times> ('r, 'e) Plugin) list) \<Rightarrow> ('r, 'e) Plugin list \<Rightarrow> registry_error + ('r, 'e) Registry" where
  "NewRegistry visit_order plugins =
     (case register plugins \<lparr>byName = []\<rparr> of
        Inl e \<Rightarrow> Inl e
      | Inr r \<Rightarrow> (case check_all r (visit_order (byName r)) of Some e \<Rightarrow> Inl e | None \<Rightarrow> Inr r))"

text \<open>
  The plugins of \<^verbatim>\<open>test/plugins.go\<close> with their names, dependencies and which of them have a
  lifecycle; \<open>run\<close> and \<open>lc\<close> stand for what they do.
\<close>

definition allPlugins ::
  "(string \<Rightarrow> string list \<Rightarrow> 'r \<Rightarrow> 'e option \<times> 'r) \<Rightarrow>
   (string \<Rightarrow> (string list \<Rightarrow> 'r \<Rightarrow> 'e option \<times> 'r) \<times> ('r \<Rightarrow> 'e option \<times> 'r)) \<Rightarrow> ('r, 'e) Plugin list" where
  "allPlugins run lc =
     (let plain = (\<lambda>n ds. \<lparr>Name = n, Deps = ds, lifecycle = None, Run = run n\<rparr>);
          managed = (\<lambda>n ds. \<lparr>Name = n, Deps = ds, lifecycle = Some (lc n), Run = run n\<rparr>)
      in [managed ''pool'' None, plain ''task'' None, plain ''submit'' (Some [''pool'', ''task'']), plain ''hook'' (Some [''pool'']),
          plain ''hcount'' None, plain ''hpanic'' None, plain ''horder'' None, plain ''hctx'' None, plain ''hblock'' None,
          plain ''hchurn'' None, plain ''hreenter'' None, plain ''hclose'' None, plain ''henqueue'' None,
          managed ''metrics'' (Some [''pool'']), managed ''profile'' None])"

section \<open>Planning\<close>

record Segment =
  segName :: string
  segArgs :: "string list"

datatype plan_error =
    DuplicateSegment string
  | DependencyCycle string
  | UnregisteredPlugin string
  | DependencyMisordered string string

record plan_state =
  placed :: "string set"
  visiting :: "string set"
  order :: "Segment list"

fun collect :: "Segment list \<Rightarrow> string set \<Rightarrow> (string \<Rightarrow> string list) \<Rightarrow> plan_error + string set \<times> (string \<Rightarrow> string list)" where
  "collect [] requested argsOf = Inr (requested, argsOf)"
| "collect (s # ss) requested argsOf =
     (if segName s \<in> requested then Inl (DuplicateSegment (segName s))
      else collect ss (insert (segName s) requested) (argsOf(segName s := segArgs s)))"

definition place :: "(string \<Rightarrow> string list) \<Rightarrow> string \<Rightarrow> plan_state \<Rightarrow> plan_state" where
  "place argsOf name st = st\<lparr>visiting := visiting st - {name},
     order := order st @ [\<lparr>segName = name, segArgs = argsOf name\<rparr>], placed := insert name (placed st)\<rparr>"

text \<open>The depth of the recursion is bounded by the argument \<open>n\<close>; \<open>None\<close> when it is used up.\<close>

fun visit :: "('r, 'e) Registry \<Rightarrow> string set \<Rightarrow> (string \<Rightarrow> string list) \<Rightarrow> nat \<Rightarrow> string \<Rightarrow> plan_state \<Rightarrow> (plan_error + plan_state) option"
  and visit_deps :: "('r, 'e) Registry \<Rightarrow> string set \<Rightarrow> (string \<Rightarrow> string list) \<Rightarrow> nat \<Rightarrow> string \<Rightarrow> string list \<Rightarrow> plan_state \<Rightarrow>
    (plan_error + plan_state) option" where
  "visit r requested argsOf 0 name st = None"
| "visit r requested argsOf (Suc n) name st =
     (if name \<in> placed st then Some (Inr st)
      else if name \<in> visiting st then Some (Inl (DependencyCycle name))
      else case Lookup r name of
        None \<Rightarrow> Some (Inl (UnregisteredPlugin name))
      | Some p \<Rightarrow>
          (case visit_deps r requested argsOf n name (deps_of p) (st\<lparr>visiting := insert name (visiting st)\<rparr>) of
             None \<Rightarrow> None
           | Some (Inl e) \<Rightarrow> Some (Inl e)
           | Some (Inr st') \<Rightarrow> Some (Inr (place argsOf name st'))))"
| "visit_deps r requested argsOf n name [] st = Some (Inr st)"
| "visit_deps r requested argsOf n name (dep # ds) st =
     (if dep \<in> placed st then visit_deps r requested argsOf n name ds st
      else if dep \<in> requested then Some (Inl (DependencyMisordered dep name))
      else case visit r requested argsOf n dep st of
        None \<Rightarrow> None
      | Some (Inl e) \<Rightarrow> Some (Inl e)
      | Some (Inr st') \<Rightarrow> visit_deps r requested argsOf n name ds st')"

fun plan_loop :: "('r, 'e) Registry \<Rightarrow> string set \<Rightarrow> (string \<Rightarrow> string list) \<Rightarrow> nat \<Rightarrow> Segment list \<Rightarrow> plan_state \<Rightarrow>
    (plan_error + plan_state) option" where
  "plan_loop r requested argsOf n [] st = Some (Inr st)"
| "plan_loop r requested argsOf n (s # ss) st =
     (case visit r requested argsOf n (segName s) st of
        None \<Rightarrow> None
      | Some (Inl e) \<Rightarrow> Some (Inl e)
      | Some (Inr st') \<Rightarrow> plan_loop r requested argsOf n ss st')"

definition Plan :: "Segment list \<Rightarrow> ('r, 'e) Registry \<Rightarrow> (plan_error + Segment list) option" where
  "Plan segs r =
     (case collect segs {} (\<lambda>_. []) of
        Inl e \<Rightarrow> Some (Inl e)
      | Inr (requested, argsOf) \<Rightarrow>
          (case plan_loop r requested argsOf (length (byName r) + 1) segs \<lparr>placed = {}, visiting = {}, order = []\<rparr> of
             None \<Rightarrow> None
           | Some (Inl e) \<Rightarrow> Some (Inl e)
           | Some (Inr st) \<Rightarrow> Some (Inr (order st))))"

section \<open>Legal orders\<close>

text \<open>Each segment is a registered plugin whose dependencies have come before.\<close>

fun deps_first :: "('r, 'e) Registry \<Rightarrow> string set \<Rightarrow> Segment list \<Rightarrow> bool" where
  "deps_first r before [] \<longleftrightarrow> True"
| "deps_first r before (s # ss) \<longleftrightarrow>
     (case Lookup r (segName s) of None \<Rightarrow> False | Some p \<Rightarrow> set (deps_of p) \<subseteq> before) \<and>
     deps_first r (insert (segName s) before) ss"

definition names :: "Segment list \<Rightarrow> string set" where
  "names ss = segName ` set ss"

definition legal_order :: "('r, 'e) Registry \<Rightarrow> Segment list \<Rightarrow> Segment list \<Rightarrow> bool" where
  "legal_order r segs ss \<longleftrightarrow> distinct (map segName ss) \<and> deps_first r {} ss \<and>
     filter (\<lambda>s. segName s \<in> names segs) ss = segs \<and> (\<forall>s\<in>set ss. segName s \<in> names segs \<or> segArgs s = [])"

text \<open>\<open>dep_on r a b\<close>: \<open>a\<close> is a dependency of \<open>b\<close>, at one or more removes.\<close>

definition direct_dep :: "('r, 'e) Registry \<Rightarrow> string \<Rightarrow> string \<Rightarrow> bool" where
  "direct_dep r a b \<longleftrightarrow> (\<exists>p. Lookup r b = Some p \<and> a \<in> set (deps_of p))"

abbreviation dep_on :: "('r, 'e) Registry \<Rightarrow> string \<Rightarrow> string \<Rightarrow> bool" where
  "dep_on r \<equiv> (direct_dep r)\<^sup>+\<^sup>+"

lemma names_simps [simp]: "names [] = {}" "names (s # ss) = insert (segName s) (names ss)" "names (ss @ ts) = names ss \<union> names ts"
  by (auto simp: names_def)

lemma deps_first_append [simp]: "deps_first r B (ss @ ts) \<longleftrightarrow> deps_first r B ss \<and> deps_first r (B \<union> names ss) ts"
  by (induction ss arbitrary: B) auto

lemma collect_ok:
  assumes "distinct (map segName segs)" and "names segs \<inter> req = {}"
  shows "\<exists>f. collect segs req argsOf = Inr (req \<union> names segs, f) \<and> (\<forall>s\<in>set segs. f (segName s) = segArgs s) \<and>
    (\<forall>x. x \<notin> names segs \<longrightarrow> f x = argsOf x)"
  using assms
proof (induction segs arbitrary: req argsOf)
  case (Cons s segs)
  obtain f where f: "collect segs (insert (segName s) req) (argsOf(segName s := segArgs s)) = Inr (insert (segName s) req \<union> names segs, f)"
    "\<forall>s\<in>set segs. f (segName s) = segArgs s" "\<forall>x. x \<notin> names segs \<longrightarrow> f x = (argsOf(segName s := segArgs s)) x"
    using Cons.IH [of "insert (segName s) req"] Cons.prems by (force simp: names_def)
  then show ?case using Cons.prems by (intro exI [of _ f]) (auto simp: names_def)
qed simp

lemma collect_distinct: "collect segs req argsOf = Inr x \<Longrightarrow> distinct (map segName segs) \<and> names segs \<inter> req = {}"
proof (induction segs arbitrary: req argsOf)
  case (Cons s segs)
  then have "segName s \<notin> req" "distinct (map segName segs) \<and> names segs \<inter> insert (segName s) req = {}"
    by (metis Inl_Inr_False collect.simps(2))+
  then show ?case by (auto simp: names_def)
qed simp

lemma collect_error:
  "collect segs req argsOf = Inl e \<Longrightarrow> \<exists>n. e = DuplicateSegment n \<and> n \<in> names segs \<and> (n \<in> req \<or> 1 < length (filter (\<lambda>s. segName s = n) segs))"
proof (induction segs arbitrary: req argsOf)
  case (Cons s segs)
  show ?case
  proof (cases "segName s \<in> req")
    case False
    then obtain n where n: "e = DuplicateSegment n" "n \<in> names segs" "n \<in> insert (segName s) req \<or> 1 < length (filter (\<lambda>s. segName s = n) segs)"
      using Cons.IH Cons.prems by (metis collect.simps(2))
    then have "filter (\<lambda>s. segName s = n) segs \<noteq> []" by (auto simp: names_def filter_empty_conv)
    then show ?thesis using n by (intro exI [of _ n]) auto
  qed (use Cons.prems in auto)
qed simp

section \<open>What a visit does\<close>

text \<open>
  A visit that succeeds appends the dependencies that were missing and then the segment,
  none of them requested but the last, and each needed by the last.
\<close>

definition plan_ok :: "('r, 'e) Registry \<Rightarrow> (string \<Rightarrow> string list) \<Rightarrow> plan_state \<Rightarrow> bool" where
  "plan_ok r argsOf st \<longleftrightarrow> placed st = names (order st) \<and> distinct (map segName (order st)) \<and> deps_first r {} (order st) \<and>
     (\<forall>s\<in>set (order st). segArgs s = argsOf (segName s)) \<and> placed st \<inter> visiting st = {}"

definition grown :: "('r, 'e) Registry \<Rightarrow> string set \<Rightarrow> string \<Rightarrow> plan_state \<Rightarrow> plan_state \<Rightarrow> bool" where
  "grown r requested name st st' \<longleftrightarrow> visiting st' = visiting st \<and>
     (\<exists>new. order st' = order st @ new \<and> (\<forall>s\<in>set new. segName s \<notin> requested \<and> dep_on r (segName s) name))"

lemma grown_refl: "grown r requested name st st"
  by (simp add: grown_def)

lemma grown_trans: "grown r requested name st st' \<Longrightarrow> grown r requested name st' st'' \<Longrightarrow> grown r requested name st st''"
  by (auto simp: grown_def)

lemma placed_mono: "plan_ok r argsOf st \<Longrightarrow> plan_ok r argsOf st' \<Longrightarrow> grown r requested name st st' \<Longrightarrow> placed st \<subseteq> placed st'"
  by (auto simp: plan_ok_def grown_def)

lemma place_ok:
  assumes "plan_ok r argsOf st" and "Lookup r name = Some p" and "set (deps_of p) \<subseteq> placed st" and "name \<in> visiting st"
  shows "plan_ok r argsOf (place argsOf name st)"
proof -
  have "name \<notin> names (order st)" using assms(1,4) by (auto simp: plan_ok_def)
  then have "distinct (map segName (order st @ [\<lparr>segName = name, segArgs = argsOf name\<rparr>]))"
    using assms(1) by (simp add: plan_ok_def names_def)
  then show ?thesis using assms by (auto simp: plan_ok_def place_def)
qed

lemma visit_sound:
  "visit r requested argsOf n name st = Some (Inr st') \<Longrightarrow> plan_ok r argsOf st \<Longrightarrow> (name \<in> placed st \<longrightarrow> st' = st) \<and>
     (name \<notin> placed st \<longrightarrow> plan_ok r argsOf st' \<and> (\<exists>st1. grown r requested name st st1 \<and>
        order st' = order st1 @ [\<lparr>segName = name, segArgs = argsOf name\<rparr>] \<and> visiting st' = visiting st))"
  "visit_deps r requested argsOf n name ds st = Some (Inr st') \<Longrightarrow> plan_ok r argsOf st \<Longrightarrow> \<forall>d\<in>set ds. direct_dep r d name \<Longrightarrow>
     plan_ok r argsOf st' \<and> grown r requested name st st' \<and> set ds \<subseteq> placed st'"
proof (induction r requested argsOf n name st and r requested argsOf n name ds st arbitrary: st' and st' rule: visit_visit_deps.induct)
  case (2 r requested argsOf n name st)
  show ?case
  proof (cases "name \<in> placed st")
    case new: False
    let ?st = "st\<lparr>visiting := insert name (visiting st)\<rparr>"
    from 2(2) new obtain p st1 where p: "name \<notin> visiting st" "Lookup r name = Some p"
      "visit_deps r requested argsOf n name (deps_of p) ?st = Some (Inr st1)" "st' = place argsOf name st1"
      by (auto split: if_splits option.splits sum.splits)
    have "plan_ok r argsOf ?st" using 2(3) new by (auto simp: plan_ok_def)
    moreover have "\<forall>d\<in>set (deps_of p). direct_dep r d name" using p(2) by (auto simp: direct_dep_def)
    ultimately have st1: "plan_ok r argsOf st1" "grown r requested name ?st st1" "set (deps_of p) \<subseteq> placed st1"
      using 2(1) [OF new p(1,2,3)] by blast+
    have "name \<in> visiting st1" using st1(2) by (simp add: grown_def)
    then have "plan_ok r argsOf st'" using place_ok [OF st1(1) p(2) st1(3)] p(4) by simp
    moreover have "grown r requested name st (st1\<lparr>visiting := visiting st\<rparr>)" using st1(2) by (simp add: grown_def)
    moreover have "visiting st' = visiting st" using st1(2) p(1,4) by (auto simp: place_def grown_def)
    moreover have "order st' = order (st1\<lparr>visiting := visiting st\<rparr>) @ [\<lparr>segName = name, segArgs = argsOf name\<rparr>]"
      using p(4) by (simp add: place_def)
    ultimately show ?thesis using new by blast
  qed (use 2(2) in simp)
next
  case (4 r requested argsOf n name dep ds st)
  show ?case
  proof (cases "dep \<in> placed st")
    case True
    then have "plan_ok r argsOf st' \<and> grown r requested name st st' \<and> set ds \<subseteq> placed st'" using 4(1) [OF True _ 4(5)] 4(4,6) by simp
    then show ?thesis using placed_mono [OF 4(5)] True by auto
  next
    case new: False
    from 4(4) new obtain st1 where v: "dep \<notin> requested" "visit r requested argsOf n dep st = Some (Inr st1)"
      "visit_deps r requested argsOf n name ds st1 = Some (Inr st')"
      by (auto split: if_splits option.splits sum.splits)
    have dep: "direct_dep r dep name" using 4(6) by simp
    from 4(2) [OF new v(1,2) 4(5)] new obtain stm where stm: "plan_ok r argsOf st1" "grown r requested dep st stm"
      "order st1 = order stm @ [\<lparr>segName = dep, segArgs = argsOf dep\<rparr>]" "visiting st1 = visiting st" by blast
    have "dep_on r dep name" "dep_on r x dep \<Longrightarrow> dep_on r x name" for x
      using dep by (blast intro: tranclp.r_into_trancl tranclp.trancl_into_trancl)+
    then have g: "grown r requested name st st1" using v(1) stm(2-4) by (auto simp: grown_def)
    have "dep \<in> placed st1" using stm(1,3) by (simp add: plan_ok_def)
    moreover have rest: "plan_ok r argsOf st' \<and> grown r requested name st1 st' \<and> set ds \<subseteq> placed st'"
      using 4(3) [OF new v(1,2) _ v(3) stm(1)] 4(6) by simp
    moreover have "placed st1 \<subseteq> placed st'" using rest placed_mono [OF stm(1)] by blast
    ultimately show ?thesis using grown_trans [OF g] by auto
  qed
qed (simp_all add: grown_refl)

section \<open>Planning ends, and its errors are real\<close>

definition reg_names :: "('r, 'e) Registry \<Rightarrow> string set" where
  "reg_names r = fst ` set (byName r)"

fun justified :: "('r, 'e) Registry \<Rightarrow> Segment list \<Rightarrow> plan_error \<Rightarrow> bool" where
  "justified r segs (DuplicateSegment x) \<longleftrightarrow> 1 < length (filter (\<lambda>s. segName s = x) segs)"
| "justified r segs (DependencyCycle x) \<longleftrightarrow> dep_on r x x"
| "justified r segs (UnregisteredPlugin x) \<longleftrightarrow> Lookup r x = None"
| "justified r segs (DependencyMisordered d x) \<longleftrightarrow> d \<in> names segs \<and> direct_dep r d x"

lemma visiting_room:
  assumes "Lookup r name = Some p" and "name \<notin> V" and "card (reg_names r - V) < Suc n"
  shows "card (reg_names r - insert name V) < n"
proof -
  have "name \<in> reg_names r - V" using assms(1,2) by (force simp: Lookup_def reg_names_def dest: map_of_SomeD)
  then have "card (reg_names r - insert name V) < card (reg_names r - V)"
    by (intro psubset_card_mono) (auto simp: reg_names_def)
  then show ?thesis using assms(3) by simp
qed

lemma visit_ends:
  "requested = names segs \<Longrightarrow> plan_ok r argsOf st \<Longrightarrow> card (reg_names r - visiting st) < n \<Longrightarrow> \<forall>v\<in>visiting st. dep_on r name v \<Longrightarrow>
     \<exists>res. visit r requested argsOf n name st = Some res \<and> (\<forall>e. res = Inl e \<longrightarrow> justified r segs e)"
  "requested = names segs \<Longrightarrow> plan_ok r argsOf st \<Longrightarrow> card (reg_names r - visiting st) < n \<Longrightarrow> \<forall>v\<in>visiting st. v = name \<or> dep_on r name v \<Longrightarrow>
     \<forall>d\<in>set ds. direct_dep r d name \<Longrightarrow>
     \<exists>res. visit_deps r requested argsOf n name ds st = Some res \<and> (\<forall>e. res = Inl e \<longrightarrow> justified r segs e)"
proof (induction r requested argsOf n name st and r requested argsOf n name ds st rule: visit_visit_deps.induct)
  case (2 r requested argsOf n name st)
  show ?case
  proof (cases "name \<in> placed st \<or> name \<in> visiting st \<or> Lookup r name = None")
    case True
    then show ?thesis using 2(5) by auto
  next
    case False
    then obtain p where p: "name \<notin> placed st" "name \<notin> visiting st" "Lookup r name = Some p" by auto
    let ?st = "st\<lparr>visiting := insert name (visiting st)\<rparr>"
    have "plan_ok r argsOf ?st" using 2(3) p(1) by (auto simp: plan_ok_def)
    moreover have "card (reg_names r - visiting ?st) < n" using visiting_room [OF p(3,2)] 2(4) by simp
    moreover have "\<forall>d\<in>set (deps_of p). direct_dep r d name" using p(3) by (auto simp: direct_dep_def)
    ultimately obtain res where "visit_deps r requested argsOf n name (deps_of p) ?st = Some res"
      "\<forall>e. res = Inl e \<longrightarrow> justified r segs e"
      using 2(1) [OF p 2(2)] 2(5) by auto
    then show ?thesis using p by (cases res) auto
  qed
next
  case (4 r requested argsOf n name dep ds st)
  show ?case
  proof (cases "dep \<in> placed st \<or> dep \<in> requested")
    case True
    then show ?thesis using 4(1) 4(4-8) by auto
  next
    case False
    then have new: "dep \<notin> placed st" "dep \<notin> requested" by simp_all
    have "\<forall>v\<in>visiting st. dep_on r dep v" using 4(7,8) by (auto intro: tranclp_into_tranclp2)
    then obtain res where res: "visit r requested argsOf n dep st = Some res" "\<forall>e. res = Inl e \<longrightarrow> justified r segs e"
      using 4(2) [OF new 4(4-6)] by blast
    show ?thesis
    proof (cases res)
      case (Inr st1)
      then have "plan_ok r argsOf st1" "visiting st1 = visiting st" using visit_sound(1) [of r requested argsOf n dep st st1] res(1) 4(5) new by auto
      then show ?thesis using 4(3) [OF new res(1) Inr 4(4)] 4(6-8) res(1) Inr new by simp
    qed (use res new in auto)
  qed
qed simp_all

section \<open>Planning finds every legal order\<close>

fun pos :: "Segment list \<Rightarrow> string \<Rightarrow> nat" where
  "pos [] x = 0"
| "pos (s # ss) x = (if segName s = x then 0 else Suc (pos ss x))"

lemma pos_append: "pos (xs @ ys) x = (if x \<in> names xs then pos xs x else length xs + pos ys x)"
  by (induction xs) auto

lemma pos_less: "x \<in> names xs \<Longrightarrow> pos xs x < length xs"
  by (induction xs) auto

lemma deps_pos:
  assumes "deps_first r {} ss" and "name \<in> names ss"
  obtains p where "Lookup r name = Some p" and "\<And>d. d \<in> set (deps_of p) \<Longrightarrow> d \<in> names ss \<and> pos ss d < pos ss name"
proof -
  have "\<exists>s\<in>set ss. segName s = name" using assms(2) by (auto simp: names_def)
  from split_list_first_propE [OF this] obtain xs s ys where ss: "ss = xs @ s # ys" "segName s = name" "\<forall>t\<in>set xs. segName t \<noteq> name" by metis
  then have first: "name \<notin> names xs" by (auto simp: names_def)
  obtain p where p: "Lookup r name = Some p" "set (deps_of p) \<subseteq> names xs" using assms(1) ss(1,2) by (auto split: option.splits)
  have "d \<in> names ss \<and> pos ss d < pos ss name" if d: "d \<in> set (deps_of p)" for d
  proof -
    have x: "d \<in> names xs" using d p(2) by blast
    then show ?thesis using pos_less [OF x] ss(1,2) first by (simp add: pos_append)
  qed
  with p(1) show thesis using that by blast
qed

lemma visit_finds:
  assumes legal: "deps_first r {} ss"
  shows "plan_ok r argsOf st \<Longrightarrow> card (reg_names r - visiting st) < n \<Longrightarrow> name \<in> names ss \<Longrightarrow>
     \<forall>v\<in>visiting st. pos ss name < pos ss v \<Longrightarrow> \<forall>x\<in>requested. pos ss x < pos ss name \<longrightarrow> x \<in> placed st \<Longrightarrow>
     \<exists>st'. visit r requested argsOf n name st = Some (Inr st')"
  "plan_ok r argsOf st \<Longrightarrow> card (reg_names r - visiting st) < n \<Longrightarrow>
     \<forall>d\<in>set ds. direct_dep r d name \<and> d \<in> names ss \<and> pos ss d < pos ss name \<Longrightarrow>
     \<forall>v\<in>visiting st. pos ss name \<le> pos ss v \<Longrightarrow> \<forall>x\<in>requested. pos ss x < pos ss name \<longrightarrow> x \<in> placed st \<Longrightarrow>
     \<exists>st'. visit_deps r requested argsOf n name ds st = Some (Inr st')"
  using legal
proof (induction r requested argsOf n name st and r requested argsOf n name ds st rule: visit_visit_deps.induct)
  case (2 r requested argsOf n name st)
  show ?case
  proof (cases "name \<in> placed st")
    case new: False
    have nv: "name \<notin> visiting st" using 2(5) by blast
    obtain p where p: "Lookup r name = Some p" "\<And>d. d \<in> set (deps_of p) \<Longrightarrow> d \<in> names ss \<and> pos ss d < pos ss name"
      using deps_pos [OF 2(7,4)] by blast
    let ?st = "st\<lparr>visiting := insert name (visiting st)\<rparr>"
    have "plan_ok r argsOf ?st" using 2(2) new by (auto simp: plan_ok_def)
    moreover have "card (reg_names r - visiting ?st) < n" using visiting_room [OF p(1) nv] 2(3) by simp
    moreover have "\<forall>d\<in>set (deps_of p). direct_dep r d name \<and> d \<in> names ss \<and> pos ss d < pos ss name"
      using p by (auto simp: direct_dep_def)
    ultimately obtain st1 where "visit_deps r requested argsOf n name (deps_of p) ?st = Some (Inr st1)"
      using 2(1) [OF new nv p(1)] 2(5-7) by fastforce
    then show ?thesis using new nv p(1) by simp
  qed simp
next
  case (4 r requested argsOf n name dep ds st)
  show ?case
  proof (cases "dep \<in> placed st")
    case True
    then show ?thesis using 4(1) 4(4-9) by simp
  next
    case new: False
    have d: "dep \<in> names ss" "pos ss dep < pos ss name" using 4(6) by simp_all
    have nr: "dep \<notin> requested" using 4(8) d(2) new by blast
    have "\<forall>v\<in>visiting st. pos ss dep < pos ss v" using 4(7) d(2) by fastforce
    moreover have "\<forall>x\<in>requested. pos ss x < pos ss dep \<longrightarrow> x \<in> placed st" using 4(8) d(2) by fastforce
    ultimately obtain st1 where v: "visit r requested argsOf n dep st = Some (Inr st1)"
      using 4(2) [OF new nr 4(4,5) d(1)] 4(9) by blast
    from visit_sound(1) [OF v 4(4)] new obtain stm where stm: "plan_ok r argsOf st1" "grown r requested dep st stm"
      "order st1 = order stm @ [\<lparr>segName = dep, segArgs = argsOf dep\<rparr>]" "visiting st1 = visiting st" by blast
    then have "placed st \<subseteq> placed st1" using 4(4) by (auto simp: plan_ok_def grown_def)
    then show ?thesis using 4(3) [OF new nr v _ stm(1)] 4(5-9) stm(4) v new nr by auto
  qed
qed simp_all

section \<open>The whole plan\<close>

lemma reg_names_card: "card (reg_names r) < length (byName r) + 1"
  using card_length [of "map fst (byName r)"] by (simp add: reg_names_def)

lemma plan_loop_ends:
  assumes "plan_ok r argsOf st" and "visiting st = {}"
  shows "\<exists>res. plan_loop r (names segs) argsOf (length (byName r) + 1) rest st = Some res \<and> (\<forall>e. res = Inl e \<longrightarrow> justified r segs e)"
  using assms
proof (induction rest arbitrary: st)
  case (Cons s rest)
  let ?n = "length (byName r) + 1"
  obtain res where res: "visit r (names segs) argsOf ?n (segName s) st = Some res" "\<forall>e. res = Inl e \<longrightarrow> justified r segs e"
    using visit_ends(1) [OF refl Cons.prems(1), of ?n "segName s" segs] Cons.prems(2) reg_names_card [of r] by (auto simp del: visit.simps)
  show ?case
  proof (cases res)
    case (Inr st1)
    then have "plan_ok r argsOf st1" "visiting st1 = {}"
      using visit_sound(1) [of r "names segs" argsOf ?n "segName s" st st1] res(1) Cons.prems by (cases "segName s \<in> placed st"; auto)+
    from Cons.IH [OF this] show ?thesis using res(1) Inr by simp
  qed (use res in simp)
qed simp

lemma plan_loop_sound:
  assumes "plan_loop r (names segs) argsOf n rest st = Some (Inr st')" and "plan_ok r argsOf st" and "visiting st = {}"
    and "filter (\<lambda>s. segName s \<in> names segs) (order st) = before" and "segs = before @ rest" and "distinct (map segName segs)"
    and "\<forall>s\<in>set rest. argsOf (segName s) = segArgs s"
    and "\<forall>s\<in>set (order st). segName s \<in> names segs \<or> (\<exists>t\<in>names segs. dep_on r (segName s) t)"
  shows "plan_ok r argsOf st' \<and> filter (\<lambda>s. segName s \<in> names segs) (order st') = segs \<and>
    (\<forall>s\<in>set (order st'). segName s \<in> names segs \<or> (\<exists>t\<in>names segs. dep_on r (segName s) t))"
  using assms
proof (induction rest arbitrary: st before)
  case (Cons s rest)
  let ?P = "\<lambda>s. segName s \<in> names segs"
  from Cons.prems(1) obtain st1 where v: "visit r (names segs) argsOf n (segName s) st = Some (Inr st1)"
    "plan_loop r (names segs) argsOf n rest st1 = Some (Inr st')"
    by (auto split: option.splits sum.splits)
  have "segName s \<notin> names before" using Cons.prems(5,6) by (auto simp: names_def)
  moreover have "x \<in> names before" if "x \<in> names (order st)" "x \<in> names segs" for x
    using that unfolding Cons.prems(4) [symmetric] by (auto simp: names_def)
  ultimately have "segName s \<notin> placed st" using Cons.prems(2,5) by (auto simp: plan_ok_def)
  from visit_sound(1) [OF v(1) Cons.prems(2)] this obtain stm where st1: "plan_ok r argsOf st1" "grown r (names segs) (segName s) st stm"
    "order st1 = order stm @ [\<lparr>segName = segName s, segArgs = argsOf (segName s)\<rparr>]" "visiting st1 = visiting st" by blast
  then obtain new where new: "order st1 = order st @ new @ [s]" "\<forall>t\<in>set new. \<not> ?P t \<and> dep_on r (segName t) (segName s)"
    using Cons.prems(7) by (auto simp: grown_def)
  have s: "?P s" using Cons.prems(5) by simp
  have "filter ?P new = []" using new(2) by (simp add: filter_empty_conv)
  then have f: "filter ?P (order st1) = before @ [s]" using new(1) Cons.prems(4) s by simp
  have needed: "\<forall>s\<in>set (order st1). ?P s \<or> (\<exists>t\<in>names segs. dep_on r (segName s) t)"
    using Cons.prems(8) new s by (metis UnE empty_iff empty_set insert_iff list.simps(15) set_append)
  show ?case by (rule Cons.IH [OF v(2) st1(1) _ f _ Cons.prems(6) _ needed]) (use Cons.prems(3,5,7) st1(4) in auto)
qed simp

lemma filter_split:
  assumes "filter P ss = us @ vs"
  obtains xs ys where "ss = xs @ ys" and "filter P xs = us" and "filter P ys = vs"
proof -
  have "\<exists>xs ys. ss = xs @ ys \<and> filter P xs = us \<and> filter P ys = vs"
    using assms
  proof (induction ss arbitrary: us)
    case (Cons a ss)
    show ?case
    proof (cases "P a \<and> us \<noteq> []")
      case True
      then obtain us' where "us = a # us'" "filter P ss = us' @ vs" using Cons.prems by (cases us) auto
      then show ?thesis using Cons.IH [of us'] True by (metis append_Cons filter.simps(2))
    next
      case False
      show ?thesis
      proof (cases "us = []")
        case True
        then show ?thesis using Cons.prems by (intro exI [of _ "[]"] exI [of _ "a # ss"]) simp
      next
        case ne: False
        then have "\<not> P a" using False by simp
        then show ?thesis using Cons by (metis append_Cons filter.simps(2))
      qed
    qed
  qed simp
  then show thesis using that by blast
qed

lemma legal_split:
  assumes "legal_order r segs ss" and "segs = before @ s # rest" and "x \<in> names segs" and "pos ss x < pos ss (segName s)"
  shows "x \<in> names before"
proof -
  let ?P = "\<lambda>s. segName s \<in> names segs"
  have f: "filter ?P ss = before @ s # rest" and d: "distinct (map segName ss)" using assms(1,2) by (simp_all add: legal_order_def)
  obtain xs ys where ss: "ss = xs @ ys" "filter ?P xs = before" "filter ?P ys = s # rest" by (rule filter_split [OF f])
  from filter_eq_ConsD [OF ss(3)] obtain us vs where ys: "ys = us @ s # vs" "\<forall>u\<in>set us. \<not> ?P u" by blast
  have "segName s \<notin> names (xs @ us)" using d ss(1) ys(1) by (auto simp: names_def)
  then have "pos ss (segName s) = length (xs @ us)" using ss(1) ys(1) by (simp add: pos_append)
  then have "x \<in> names (xs @ us)" using assms(4) ss(1) ys(1) by (auto simp: pos_append split: if_splits)
  then show ?thesis using ys(2) assms(3) ss(2) by (auto simp: names_def)
qed

lemma plan_loop_finds:
  assumes legal: "legal_order r segs ss"
    and "plan_ok r argsOf st" and "visiting st = {}" and "segs = before @ rest" and "names before \<subseteq> placed st"
  shows "\<exists>st'. plan_loop r (names segs) argsOf (length (byName r) + 1) rest st = Some (Inr st')"
  using assms(2-)
proof (induction rest arbitrary: st before)
  case (Cons s rest)
  let ?n = "length (byName r) + 1"
  have df: "deps_first r {} ss" using legal by (simp add: legal_order_def)
  have "card (reg_names r - visiting st) < ?n" using Cons.prems(2) reg_names_card [of r] by simp
  moreover have "s \<in> set (filter (\<lambda>s. segName s \<in> names segs) ss)" using legal Cons.prems(3) by (simp add: legal_order_def)
  then have "segName s \<in> names ss" by (auto simp: names_def)
  moreover have "\<forall>x\<in>names segs. pos ss x < pos ss (segName s) \<longrightarrow> x \<in> placed st"
    using legal_split [OF legal Cons.prems(3)] Cons.prems(4) by blast
  ultimately obtain st1 where v: "visit r (names segs) argsOf ?n (segName s) st = Some (Inr st1)"
    using visit_finds(1) [OF df Cons.prems(1)] Cons.prems(2) by blast
  have st1: "plan_ok r argsOf st1 \<and> visiting st1 = {} \<and> insert (segName s) (placed st) \<subseteq> placed st1"
    using visit_sound(1) [OF v Cons.prems(1)] Cons.prems(1,2)
    by (cases "segName s \<in> placed st") (auto simp: plan_ok_def grown_def)
  show ?case using Cons.IH [of st1 "before @ [s]"] st1 Cons.prems(3,4) v by auto
qed simp

lemma plan_meets_spec:
  "\<exists>res. Plan segs r = Some res \<and>
     (\<forall>ss. res = Inr ss \<longrightarrow> legal_order r segs ss \<and>
        (\<forall>s\<in>set ss. segName s \<in> names segs \<or> (\<exists>t\<in>names segs. dep_on r (segName s) t))) \<and>
     (\<forall>e. res = Inl e \<longrightarrow> (\<forall>ss. \<not> legal_order r segs ss) \<and> justified r segs e)"
proof (cases "distinct (map segName segs)")
  case False
  have "\<not> legal_order r segs ss" for ss using False by (metis distinct_map_filter legal_order_def)
  moreover obtain e where "collect segs {} (\<lambda>_. []) = Inl e"
  proof (cases "collect segs {} (\<lambda>_. [])")
    case (Inr x)
    then show thesis using collect_distinct False by blast
  qed blast
  moreover from collect_error [OF this] have "justified r segs e" by auto
  ultimately show ?thesis by (simp add: Plan_def)
next
  case True
  obtain f where f: "collect segs {} (\<lambda>_. []) = Inr (names segs, f)" "\<forall>s\<in>set segs. f (segName s) = segArgs s"
    "\<forall>x. x \<notin> names segs \<longrightarrow> f x = []" using collect_ok [OF True, of "{}" "\<lambda>_. []"] by auto
  let ?st = "\<lparr>placed = {}, visiting = {}, order = []\<rparr> :: plan_state"
  have ok: "plan_ok r f ?st" by (simp add: plan_ok_def)
  obtain res where res: "plan_loop r (names segs) f (length (byName r) + 1) segs ?st = Some res" "\<forall>e. res = Inl e \<longrightarrow> justified r segs e"
    using plan_loop_ends [OF ok, of segs segs] by auto
  show ?thesis
  proof (cases res)
    case (Inl e)
    then have "\<not> legal_order r segs ss" for ss using plan_loop_finds [of r segs ss f ?st "[]" segs] ok res(1) by auto
    then show ?thesis using f(1) res Inl by (simp add: Plan_def)
  next
    case (Inr st)
    from plan_loop_sound [OF res(1) [unfolded Inr] ok, of "[]"] True f(2)
    have "plan_ok r f st" "filter (\<lambda>s. segName s \<in> names segs) (order st) = segs"
      "\<forall>s\<in>set (order st). segName s \<in> names segs \<or> (\<exists>t\<in>names segs. dep_on r (segName s) t)" by auto
    then show ?thesis using f(1,3) res(1) Inr by (auto simp: Plan_def legal_order_def plan_ok_def)
  qed
qed

section \<open>Properties\<close>

text \<open>
  C38. Planning always ends, and it finds an execution order exactly when there is one that
  runs the requested segments in the order the user wrote them, each once and with its own
  arguments, and every dependency before its dependents. It inserts only dependencies of
  requested segments, with no arguments; and the error it reports is real: a segment
  written twice, a cycle through the reported plugin, a plugin that is not registered, or a
  requested dependency of the reported plugin.
\<close>

theorem Plan_finds_legal_order:
  "\<exists>res. Plan segs r = Some res \<and>
     (\<forall>ss. res = Inr ss \<longrightarrow> legal_order r segs ss \<and>
        (\<forall>s\<in>set ss. segName s \<in> names segs \<or> (\<exists>t\<in>names segs. dep_on r (segName s) t))) \<and>
     (\<forall>e. res = Inl e \<longrightarrow> (\<forall>ss. \<not> legal_order r segs ss) \<and> justified r segs e)"
  by (rule plan_meets_spec)

lemma allPlugins_registered:
  "NewRegistry (\<lambda>x. x) (allPlugins run lc) = Inr \<lparr>byName = rev (map (\<lambda>p. (Name p, p)) (allPlugins run lc))\<rparr>"
  by (simp add: NewRegistry_def allPlugins_def Lookup_def deps_of_def Let_def)

theorem Plan_finds_legal_order_witness:
  "\<exists>r ss. NewRegistry (\<lambda>x. x) (allPlugins (\<lambda>n a w. (None :: unit option, w :: nat)) (\<lambda>n. (\<lambda>a w. (None, w), \<lambda>w. (None, w)))) = Inr r \<and>
     Plan [\<lparr>segName = ''submit'', segArgs = [''num=5'']\<rparr>] r = Some (Inr ss) \<and>
     map segName ss = [''pool'', ''task'', ''submit''] \<and> legal_order r [\<lparr>segName = ''submit'', segArgs = [''num=5'']\<rparr>] ss"
proof -
  let ?a = "allPlugins (\<lambda>n a w. (None :: unit option, w :: nat)) (\<lambda>n. (\<lambda>a w. (None, w), \<lambda>w. (None, w)))"
  let ?r = "\<lparr>byName = rev (map (\<lambda>p. (Name p, p)) ?a)\<rparr>" and ?s = "[\<lparr>segName = ''submit'', segArgs = [''num=5'']\<rparr>]"
  let ?o = "[\<lparr>segName = ''pool'', segArgs = []\<rparr>, \<lparr>segName = ''task'', segArgs = []\<rparr>, \<lparr>segName = ''submit'', segArgs = [''num=5'']\<rparr>]"
  have p: "Plan ?s ?r = Some (Inr ?o)"
    by (simp add: Plan_def allPlugins_def Lookup_def deps_of_def Let_def place_def)
  have "legal_order ?r ?s ?o" using Plan_finds_legal_order [of ?s ?r] unfolding p by blast
  then show ?thesis using p allPlugins_registered by (intro exI [of _ ?r] exI [of _ ?o]) simp
qed

end
