(* ===== verification/Harness_Session.thy ===== *)
theory Harness_Session
  imports Harness_Plan "HOL-Library.Char_ord" "HOL-Library.List_Lexorder"
begin

text \<open>
  The host of the load generator: \<^verbatim>\<open>test/cli.go\<close> splits the command line into segments,
  \<^verbatim>\<open>execSession\<close> of \<^verbatim>\<open>test/main.go\<close> starts, runs and ends the planned plugins, and
  \<^verbatim>\<open>run\<close> composes the whole. Reports are values rather than text. \<open>pluginCalls\<close> records the
  plugin calls that the host makes.
\<close>

section \<open>The command line\<close>

datatype usage_error = UnknownSegment string | ArgumentOutside string

definition flush :: "Segment list \<Rightarrow> Segment option \<Rightarrow> Segment list" where
  "flush segs cur = (case cur of None \<Rightarrow> segs | Some s \<Rightarrow> segs @ [s])"

fun parse_loop :: "('w, 'e) Registry \<Rightarrow> string list \<Rightarrow> Segment list \<Rightarrow> Segment option \<Rightarrow> usage_error + Segment list" where
  "parse_loop r [] segs cur = Inr (flush segs cur)"
| "parse_loop r (tok # toks) segs cur =
     (if take 2 tok = ''--'' then
        (case Lookup r (drop 2 tok) of
           Some _ \<Rightarrow> parse_loop r toks (flush segs cur) (Some \<lparr>segName = drop 2 tok, segArgs = []\<rparr>)
         | None \<Rightarrow>
             (case cur of
                None \<Rightarrow> Inl (UnknownSegment (drop 2 tok))
              | Some s \<Rightarrow> parse_loop r toks segs (Some (s\<lparr>segArgs := segArgs s @ [tok]\<rparr>))))
      else
        (case cur of
           None \<Rightarrow> Inl (ArgumentOutside tok)
         | Some s \<Rightarrow> parse_loop r toks segs (Some (s\<lparr>segArgs := segArgs s @ [tok]\<rparr>))))"

definition ParseSegments :: "string list \<Rightarrow> ('w, 'e) Registry \<Rightarrow> usage_error + Segment list" where
  "ParseSegments argv r = parse_loop r argv [] None"

text \<open>The grammar: a segment is a head and arguments that are not heads.\<close>

definition is_head :: "('w, 'e) Registry \<Rightarrow> string \<Rightarrow> bool" where
  "is_head r tok \<longleftrightarrow> take 2 tok = ''--'' \<and> Lookup r (drop 2 tok) \<noteq> None"

definition unparse :: "Segment list \<Rightarrow> string list" where
  "unparse segs = concat (map (\<lambda>s. (''--'' @ segName s) # segArgs s) segs)"

definition segment_ok :: "('w, 'e) Registry \<Rightarrow> Segment \<Rightarrow> bool" where
  "segment_ok r s \<longleftrightarrow> Lookup r (segName s) \<noteq> None \<and> (\<forall>a\<in>set (segArgs s). \<not> is_head r a)"

lemma parse_args:
  "\<forall>a\<in>set as. \<not> is_head r a \<Longrightarrow> parse_loop r (as @ toks) segs (Some s) = parse_loop r toks segs (Some (s\<lparr>segArgs := segArgs s @ as\<rparr>))"
proof (induction as arbitrary: s)
  case (Cons a as)
  then have "parse_loop r ((a # as) @ toks) segs (Some s) = parse_loop r (as @ toks) segs (Some (s\<lparr>segArgs := segArgs s @ [a]\<rparr>))"
    by (auto simp: is_head_def split: option.splits)
  then show ?case using Cons by simp
qed simp

lemma parse_unparse:
  "\<forall>s\<in>set new. segment_ok r s \<Longrightarrow> parse_loop r (unparse new) segs cur = Inr (flush segs cur @ new)"
proof (induction new arbitrary: segs cur)
  case (Cons s new)
  then have s: "Lookup r (segName s) \<noteq> None" "\<forall>a\<in>set (segArgs s). \<not> is_head r a" by (simp_all add: segment_ok_def)
  have "parse_loop r (unparse (s # new)) segs cur =
      parse_loop r (segArgs s @ unparse new) (flush segs cur) (Some \<lparr>segName = segName s, segArgs = []\<rparr>)"
    using s(1) by (auto simp: unparse_def)
  also have "\<dots> = parse_loop r (unparse new) (flush segs cur) (Some s)" using parse_args [OF s(2)] by (cases s) simp
  also have "\<dots> = Inr (flush segs cur @ s # new)" using Cons by (simp add: flush_def)
  finally show ?case .
qed (simp add: unparse_def)

lemma parse_sound:
  assumes "parse_loop r toks segs cur = Inr out" and "\<forall>s\<in>set (flush segs cur). segment_ok r s"
  shows "unparse out = unparse (flush segs cur) @ toks \<and> (\<forall>s\<in>set out. segment_ok r s)"
  using assms
proof (induction toks arbitrary: segs cur)
  case (Cons tok toks)
  show ?case
  proof (cases "is_head r tok")
    case True
    let ?s = "\<lparr>segName = drop 2 tok, segArgs = []\<rparr>"
    have tok: "''--'' @ drop 2 tok = tok" using True by (metis append_take_drop_id is_head_def)
    have f: "flush (flush segs cur) (Some ?s) = flush segs cur @ [?s]" by (simp add: flush_def)
    have p: "parse_loop r toks (flush segs cur) (Some ?s) = Inr out" using True Cons.prems(1) by (auto simp: is_head_def)
    have "segment_ok r ?s" using True by (simp add: segment_ok_def is_head_def)
    then have "\<forall>s\<in>set (flush (flush segs cur) (Some ?s)). segment_ok r s" using Cons.prems(2) unfolding f by auto
    from Cons.IH [OF p this] have "unparse out = unparse (flush segs cur @ [?s]) @ toks \<and> (\<forall>s\<in>set out. segment_ok r s)"
      unfolding f .
    moreover have "unparse (flush segs cur @ [?s]) = unparse (flush segs cur) @ [tok]" using tok by (simp only: unparse_def map_append concat_append list.map concat.simps append_Nil2 Segment.simps)
    ultimately show ?thesis by simp
  next
    case False
    then obtain s where s: "cur = Some s" "parse_loop r toks segs (Some (s\<lparr>segArgs := segArgs s @ [tok]\<rparr>)) = Inr out"
      using Cons.prems(1) by (auto simp: is_head_def split: if_splits option.splits)
    let ?s = "s\<lparr>segArgs := segArgs s @ [tok]\<rparr>"
    have "segment_ok r s" using Cons.prems(2) s(1) by (simp add: flush_def)
    then have "segment_ok r ?s" using False by (simp add: segment_ok_def)
    then have "\<forall>x\<in>set (flush segs (Some ?s)). segment_ok r x" using Cons.prems(2) s(1) by (simp add: flush_def)
    moreover have "unparse (flush segs (Some ?s)) = unparse (flush segs cur) @ [tok]" using s(1) by (simp add: flush_def unparse_def)
    ultimately show ?thesis using Cons.IH [OF s(2)] by simp
  qed
qed simp

lemma parse_error:
  "parse_loop r toks segs cur = Inl e \<Longrightarrow> cur = None \<and> (\<exists>tok rest. toks = tok # rest \<and> \<not> is_head r tok \<and>
     e = (if take 2 tok = ''--'' then UnknownSegment (drop 2 tok) else ArgumentOutside tok))"
  by (induction r toks segs cur rule: parse_loop.induct) (auto simp: is_head_def split: if_splits option.splits)

section \<open>Sessions\<close>

datatype plugin_call = StartCall string "string list" | RunCall string "string list" | EndCall string

datatype 'e report =
    PluginReport string 'e
  | RegistryReport registry_error
  | UsageReport usage_error
  | PlanReport plan_error
  | ListTakesNoArguments
  | HelpUsage
  | UnknownPlugin string
  | NothingToRun

datatype printed = PluginLine string "string list" bool | UsageHeader | PluginHelp string

record ('w, 'e) Runtime =
  Out :: "printed list"
  Err :: "'e report list"
  pluginCalls :: "plugin_call list"
  session :: 'w

text \<open>A call of a plugin: what it does to the session, and whether it fails.\<close>

definition call_plugin :: "plugin_call \<Rightarrow> string \<Rightarrow> ('w \<Rightarrow> 'e option \<times> 'w) \<Rightarrow> ('w, 'e) Runtime \<Rightarrow> bool \<times> ('w, 'e) Runtime" where
  "call_plugin c name f rt =
     (case f (session rt) of
        (None, w) \<Rightarrow> (True, rt\<lparr>pluginCalls := pluginCalls rt @ [c], session := w\<rparr>)
      | (Some e, w) \<Rightarrow> (False, rt\<lparr>pluginCalls := pluginCalls rt @ [c], session := w, Err := Err rt @ [PluginReport name e]\<rparr>))"

text \<open>The three loops of \<^verbatim>\<open>execSession\<close>. \<open>None\<close>: a nil plugin is called, which panics.\<close>

fun start_loop :: "('w, 'e) Registry \<Rightarrow> Segment list \<Rightarrow> string list \<Rightarrow> ('w, 'e) Runtime \<Rightarrow> nat \<times> string list \<times> ('w, 'e) Runtime" where
  "start_loop r [] started rt = (0, started, rt)"
| "start_loop r (s # ss) started rt =
     (case Option.bind (Lookup r (segName s)) lifecycle of
        None \<Rightarrow> start_loop r ss started rt
      | Some (start, _) \<Rightarrow>
          (let (ok, rt') = call_plugin (StartCall (segName s) (segArgs s)) (segName s) (start (segArgs s)) rt
           in if ok then start_loop r ss (started @ [segName s]) rt' else (1, started, rt')))"

fun session_loop :: "('w, 'e) Registry \<Rightarrow> Segment list \<Rightarrow> ('w, 'e) Runtime \<Rightarrow> (nat \<times> ('w, 'e) Runtime) option" where
  "session_loop r [] rt = Some (0, rt)"
| "session_loop r (s # ss) rt =
     (case Lookup r (segName s) of
        None \<Rightarrow> None
      | Some p \<Rightarrow>
          (let (ok, rt') = call_plugin (RunCall (segName s) (segArgs s)) (segName s) (Run p (segArgs s)) rt
           in if ok then session_loop r ss rt' else Some (1, rt')))"

fun end_loop :: "('w, 'e) Registry \<Rightarrow> string list \<Rightarrow> nat \<Rightarrow> ('w, 'e) Runtime \<Rightarrow> (nat \<times> ('w, 'e) Runtime) option" where
  "end_loop r [] code rt = Some (code, rt)"
| "end_loop r (name # ns) code rt =
     (case Option.bind (Lookup r name) lifecycle of
        None \<Rightarrow> None
      | Some (_, stop) \<Rightarrow>
          (let (ok, rt') = call_plugin (EndCall name) name stop rt
           in end_loop r ns (if \<not> ok \<and> code = 0 then 1 else code) rt'))"

definition execSession :: "('w, 'e) Registry \<Rightarrow> Segment list \<Rightarrow> ('w, 'e) Runtime \<Rightarrow> (nat \<times> ('w, 'e) Runtime) option" where
  "execSession r plan rt =
     (let (code, started, rt1) = start_loop r plan [] rt
      in case (if code = 0 then session_loop r plan rt1 else Some (code, rt1)) of
           None \<Rightarrow> None
         | Some (code', rt2) \<Rightarrow> end_loop r (rev started) code' rt2)"

lemma call_plugin_spec:
  assumes "call_plugin c name f rt = (ok, rt')"
  shows "pluginCalls rt' = pluginCalls rt @ [c]" and "Out rt' = Out rt" and "ok \<Longrightarrow> Err rt' = Err rt"
    and "\<not> ok \<Longrightarrow> \<exists>e. Err rt' = Err rt @ [PluginReport name e]"
  using assms by (auto simp: call_plugin_def split: prod.splits option.splits)

definition managed :: "('w, 'e) Registry \<Rightarrow> Segment list \<Rightarrow> Segment list" where
  "managed r plan = filter (\<lambda>s. Option.bind (Lookup r (segName s)) lifecycle \<noteq> None) plan"

definition start_calls :: "Segment list \<Rightarrow> plugin_call list" where
  "start_calls ss = map (\<lambda>s. StartCall (segName s) (segArgs s)) ss"

definition run_calls :: "Segment list \<Rightarrow> plugin_call list" where
  "run_calls ss = map (\<lambda>s. RunCall (segName s) (segArgs s)) ss"

text \<open>The start loop stops at the first failure; \<open>k\<close> plugins have been started.\<close>

lemma start_loop_spec:
  assumes "start_loop r plan started rt = (code, started', rt')"
  shows "\<exists>k \<le> length (managed r plan). started' = started @ map segName (take k (managed r plan)) \<and>
    (code = 0 \<and> k = length (managed r plan) \<and> pluginCalls rt' = pluginCalls rt @ start_calls (managed r plan) \<and> Err rt' = Err rt \<or>
     code = 1 \<and> k < length (managed r plan) \<and> pluginCalls rt' = pluginCalls rt @ start_calls (take (Suc k) (managed r plan)) \<and>
       (\<exists>n e. Err rt' = Err rt @ [PluginReport n e]))"
  using assms
proof (induction plan arbitrary: started rt)
  case (Cons s plan)
  show ?case
  proof (cases "Option.bind (Lookup r (segName s)) lifecycle")
    case None
    then have "start_loop r plan started rt = (code, started', rt')" "managed r (s # plan) = managed r plan"
      using Cons.prems by (simp_all add: managed_def)
    then show ?thesis using Cons.IH by simp
  next
    case (Some lc)
    obtain start stop where lc: "lc = (start, stop)" by (cases lc)
    obtain ok rt1 where c: "call_plugin (StartCall (segName s) (segArgs s)) (segName s) (start (segArgs s)) rt = (ok, rt1)" by force
    note call = call_plugin_spec [OF c]
    have m: "managed r (s # plan) = s # managed r plan" using Some by (simp add: managed_def)
    show ?thesis
    proof (cases ok)
      case True
      then have "start_loop r plan (started @ [segName s]) rt1 = (code, started', rt')" using Cons.prems Some lc c by simp
      from Cons.IH [OF this] obtain k where k: "k \<le> length (managed r plan)"
        "started' = started @ [segName s] @ map segName (take k (managed r plan))"
        "code = 0 \<and> k = length (managed r plan) \<and> pluginCalls rt' = pluginCalls rt1 @ start_calls (managed r plan) \<and> Err rt' = Err rt1 \<or>
         code = 1 \<and> k < length (managed r plan) \<and> pluginCalls rt' = pluginCalls rt1 @ start_calls (take (Suc k) (managed r plan)) \<and>
           (\<exists>n e. Err rt' = Err rt1 @ [PluginReport n e])"
        by auto
      then show ?thesis using call True m by (intro exI [of _ "Suc k"]) (auto simp: start_calls_def)
    next
      case False
      then have "code = 1" "started' = started" "rt' = rt1" using Cons.prems Some lc c by auto
      then show ?thesis using call False m by (intro exI [of _ 0]) (auto simp: start_calls_def)
    qed
  qed
qed (simp add: managed_def start_calls_def)

lemma session_loop_spec:
  assumes "\<forall>s\<in>set plan. Lookup r (segName s) \<noteq> None"
  shows "\<exists>code rt' j. session_loop r plan rt = Some (code, rt') \<and> j \<le> length plan \<and> pluginCalls rt' = pluginCalls rt @ run_calls (take j plan) \<and>
    (code = 0 \<and> j = length plan \<and> Err rt' = Err rt \<or> code = 1 \<and> (\<exists>n e. Err rt' = Err rt @ [PluginReport n e]))"
  using assms
proof (induction plan arbitrary: rt)
  case (Cons s plan)
  then obtain p where p: "Lookup r (segName s) = Some p" by auto
  obtain ok rt1 where c: "call_plugin (RunCall (segName s) (segArgs s)) (segName s) (Run p (segArgs s)) rt = (ok, rt1)" by force
  note call = call_plugin_spec [OF c]
  show ?case
  proof (cases ok)
    case True
    obtain code rt' j where "session_loop r plan rt1 = Some (code, rt')" "j \<le> length plan" "pluginCalls rt' = pluginCalls rt1 @ run_calls (take j plan)"
      "code = 0 \<and> j = length plan \<and> Err rt' = Err rt1 \<or> code = 1 \<and> (\<exists>n e. Err rt' = Err rt1 @ [PluginReport n e])"
      using Cons.IH [of rt1] Cons.prems by auto
    then show ?thesis using call True p c by (intro exI [of _ code] exI [of _ rt'] exI [of _ "Suc j"]) (auto simp: run_calls_def)
  next
    case False
    then show ?thesis using call p c by (intro exI [of _ 1] exI [of _ rt1] exI [of _ 1]) (auto simp: run_calls_def)
  qed
qed (simp add: run_calls_def)

lemma end_loop_spec:
  assumes "\<forall>n\<in>set ns. Option.bind (Lookup r n) lifecycle \<noteq> None" and "code \<le> 1"
  shows "\<exists>code' rt' es. end_loop r ns code rt = Some (code', rt') \<and> pluginCalls rt' = pluginCalls rt @ map EndCall ns \<and> Err rt' = Err rt @ es \<and>
    code' = (if code = 0 \<and> es = [] then 0 else 1)"
  using assms
proof (induction ns arbitrary: code rt)
  case (Cons n ns)
  then obtain start stop where lc: "Option.bind (Lookup r n) lifecycle = Some (start, stop)" by auto
  obtain ok rt1 where c: "call_plugin (EndCall n) n stop rt = (ok, rt1)" by force
  note call = call_plugin_spec [OF c]
  let ?code = "if \<not> ok \<and> code = 0 then 1 else code"
  have "\<forall>n\<in>set ns. Option.bind (Lookup r n) lifecycle \<noteq> None" "?code \<le> 1" using Cons.prems by simp_all
  from Cons.IH [OF this, of rt1] obtain code' rt' es where e: "end_loop r ns ?code rt1 = Some (code', rt')"
    "pluginCalls rt' = pluginCalls rt1 @ map EndCall ns" "Err rt' = Err rt1 @ es" "code' = (if ?code = 0 \<and> es = [] then 0 else 1)" by blast
  obtain es1 where "Err rt1 = Err rt @ es1" "ok \<longleftrightarrow> es1 = []" using call(3,4) by (cases ok) auto
  then show ?case using e lc c call(1) by (intro exI [of _ code'] exI [of _ rt'] exI [of _ "es1 @ es"]) (auto split: if_splits)
qed auto

section \<open>The host\<close>

definition Names :: "('w, 'e) Registry \<Rightarrow> string list" where
  "Names r = sort (map fst (byName r))"

definition printList :: "('w, 'e) Registry \<Rightarrow> ('w, 'e) Runtime \<Rightarrow> ('w, 'e) Runtime" where
  "printList r rt = rt\<lparr>Out := Out rt @ map (\<lambda>n. case Lookup r n of
     None \<Rightarrow> PluginLine n [] False | Some p \<Rightarrow> PluginLine n (deps_of p) (lifecycle p \<noteq> None)) (Names r)\<rparr>"

definition printUsage :: "('w, 'e) Registry \<Rightarrow> ('w, 'e) Runtime \<Rightarrow> ('w, 'e) Runtime" where
  "printUsage r rt = printList r (rt\<lparr>Out := Out rt @ [UsageHeader]\<rparr>)"

definition report_err :: "'e report \<Rightarrow> ('w, 'e) Runtime \<Rightarrow> ('w, 'e) Runtime" where
  "report_err e rt = rt\<lparr>Err := Err rt @ [e]\<rparr>"

definition printPluginHelp :: "('w, 'e) Registry \<Rightarrow> string \<Rightarrow> ('w, 'e) Runtime \<Rightarrow> 'e report + ('w, 'e) Runtime" where
  "printPluginHelp r arg rt =
     (let name = (if take 2 arg = ''--'' then drop 2 arg else arg)
      in case Lookup r name of None \<Rightarrow> Inl (UnknownPlugin name) | Some p \<Rightarrow> Inr (rt\<lparr>Out := Out rt @ [PluginHelp (Name p)]\<rparr>))"

definition run_session :: "('w, 'e) Registry \<Rightarrow> string list \<Rightarrow> ('w, 'e) Runtime \<Rightarrow> (nat \<times> ('w, 'e) Runtime) option" where
  "run_session r argv rt =
     (case ParseSegments argv r of
        Inl e \<Rightarrow> Some (2, report_err (UsageReport e) rt)
      | Inr segs \<Rightarrow>
          (case Plan segs r of
             None \<Rightarrow> None
           | Some (Inl e) \<Rightarrow> Some (2, report_err (PlanReport e) rt)
           | Some (Inr plan) \<Rightarrow> execSession r plan rt))"

definition run_host ::
  "((string \<times> ('w, 'e) Plugin) list \<Rightarrow> (string \<times> ('w, 'e) Plugin) list) \<Rightarrow> ('w, 'e) Plugin list \<Rightarrow> string list \<Rightarrow>
   ('w, 'e) Runtime \<Rightarrow> (nat \<times> ('w, 'e) Runtime) option" where
  "run_host visit_order plugins argv rt =
     (case NewRegistry visit_order plugins of
        Inl e \<Rightarrow> Some (1, report_err (RegistryReport e) rt)
      | Inr r \<Rightarrow>
          (if argv \<noteq> [] \<and> hd argv = ''--list'' then
             (if length argv > 1 then Some (2, report_err ListTakesNoArguments rt) else Some (0, printList r rt))
           else if argv \<noteq> [] \<and> hd argv = ''--help'' then
             (if length argv = 1 then Some (0, printUsage r rt)
              else if length argv = 2 then
                (case printPluginHelp r (argv ! 1) rt of Inl e \<Rightarrow> Some (2, report_err e rt) | Inr rt' \<Rightarrow> Some (0, rt'))
              else Some (2, report_err HelpUsage rt))
           else if argv = [] then Some (2, report_err NothingToRun rt)
           else run_session r argv rt))"

lemma deps_first_registered: "deps_first r B ss \<Longrightarrow> s \<in> set ss \<Longrightarrow> Lookup r (segName s) \<noteq> None"
  by (induction ss arbitrary: B) (auto split: option.splits)

text \<open>
  What a session does. \<open>a\<close> plugins with a lifecycle are asked to start, in plan order, and
  \<open>k\<close> of them do; \<open>j\<close> segments run; those that started end, in reverse order.
\<close>

definition session_calls :: "('w, 'e) Registry \<Rightarrow> Segment list \<Rightarrow> nat \<Rightarrow> plugin_call list \<Rightarrow> bool" where
  "session_calls r plan code cs \<longleftrightarrow>
     (\<exists>a j k. cs = start_calls (take a (managed r plan)) @ run_calls (take j plan) @ map EndCall (rev (map segName (take k (managed r plan)))) \<and>
        (a = length (managed r plan) \<and> k = a \<or> a \<le> length (managed r plan) \<and> a = Suc k \<and> j = 0 \<and> code = 1) \<and>
        (code = 0 \<longrightarrow> k = length (managed r plan) \<and> j = length plan) \<and> code \<le> 1)"

lemma execSession_calls:
  assumes "\<forall>s\<in>set plan. Lookup r (segName s) \<noteq> None"
  shows "\<exists>code rt' cs. execSession r plan rt = Some (code, rt') \<and> pluginCalls rt' = pluginCalls rt @ cs \<and> session_calls r plan code cs \<and>
    (code = 0 \<longleftrightarrow> Err rt' = Err rt)"
proof -
  let ?m = "managed r plan"
  obtain code started rt1 where s: "start_loop r plan [] rt = (code, started, rt1)" by (cases "start_loop r plan [] rt") auto
  obtain k where k: "k \<le> length ?m" "started = map segName (take k ?m)"
    "code = 0 \<and> k = length ?m \<and> pluginCalls rt1 = pluginCalls rt @ start_calls ?m \<and> Err rt1 = Err rt \<or>
     code = 1 \<and> k < length ?m \<and> pluginCalls rt1 = pluginCalls rt @ start_calls (take (Suc k) ?m) \<and> (\<exists>n e. Err rt1 = Err rt @ [PluginReport n e])"
    using start_loop_spec [OF s] by auto
  have lc: "\<forall>n\<in>set (rev started). Option.bind (Lookup r n) lifecycle \<noteq> None"
    using k(2) set_take_subset [of k ?m] by (auto simp: managed_def)
  from k(3) show ?thesis
  proof
    assume z: "code = 0 \<and> k = length ?m \<and> pluginCalls rt1 = pluginCalls rt @ start_calls ?m \<and> Err rt1 = Err rt"
    obtain code2 rt2 j where r2: "session_loop r plan rt1 = Some (code2, rt2)" "j \<le> length plan" "pluginCalls rt2 = pluginCalls rt1 @ run_calls (take j plan)"
      "code2 = 0 \<and> j = length plan \<and> Err rt2 = Err rt1 \<or> code2 = 1 \<and> (\<exists>n e. Err rt2 = Err rt1 @ [PluginReport n e])"
      using session_loop_spec [OF assms, of rt1] by blast
    then have "code2 \<le> 1" by auto
    from end_loop_spec [OF lc this, of rt2] obtain code3 rt3 es where r3: "end_loop r (rev started) code2 rt2 = Some (code3, rt3)"
      "pluginCalls rt3 = pluginCalls rt2 @ map EndCall (rev started)" "Err rt3 = Err rt2 @ es" "code3 = (if code2 = 0 \<and> es = [] then 0 else 1)" by blast
    have "execSession r plan rt = Some (code3, rt3)" using s z r2(1) r3(1) by (simp add: execSession_def)
    moreover have "session_calls r plan code3 (start_calls ?m @ run_calls (take j plan) @ map EndCall (rev started))"
      unfolding session_calls_def using r2(2,4) r3(4) k(2) z by (intro exI [of _ "length ?m"] exI [of _ j]) auto
    moreover have "code3 = 0 \<longleftrightarrow> Err rt3 = Err rt" using z r2(4) r3(3,4) by auto
    ultimately show ?thesis using z r2(3) r3(2) by (metis append.assoc)
  next
    assume z: "code = 1 \<and> k < length ?m \<and> pluginCalls rt1 = pluginCalls rt @ start_calls (take (Suc k) ?m) \<and> (\<exists>n e. Err rt1 = Err rt @ [PluginReport n e])"
    then have "code \<le> 1" by simp
    from end_loop_spec [OF lc this, of rt1] obtain code3 rt3 es where r3: "end_loop r (rev started) code rt1 = Some (code3, rt3)"
      "pluginCalls rt3 = pluginCalls rt1 @ map EndCall (rev started)" "Err rt3 = Err rt1 @ es" "code3 = (if code = 0 \<and> es = [] then 0 else 1)" by blast
    have "execSession r plan rt = Some (code3, rt3)" using s z r3(1) by (simp add: execSession_def)
    moreover have "session_calls r plan code3 (start_calls (take (Suc k) ?m) @ run_calls (take 0 plan) @ map EndCall (rev started))"
      unfolding session_calls_def using r3(4) k(2) z by (intro exI [of _ "Suc k"] exI [of _ 0] exI [of _ k]) auto
    moreover have "code3 = 0 \<longleftrightarrow> Err rt3 = Err rt" using z r3(3,4) by auto
    moreover have "pluginCalls rt3 = pluginCalls rt @ start_calls (take (Suc k) ?m) @ run_calls (take 0 plan) @ map EndCall (rev started)"
      using z r3(2) by (simp add: run_calls_def)
    ultimately show ?thesis by blast
  qed
qed

lemma Plan_result:
  obtains (planned) ss where "Plan segs r = Some (Inr ss)" and "legal_order r segs ss" | (refused) e where "Plan segs r = Some (Inl e)"
  using plan_meets_spec [of segs r] by (metis old.sum.exhaust)

lemma run_session_sound:
  "\<exists>code rt'. run_session r argv rt = Some (code, rt') \<and> (code = 0 \<longleftrightarrow> Err rt' = Err rt) \<and>
     (code \<le> 2 \<and> pluginCalls rt' = pluginCalls rt \<or>
      (\<exists>segs plan cs. argv = unparse segs \<and> legal_order r segs plan \<and> pluginCalls rt' = pluginCalls rt @ cs \<and> session_calls r plan code cs))"
proof (cases "ParseSegments argv r")
  case (Inl e)
  then show ?thesis by (simp add: run_session_def report_err_def)
next
  case (Inr segs)
  then have argv: "argv = unparse segs"
    using parse_sound [of r argv "[]" None segs] by (simp add: ParseSegments_def flush_def unparse_def)
  show ?thesis
  proof (cases rule: Plan_result [of segs r])
    case (planned plan)
    have "\<forall>s\<in>set plan. Lookup r (segName s) \<noteq> None" using planned(2) deps_first_registered by (auto simp: legal_order_def)
    from execSession_calls [OF this, of rt] obtain code rt' cs where "execSession r plan rt = Some (code, rt')"
      "pluginCalls rt' = pluginCalls rt @ cs" "session_calls r plan code cs" "code = 0 \<longleftrightarrow> Err rt' = Err rt" by blast
    then show ?thesis using Inr planned argv unfolding run_session_def by auto
  next
    case (refused e)
    then show ?thesis using Inr by (simp add: run_session_def report_err_def)
  qed
qed

section \<open>Properties\<close>

text \<open>
  The splitter is exact: it accepts a command line and yields segments exactly when
  printing the segments gives the command line back, each head is a registered plugin, and no
  argument is one; so printed segments parse back to themselves and nothing is reordered,
  merged or dropped. It rejects a command line exactly when its first word is no head, and
  says which kind of word that is.
\<close>

theorem ParseSegments_exact:
  "(ParseSegments argv r = Inr segs \<longleftrightarrow> argv = unparse segs \<and> list_all (segment_ok r) segs) \<and>
   (ParseSegments argv r = Inl e \<longleftrightarrow> argv \<noteq> [] \<and> \<not> is_head r (hd argv) \<and>
      e = (if take 2 (hd argv) = ''--'' then UnknownSegment (drop 2 (hd argv)) else ArgumentOutside (hd argv)))"
proof
  show "ParseSegments argv r = Inr segs \<longleftrightarrow> argv = unparse segs \<and> list_all (segment_ok r) segs"
    using parse_sound [of r argv "[]" None segs] parse_unparse [of segs r "[]" None]
    by (auto simp: ParseSegments_def flush_def unparse_def list_all_iff)
  show "ParseSegments argv r = Inl e \<longleftrightarrow> argv \<noteq> [] \<and> \<not> is_head r (hd argv) \<and>
      e = (if take 2 (hd argv) = ''--'' then UnknownSegment (drop 2 (hd argv)) else ArgumentOutside (hd argv))"
  proof
    assume "ParseSegments argv r = Inl e"
    then show "argv \<noteq> [] \<and> \<not> is_head r (hd argv) \<and>
        e = (if take 2 (hd argv) = ''--'' then UnknownSegment (drop 2 (hd argv)) else ArgumentOutside (hd argv))"
      using parse_error [of r argv "[]" None e] by (auto simp: ParseSegments_def)
  next
    assume a: "argv \<noteq> [] \<and> \<not> is_head r (hd argv) \<and>
        e = (if take 2 (hd argv) = ''--'' then UnknownSegment (drop 2 (hd argv)) else ArgumentOutside (hd argv))"
    then obtain tok toks where "argv = tok # toks" by (cases argv) auto
    then show "ParseSegments argv r = Inl e" using a by (auto simp: ParseSegments_def is_head_def split: option.splits)
  qed
qed

text \<open>
  C39. The host keeps its contract for every set of plugins and every command line. It never
  panics. Its exit code is 0 exactly when nothing was reported, and at most 2. Either no
  plugin is called at all, or the command line was valid, the plan is a legal order for it,
  and the calls follow it: starts in plan order until one fails, runs in plan order until one
  fails but none if a start failed, and then exactly the plugins that did start are ended, in
  reverse order, whatever failed.
\<close>

theorem run_host_sound:
  "\<exists>code rt'. run_host visit_order plugins argv rt = Some (code, rt') \<and> (code = 0 \<longleftrightarrow> Err rt' = Err rt) \<and>
     (code \<le> 2 \<and> pluginCalls rt' = pluginCalls rt \<or>
      (\<exists>r segs plan cs. NewRegistry visit_order plugins = Inr r \<and> argv = unparse segs \<and> legal_order r segs plan \<and>
         pluginCalls rt' = pluginCalls rt @ cs \<and> session_calls r plan code cs))"
proof (cases "NewRegistry visit_order plugins")
  case (Inl e)
  then show ?thesis by (simp add: run_host_def report_err_def)
next
  case (Inr r)
  have "\<exists>code rt'. run_session r argv rt = Some (code, rt') \<and> (code = 0 \<longleftrightarrow> Err rt' = Err rt) \<and>
     (code \<le> 2 \<and> pluginCalls rt' = pluginCalls rt \<or>
      (\<exists>segs plan cs. argv = unparse segs \<and> legal_order r segs plan \<and> pluginCalls rt' = pluginCalls rt @ cs \<and> session_calls r plan code cs))"
    by (rule run_session_sound)
  then show ?thesis using Inr
    by (auto simp: run_host_def report_err_def printList_def printUsage_def printPluginHelp_def Let_def split: option.splits)
qed

end
