(* ===== verification/Spec2Isabelle.thy ===== *)
theory Spec2Isabelle
  imports Concurrent_Wait Concurrent_Ticks Spin_Lock Task_Context Registry Stack_Trace Example_Main Example_Gin Harness_Session
begin

text \<open>
  A verification library of agilepool, a goroutine pool with adaptive scaling. The paths
  below are relative to \<^verbatim>\<open>src/\<close>.

  \<^bold>\<open>The program.\<close> A client creates a pool (\<^verbatim>\<open>pool.go\<close>, \<^verbatim>\<open>config.go\<close>) and submits
  tasks (\<^verbatim>\<open>task.go\<close>). A submission counts the task as pending, starts a first worker if
  none runs, and hands the task to one of the handoff channels, the shards; in BLOCK mode a
  full shard sends it to an overflow buffer (\<^verbatim>\<open>task_buffer.go\<close>) or makes the submitter
  wait. Workers (\<^verbatim>\<open>worker.go\<close>) empty shards and buffer and then park in an idle container
  (\<^verbatim>\<open>internal/idle/\<close>) under a mutex or a spin lock (\<^verbatim>\<open>spinlock.go\<close>). A sampler feeds
  counters into histograms (\<^verbatim>\<open>histogram.go\<close>); from their medians and the backlog a scaler
  decides how many workers to start. \<^verbatim>\<open>Wait\<close> blocks until nothing is pending. Hooks
  (\<^verbatim>\<open>hook.go\<close>, \<^verbatim>\<open>hook/\<close>) observe the life of a task; \<^verbatim>\<open>internal/context/\<close> carries
  labels, trace ids and timings; \<^verbatim>\<open>stack_trace.go\<close> formats panic reports.

  \<^bold>\<open>The theories, in the order of their dependence.\<close>

  \<^item> \<open>Go_Prelude\<close>, \<open>Go_Float\<close>: \<^verbatim>\<open>int64\<close> wrap-around, package time, \<^verbatim>\<open>sync.Pool\<close>;
    binary64 numbers as rationals with rounding to nearest even, infinities and NaN, and the
    facts on exactness, monotonicity and error of rounding.
  \<^item> \<open>Idle_Spec\<close>: the contract of \<^verbatim>\<open>IdleContainer\<close> as the locales \<open>idle_container\<close>,
    \<open>fifo_container\<close> and \<open>oldest_container\<close>. \<open>Idle_Slice\<close>, \<open>Idle_RingQueue\<close>,
    \<open>Idle_LinkedList\<close>, \<open>Idle_Heap\<close>, \<open>Idle_Treap\<close>: the five implementations, each with an
    interpretation. \<open>Idle_Works\<close>: the container a pool selects, as the sum of the five; no
    history panics or hands a worker out twice, the FIFO containers agree, heap and treap
    pop the oldest first.
  \<^item> \<open>Histogram\<close>: the sliding window; \<^verbatim>\<open>median\<close> is the midpoint of the bucket of the true
    median.
  \<^item> \<open>Task_Buffer\<close>: the chunked buffer in an explicit store of chunks with recycling,
    refined against a queue; the locale \<open>task_buffer\<close> and its interpretation \<open>tbuf\<close>.
  \<^item> \<open>Config\<close>: options and defaults; each field is the last acceptable argument of its own
    option, or the default. \<open>config_valid\<close> collects the ranges the guards of the options leave;
    what \<^verbatim>\<open>NewPool\<close> needs beyond them (\<open>Shards\<close>) is a hypothesis of the theorems on pools.
  \<^item> \<open>Task\<close>: the task types, \<^verbatim>\<open>process\<close>, retries and backoff; the trace of calls and sleeps
    of a retried task, and the exact default schedule.
  \<^item> \<open>Spin_Lock\<close>: any number of goroutines at single compare-and-swaps; mutual exclusion
    and the exact schedule of yields.
  \<^item> \<open>Drain\<close>: \<^verbatim>\<open>addPending\<close>, \<^verbatim>\<open>done\<close> and \<^verbatim>\<open>Wait\<close> at single atomic accesses;
    no early return, no lost wake-up, no double close.
  \<^item> \<open>Hooks\<close>: the bundled and the dynamic dispatcher over the locale \<open>hook_registry\<close>; they
    dispatch alike, whatever panics.
  \<^item> \<open>Task_Context\<close>: labels, recycling, lookup through wrapping contexts, trace ids; nothing is
    left of an earlier use after any history of taking, writing and releasing contexts.
  \<^item> \<open>Stack_Trace\<close>: the stack report, over given frames and files.
  \<^item> \<open>Shards\<close>: shard count, shard size and the round-robin cursor at machine width.
  \<^item> \<open>Pool\<close>: the record \<open>Pool\<close> with the fields of the struct, \<^verbatim>\<open>NewPool\<close>, the submission
    path (\<open>submit\<close> calls \<open>submit_enter\<close>, \<open>try_shard\<close>, \<open>submit_buffer\<close> and \<open>submit_select\<close>,
    which are its consecutive parts), the exported entry points, \<^verbatim>\<open>Close\<close> and the getters;
    the invariant \<open>pool_inv\<close> and the multiset \<open>held\<close> of the tasks in shards and buffer.
  \<^item> \<open>Submission\<close>: a submission conserves tasks and counts; the promises of BLOCK and
    NONBLOCK mode; hooks fire exactly once.
  \<^item> \<open>Worker\<close>: \<^verbatim>\<open>nextShardTask\<close>, \<^verbatim>\<open>runTask\<close> and the loop of \<^verbatim>\<open>run\<close>; the loop
    returns with every queued task run once and the worker parked.
  \<^item> \<open>Scaler\<close>: \<^verbatim>\<open>sampleRates\<close>, \<^verbatim>\<open>scaleIfNeeded\<close> and the tickers; capacity bound,
    rescue of stranded tasks, the exact growth of the zero-consume fallback, the range of the decay under rounding.
  \<^item> \<open>Lifecycle\<close>: histories of calls on one pool, all components together; the counts stay
    exact and accepted work drains.
  \<^item> \<open>Registry\<close>: \<^verbatim>\<open>GetDefaultPool\<close> and the logger cell.
  \<^item> \<open>Concurrent_Pool\<close>: the whole pool under concurrency. \<open>submit_step\<close>, \<open>worker_step\<close>,
    \<open>scaler_step\<close> and \<open>close_step\<close> cut \<^verbatim>\<open>submit\<close>, \<^verbatim>\<open>worker.run\<close>, the scaler and \<^verbatim>\<open>Close\<close>
    at their atomic accesses and critical sections; \<open>conc_step\<close> lets any goroutine take the
    next step. The locale \<open>goroutines\<close> states what a step may do to the tasks, the pending
    count and the running count; it is interpreted for the four kinds of goroutines.
    \<open>Concurrent_Ledger\<close>: the invariant of all reachable states (the ledger of tasks, the
    running count, the end of the scaler, the owner of each worker object).
    \<open>Concurrent_Calls\<close>: the steps of one goroutine alone, along \<open>submit\<close> and \<open>run\<close>.
    \<open>Concurrent_Results\<close>: what submitters are told.
    \<open>Concurrent_Safety\<close>: the properties; no task is lost or run twice, the scaler stops only
    when the pool is drained, nothing deadlocks, no worker is shared, and the running count
    stays within capacity + 1. \<open>Concurrent_Progress\<close>: each goroutine comes
    to its end or to a wait by its own steps, and from every reachable state some schedule
    drains the pool and, once it is closed, ends every goroutine. \<open>Concurrent_Rest\<close>: whatever
    the schedule, between two ticks and without new calls the goroutines take a bounded number
    of steps and come to rest (a measure on the whole state). \<open>Concurrent_Ticks\<close>: tasks can be
    stranded there; the number \<^verbatim>\<open>scaleIfNeeded\<close> computes then starts enough workers, each tick
    lowers the pending count, and so the ticks drain the pool. What is claimed to be possible
    is shown with computed ticks: \<open>own_step\<close> are the goroutines' own steps, each tick asking for
    \<open>tick_request\<close>, without clients or changes outside, and \<open>real_step\<close> adds submissions;
    by them capacity + 1 workers are reached. The sequential calls of \<open>Pool\<close>,
    \<open>Worker\<close> and \<open>Scaler\<close> are executions of the steps that nobody interrupts.
    \<open>Concurrent_Wait\<close>: the pool and the protocol of \<open>Drain\<close> side by side, synchronised on the
    pending count; \<^verbatim>\<open>Wait\<close> covers every task accepted before it, every call of it can return
    by own steps with computed ticks, and none is left behind at rest.
  \<^item> \<open>Example_Main\<close>, \<open>Example_Gin\<close>: the two example programs as clients of the library; the
    first runs every task of its concurrent submitters once and can finish, the second (with \<^verbatim>\<open>gin\<close> as a
    parameter) connects hooks, context tasks and a non-blocking pool.
  \<^item> \<open>Harness_Plan\<close>, \<open>Harness_Session\<close>: the host of the load generator under \<^verbatim>\<open>test/\<close>. A
    plugin is a record of functions. \<open>legal_order\<close> specifies an execution order and \<open>Plan\<close>
    refines it: it finds one exactly when there is one; the depth of its recursion is bounded by
    the number of plugins, which is shown to be enough. The splitter is the inverse of
    printing, and a session ends exactly the plugins it started.

  \<^bold>\<open>Modelling conventions.\<close> A function that may panic or not return yields an option, and
  the theorems state that it is \<open>Some\<close>. Tasks, hooks, panic handlers, backoff strategies and
  contexts are arbitrary functions on a \<^emph>\<open>world\<close>, each ending normally or in a panic.
  Choices of the runtime (which ready case a \<^verbatim>\<open>select\<close> takes, which object a
  \<^verbatim>\<open>sync.Pool\<close> returns, treap priorities, \<^verbatim>\<open>time.Now\<close>, random bytes, the conversion
  of an out-of-range float) are arguments, over which the theorems quantify. Channels, which
  the pool never closes, are bounded queues. In \<open>Pool\<close>, \<open>Worker\<close>, \<open>Scaler\<close> and \<open>Lifecycle\<close> a
  call is one uninterrupted run; the interleavings of atomic accesses are the subject of
  \<open>Concurrent_Pool\<close>, \<open>Drain\<close> and \<open>Spin_Lock\<close>, and concurrent \<^verbatim>\<open>TraceID\<close> callers that of
  \<open>Task_Context\<close>.

  \<^bold>\<open>Bounds.\<close> Loops are total functions with a measure, or partial functions whose result is
  proved to exist: the worker loop ends because each turn removes a task, the doubling of
  shards ends exactly up to \<open>2^62\<close>. Only the recursion of \<open>Plan\<close> takes a depth, one more than
  there are plugins, which never runs out. Sizes, durations, float conversions,
  shard masks and cursors keep their machine width; the pending, running and statistics
  counters are unbounded integers, which would take \<open>2^63\<close> concurrent tasks to tell apart.
  Where a computed tick is claimed to start enough workers, periods up to \<open>2^44\<close> ns and up to \<open>2^62\<close> pending tasks are assumed.

  In \<open>Concurrent_Pool\<close> the body of a task is one step, before and after which the world may
  change in any way and anybody may submit, so a task that submits to its own pool is a
  client that submits while the task is in a worker's hands; the number of workers a scaler
  tick asks for is arbitrary there, so that what holds for every run holds for every policy,
  and computed in \<open>Scaler\<close> and \<open>Concurrent_Ticks\<close>; \<^verbatim>\<open>done\<close> is one step there,
  and taken apart in \<open>Drain\<close> and \<open>Concurrent_Wait\<close>. The sections under \<^verbatim>\<open>muIdle\<close>, \<^verbatim>\<open>taskMu\<close>
  and \<^verbatim>\<open>p.lock\<close> are single steps: each goroutine takes at most one of these locks at a time.

  \<^bold>\<open>Not modelled.\<close> Fairness of the scheduler: between ticks progress holds for every
  schedule, but that the scaler does tick, and that each goroutine which can step is run
  before the next tick, is not derived; the memory model below the level of atomic
  accesses and locks; the fusing of floating-point operations that Go permits on some
  processors; the wrap of the counter of a retry loop after \<open>2^63 - 1\<close> retries. The plugins of
  the load generator under \<^verbatim>\<open>test/\<close> (they are parameters of its host, which change the session or
  report an error; what they print and panics of theirs are left out), its option
  getters and its store, the profiling calls of \<^verbatim>\<open>example/main.go\<close> and the HTTP server around the gin
  example are outside.

  \<^bold>\<open>What could come next.\<close> Termination under a fair scheduler with ticks that overlap the
  work of workers.
\<close>

end
